(* ===== verification/Prelude.thy ===== *)
theory Prelude
  imports Main "HOL-Library.Word"
begin

text \<open>
  The shared part of the library: the machine types of the C sources, bit-level facts about
  machine words that the range coder and the hash functions need, the value of a finite prefix of
  a bit sequence, and the C library functions on characters and strings that the sources call.
\<close>

unbundle bit_operations_syntax

section \<open>Machine types\<close>

type_synonym u8 = "8 word"
type_synonym u16 = "16 word"
type_synonym u32 = "32 word"
type_synonym u64 = "64 word"

named_theorems word_nat \<open>words seen as natural numbers\<close>

section \<open>C arithmetic\<close>

text \<open>Signed division and the conversions of C: division truncates towards zero, a conversion to
  an unsigned type reduces modulo its width.\<close>

definition c_div :: "int \<Rightarrow> int \<Rightarrow> int" where
  "c_div a b = sgn a * sgn b * (\<bar>a\<bar> div \<bar>b\<bar>)"

lemma c_div_nonneg [simp]: "0 \<le> a \<Longrightarrow> 0 < b \<Longrightarrow> c_div a b = a div b"
  by (cases "a = 0") (auto simp: c_div_def)

section \<open>Words as natural numbers\<close>

lemma unat_lt_8 [simp]: "unat (w :: u8) < 256"
  using unsigned_less [of w] by simp

lemma unat_lt_16 [simp]: "unat (w :: u16) < 65536"
  using unsigned_less [of w] by simp

lemma unat_lt_32 [simp]: "unat (w :: u32) < 4294967296"
  using unsigned_less [of w] by simp

lemma unat_lt_64 [simp]: "unat (w :: u64) < 18446744073709551616"
  using unsigned_less [of w] by simp

lemma unat_push_bit_1 [word_nat]: "unat (push_bit 1 (w :: u32)) = (2 * unat w) mod 2 ^ 32"
  by (simp add: unat_word_ariths mult.commute)

lemma unat_drop_bit_nat [word_nat]: "unat (drop_bit n (w :: 'a::len word)) = unat w div 2 ^ n"
  by (subst unat_drop_bit_eq) (simp only: drop_bit_eq_div)

lemma even_or_1: "even (n :: nat) \<Longrightarrow> n OR 1 = n + 1"
  by (simp only: or_one_eq) simp

lemma unat_push_bit_1_or_1 [word_nat]:
  "unat (push_bit 1 (w :: u32) OR 1) = (2 * unat w) mod 2 ^ 32 + 1"
  by (simp only: unsigned_or_eq unsigned_1 unat_push_bit_1) (rule even_or_1, simp add: dvd_mod)

lemma unat_and_mask [word_nat]: "unat (w AND mask n) = unat (w :: 'a::len word) mod 2 ^ n"
  by (simp only: take_bit_eq_mask [symmetric] unsigned_take_bit_eq) (simp only: take_bit_eq_mod)

lemma bit_word_nat: "bit (w :: 'a::len word) n \<longleftrightarrow> odd (unat w div 2 ^ n)"
proof -
  have "bit w n \<longleftrightarrow> bit (unat w) n" by (auto simp: bit_unsigned_iff bit_imp_possible_bit)
  then show ?thesis by (simp only: bit_iff_odd)
qed

lemma bit_31_iff [word_nat]: "bit (w :: u32) 31 \<longleftrightarrow> 2147483648 \<le> unat w"
proof -
  have "unat w div 2147483648 = (if 2147483648 \<le> unat w then 1 else 0)"
    using unat_lt_32 [of w] by (simp add: div_nat_eqI)
  then show ?thesis by (simp add: bit_word_nat)
qed

section \<open>Bit sequences\<close>

text \<open>The value of the first \<open>n\<close> bits of a sequence, the first bit being the most significant,
  and the bits of a byte buffer in the order in which the coder writes them.\<close>

primrec pre_val :: "(nat \<Rightarrow> bool) \<Rightarrow> nat \<Rightarrow> nat" where
  "pre_val X 0 = 0"
| "pre_val X (Suc n) = 2 * pre_val X n + of_bool (X n)"

definition stream_bit :: "u8 list \<Rightarrow> nat \<Rightarrow> bool" where
  "stream_bit bs i = bit (bs ! (i div 8)) (7 - i mod 8)"

lemma pre_val_cong: "(\<And>i. i < n \<Longrightarrow> X i = Y i) \<Longrightarrow> pre_val X n = pre_val Y n"
  by (induction n) auto

lemma pre_val_add: "pre_val X (m + n) = pre_val X m * 2 ^ n + pre_val (\<lambda>i. X (m + i)) n"
  by (induction n) (auto simp: algebra_simps)

lemma pre_val_bound: "pre_val X n < 2 ^ n"
  by (induction n) (auto simp: of_bool_def)

lemma pre_val_const: "pre_val (\<lambda>i. b) n = (if b then 2 ^ n - 1 else 0)"
proof (induction n)
  case (Suc n)
  obtain k where "(2::nat) ^ n = Suc k" by (cases "(2::nat) ^ n") auto
  with Suc show ?case by (auto simp: of_bool_def)
qed simp

lemma pre_val_Suc_bounds: "2 * pre_val X n \<le> pre_val X (Suc n)" "pre_val X (Suc n) \<le> 2 * pre_val X n + 1"
  by simp_all

lemma bit_position_eq_iff:
  assumes "i div 8 = j div (8 :: nat)"
  shows "7 - i mod 8 = 7 - j mod 8 \<longleftrightarrow> i = j"
proof -
  have "i mod 8 < 8" "j mod 8 < 8" by simp_all
  then have "7 - i mod 8 = 7 - j mod 8 \<longleftrightarrow> i mod 8 = j mod 8" by linarith
  with assms show ?thesis by (metis div_mult_mod_eq)
qed

end
