(* ===== verification/Arithmetic.thy ===== *)
theory Arithmetic
  imports Prelude
begin

text \<open>
  The range coder of \<^verbatim>\<open>forms/arithmetic.c\<close> and \<^verbatim>\<open>forms/arithmetic.h\<close>: its state and every operation
  that changes it. An operation takes the coder and returns the coder it leaves behind together
  with the C return code (0 for success, -1 for failure), because a failing call of the C code
  leaves its partial changes in the structure.

  The fields keep the names of the C structure (\<open>cvalue\<close> is the field \<^verbatim>\<open>value\<close>).
  \<open>low\<close>, \<open>high\<close> and \<open>cvalue\<close> are 32-bit unsigned integers; \<open>bits_used\<close> is an
  unsigned int that can pass the end of the stream while decoding, its wrap-around is written out.
  \<open>bit_stream_length\<close> is only ever set to 8 times a byte count. \<open>debug\<close> is whether the C
  pointer is non-null. Logging is not modelled, and neither is the running sum \<^verbatim>\<open>entropy\<close> (a
  floating-point statistic no branch reads); the one branch on the entropy of a symbol is modelled
  exactly, see \<open>entropy_negative\<close>.
\<close>

section \<open>State\<close>

record range_coder =
  low :: u32
  high :: u32
  cvalue :: u32
  underflow :: int
  errors :: int
  decodingP :: bool
  debug :: bool
  norescale :: bool
  bit_stream :: "u8 list"
  bit_stream_length :: nat
  bits_used :: nat

abbreviation MAXVALUE :: u32 where "MAXVALUE \<equiv> 0xffffff"
abbreviation MAXVALUEPLUS1 :: u32 where "MAXVALUEPLUS1 \<equiv> 0x1000000"

definition range_coder_reset :: "range_coder \<Rightarrow> range_coder" where
  "range_coder_reset c = c\<lparr>low := 0, high := 0xffffffff, bits_used := 0, underflow := 0, errors := 0\<rparr>"

text \<open>The bytes of a fresh buffer are whatever \<^verbatim>\<open>malloc\<close> hands out: the parameter \<open>junk\<close>.\<close>

definition range_new_coder :: "(nat \<Rightarrow> u8) \<Rightarrow> nat \<Rightarrow> range_coder" where
  "range_new_coder junk bytes =
     range_coder_reset \<lparr>low = 0, high = 0, cvalue = 0, underflow = 0, errors = 0, decodingP = False,
       debug = False, norescale = False,
       bit_stream = map junk [0..<bytes], bit_stream_length = bytes * 8, bits_used = 0\<rparr>"

section \<open>The bit stream\<close>

definition bits2bytes :: "nat \<Rightarrow> nat" where
  "bits2bytes b = (let extra = (if b AND 7 \<noteq> 0 then 1 else 0) in drop_bit 3 b + extra)"

definition range_decode_getnextbit :: "range_coder \<Rightarrow> range_coder \<times> bool" where
  "range_decode_getnextbit c =
     (if bit_stream_length c \<le> bits_used c
      then (c\<lparr>bits_used := (bits_used c + 1) mod 2 ^ 32\<rparr>, False)
      else (c\<lparr>bits_used := (bits_used c + 1) mod 2 ^ 32\<rparr>,
            bit (bit_stream c ! (bits_used c div 8)) (7 - bits_used c mod 8)))"

text \<open>The bit argument of \<^verbatim>\<open>range_emitbit\<close> is 0 or 1 in every call.\<close>

definition range_emitbit :: "range_coder \<Rightarrow> bool \<Rightarrow> range_coder \<times> int" where
  "range_emitbit c b =
     (if bit_stream_length c \<le> bits_used c then (c, -1)
      else let i = bits_used c div 8;
               k = 7 - bits_used c mod 8;
               buf = bit_stream c;
               buf = (if k = 7 then buf[i := 0] else buf);
               buf = (if b then buf[i := buf ! i OR push_bit k 1]
                      else buf[i := buf ! i AND NOT (push_bit k 0)])
           in (c\<lparr>bit_stream := buf, bits_used := bits_used c + 1\<rparr>, 0))"

section \<open>Consistency check\<close>

definition range_check :: "range_coder \<Rightarrow> int" where
  "range_check c =
     (if high c \<le> low c then -1
      else if \<not> decodingP c then 0
      else if cvalue c > high c \<or> cvalue c < low c then -1
      else 0)"

section \<open>Shifting out settled bits\<close>

text \<open>The loop \<^verbatim>\<open>while (c->underflow-->0) emit(u)\<close>: it occurs in \<^verbatim>\<open>range_emit_stable_bits\<close>, where bits
  are written only when not decoding, and in \<^verbatim>\<open>range_conclude\<close>, where they always are.\<close>

function range_emit_underflow :: "bool \<Rightarrow> range_coder \<Rightarrow> bool \<Rightarrow> range_coder \<times> int" where
  "range_emit_underflow writeP c u =
     (let more = 0 < underflow c; c1 = c\<lparr>underflow := underflow c - 1\<rparr>
      in if \<not> more then (c1, 0)
         else if \<not> writeP then range_emit_underflow writeP c1 u
         else let (c2, r) = range_emitbit c1 u
              in if r \<noteq> 0 then (c2, -1) else range_emit_underflow writeP c2 u)"
  by pat_completeness auto
termination
  by (relation "measure (\<lambda>(w, c, u). nat (underflow c))")
    (auto simp: range_emitbit_def Let_def split: if_splits)

text \<open>One round of the loop of \<^verbatim>\<open>range_emit_stable_bits\<close>.\<close>

definition range_emit_stable_step :: "range_coder \<Rightarrow> range_coder \<times> int" where
  "range_emit_stable_step c =
     (let msb = bit (low c) 31;
          (c1, r1) = (if decodingP c then (c, 0) else range_emitbit c msb)
      in if r1 \<noteq> 0 then (c1, -1)
         else let (c2, r2) =
                    (if underflow c1 \<noteq> 0
                     then let (c', r) = range_emit_underflow (\<not> decodingP c1) c1 (\<not> msb)
                          in if r \<noteq> 0 then (c', -1 :: int) else (c'\<lparr>underflow := 0\<rparr>, 0)
                     else (c1, 0))
              in if r2 \<noteq> 0 then (c2, -1)
                 else let c3 = c2\<lparr>low := push_bit 1 (low c2), high := push_bit 1 (high c2) OR 1\<rparr>
                      in if decodingP c3
                         then let c4 = c3\<lparr>cvalue := push_bit 1 (cvalue c3)\<rparr>;
                                  (c5, nextbit) = range_decode_getnextbit c4
                              in (c5\<lparr>cvalue := cvalue c5 OR of_bool nextbit\<rparr>, 0)
                         else (c3, 0))"

declare range_emit_underflow.simps [simp del]

text \<open>The fields that writing bits leaves alone.\<close>

definition regs :: "range_coder \<Rightarrow> _" where
  "regs c = (low c, high c, cvalue c, errors c, decodingP c, debug c, norescale c, bit_stream_length c)"

lemma regs_eq_iff:
  "regs c' = regs c \<longleftrightarrow> low c' = low c \<and> high c' = high c \<and> cvalue c' = cvalue c \<and>
     errors c' = errors c \<and> decodingP c' = decodingP c \<and> debug c' = debug c \<and>
     norescale c' = norescale c \<and> bit_stream_length c' = bit_stream_length c"
  by (auto simp: regs_def)

lemma regs_update [simp]:
  "regs (c\<lparr>underflow := n\<rparr>) = regs c" "regs (c\<lparr>bit_stream := bs\<rparr>) = regs c"
  "regs (c\<lparr>bits_used := k\<rparr>) = regs c"
  by (simp_all add: regs_def)

lemma range_emitbit_regs [simp]: "regs (fst (range_emitbit c b)) = regs c"
  by (simp add: range_emitbit_def Let_def)

lemma range_emitbit_underflow [simp]: "underflow (fst (range_emitbit c b)) = underflow c"
  by (simp add: range_emitbit_def Let_def)

lemma range_emitbit_regsD: "range_emitbit c b = (c', r) \<Longrightarrow> regs c' = regs c"
  using range_emitbit_regs [of c b] by simp

lemma range_emit_underflow_regs [simp]: "regs (fst (range_emit_underflow w c u)) = regs c"
proof (induction w c u rule: range_emit_underflow.induct)
  case (1 w c u)
  then show ?case
    by (subst range_emit_underflow.simps) (auto simp: Let_def dest!: range_emitbit_regsD split: prod.split)
qed

lemma range_emit_underflow_regsD: "range_emit_underflow w c u = (c', r) \<Longrightarrow> regs c' = regs c"
  using range_emit_underflow_regs [of w c u] by simp

lemma getnextbit_frame:
  "range_decode_getnextbit c = (c', b) \<Longrightarrow> c' = c\<lparr>bits_used := (bits_used c + 1) mod 2 ^ 32\<rparr>"
  by (auto simp: range_decode_getnextbit_def split: if_splits)

lemma range_emit_stable_step_regs:
  assumes "range_emit_stable_step c = (c', r)" "r = 0"
  shows "low c' = push_bit 1 (low c) \<and> high c' = push_bit 1 (high c) OR 1"
  using assms
  by (auto simp: range_emit_stable_step_def Let_def regs_eq_iff split: prod.splits if_splits
      dest!: range_emitbit_regsD range_emit_underflow_regsD getnextbit_frame)

text \<open>The loop runs while the top bits of \<open>low\<close> and \<open>high\<close> agree. Each round shifts a 0 into
  \<open>low\<close> and a 1 into \<open>high\<close>, so the exclusive-or of the two grows and the loop ends.\<close>

lemma xor_shift_grows:
  assumes "\<not> bit (l XOR h :: u32) 31"
  shows "unat (l XOR h) < unat (push_bit 1 l XOR (push_bit 1 h OR 1))"
proof -
  have "push_bit 1 l XOR (push_bit 1 h OR 1) = push_bit 1 (l XOR h) OR 1"
    by (rule bit_word_eqI) (simp only: bit_simps, auto)
  moreover have "unat (l XOR h) < 2147483648" using assms by (simp only: bit_31_iff)
  ultimately show ?thesis by (simp only: unat_push_bit_1_or_1) simp
qed

function range_emit_stable_loop :: "range_coder \<Rightarrow> range_coder \<times> int" where
  "range_emit_stable_loop c =
     (if bit (low c XOR high c) 31 then (c, 0)
      else case range_emit_stable_step c of
             (c', r) \<Rightarrow> if r \<noteq> 0 then (c', -1) else range_emit_stable_loop c')"
  by pat_completeness auto
termination
proof (relation "measure (\<lambda>c. 2 ^ 32 - unat (low c XOR high c))")
  fix c c' r
  assume a: "\<not> bit (low c XOR high c) 31" "(c', r) = range_emit_stable_step c" "\<not> r \<noteq> 0"
  then have "low c' = push_bit 1 (low c) \<and> high c' = push_bit 1 (high c) OR 1"
    by (metis range_emit_stable_step_regs)
  with a(1) xor_shift_grows [of "low c" "high c"] unat_lt_32 [of "low c XOR high c"]
  show "(c', c) \<in> measure (\<lambda>c. 2 ^ 32 - unat (low c XOR high c))" by (simp add: diff_less_mono2)
qed simp

declare range_emit_stable_loop.simps [simp del]

section \<open>Rescaling on underflow\<close>

text \<open>One round of \<^verbatim>\<open>range_rescale\<close>: drop the second bit of \<open>low\<close>, \<open>high\<close> and, when decoding, of
  the value.\<close>

definition range_rescale_step :: "range_coder \<Rightarrow> range_coder \<times> int" where
  "range_rescale_step c0 =
     (let c = c0\<lparr>underflow := underflow c0 + 1\<rparr>;
          new_low = push_bit 1 (low c) AND 0x7fffffff;
          new_high = (push_bit 1 (high c) OR 1) OR 0x80000000
      in if new_high \<le> new_low then (c, -1)
         else let c' = (if decodingP c
                        then let value_bits = push_bit 1 (cvalue c) AND 0x7ffffffe;
                                 c1 = c\<lparr>cvalue := (cvalue c AND 0x80000000) OR value_bits\<rparr>;
                                 (c2, b) = range_decode_getnextbit c1
                             in c2\<lparr>cvalue := cvalue c2 OR of_bool b\<rparr>
                        else c)
              in (c'\<lparr>low := new_low, high := new_high\<rparr>, 0))"

definition underflow_position :: "range_coder \<Rightarrow> bool" where
  "underflow_position c \<longleftrightarrow> drop_bit 30 (low c) = 1 \<and> drop_bit 30 (high c) = 2"

lemma underflow_position_iff:
  "underflow_position c \<longleftrightarrow>
     1073741824 \<le> unat (low c) \<and> unat (low c) < 2147483648 \<and>
     2147483648 \<le> unat (high c) \<and> unat (high c) < 3221225472"
  unfolding underflow_position_def word_unat_eq_iff unat_drop_bit_nat by auto

lemma unat_rescale_low:
  assumes "1073741824 \<le> unat (l :: u32)" "unat l < 2147483648"
  shows "unat (push_bit 1 l AND 0x7fffffff) = 2 * unat l - 2147483648"
proof -
  have "(0x7fffffff :: u32) = mask 31" by (simp add: mask_eq_decr_exp)
  then have "unat (push_bit 1 l AND 0x7fffffff) = (2 * unat l) mod 2 ^ 32 mod 2 ^ 31"
    by (simp only: unat_and_mask unat_push_bit_1)
  also have "\<dots> = 2 * unat l - 2147483648" using assms by (simp add: le_mod_geq)
  finally show ?thesis .
qed

lemma unat_or_top:
  assumes "unat (w :: u32) < 2147483648"
  shows "unat (w OR 0x80000000) = unat w + 2147483648"
proof -
  have top: "(0x80000000 :: u32) = push_bit 31 1" by (simp add: push_bit_eq_mult)
  have "\<not> bit w 31" using assms by (simp only: bit_31_iff)
  then have "\<not> bit w n" if "31 \<le> n" "n < 32" for n using that by (cases "n = 31") auto
  then have "w AND 0x80000000 = 0"
    unfolding top by (intro bit_word_eqI) (simp only: bit_simps, auto)
  then have "w OR 0x80000000 = w + 0x80000000" by (rule disjunctive_add_eq_or [symmetric])
  with assms show ?thesis by (simp add: unat_word_ariths)
qed

lemma unat_rescale_high:
  assumes "2147483648 \<le> unat (h :: u32)" "unat h < 3221225472"
  shows "unat ((push_bit 1 h OR 1) OR 0x80000000) = 2 * unat h + 1 - 2147483648"
proof -
  have "(2 * unat h) mod 2 ^ 32 = 2 * unat h - 4294967296"
    using assms by (simp add: le_mod_geq)
  then have *: "unat (push_bit 1 h OR 1) = 2 * unat h - 4294967296 + 1"
    by (simp only: unat_push_bit_1_or_1)
  with assms have "unat (push_bit 1 h OR 1) < 2147483648" by linarith
  with * assms show ?thesis by (simp only: unat_or_top)
qed

lemma range_rescale_step_range:
  assumes "range_rescale_step c = (c', r)" "underflow_position c"
  shows "r = 0" "unat (low c') = 2 * unat (low c) - 2147483648"
    "unat (high c') = 2 * unat (high c) + 1 - 2147483648"
proof -
  from assms(2) have b: "1073741824 \<le> unat (low c)" "unat (low c) < 2147483648"
    "2147483648 \<le> unat (high c)" "unat (high c) < 3221225472"
    by (simp_all add: underflow_position_iff)
  note nl = unat_rescale_low [OF b(1,2)] and nh = unat_rescale_high [OF b(3,4)]
  have lt: "\<not> (push_bit 1 (high c) OR 1) OR 0x80000000 \<le> push_bit 1 (low c) AND 0x7fffffff"
    using b by (simp only: word_le_nat_alt nl nh)
  with assms(1) have r: "r = 0" and
    lh: "low c' = push_bit 1 (low c) AND 0x7fffffff" "high c' = (push_bit 1 (high c) OR 1) OR 0x80000000"
    by (auto simp: range_rescale_step_def Let_def split: prod.splits if_splits simp del: push_bit_Suc)
  show "r = 0" by (rule r)
  show "unat (low c') = 2 * unat (low c) - 2147483648" by (simp only: lh nl)
  show "unat (high c') = 2 * unat (high c) + 1 - 2147483648" by (simp only: lh nh)
qed

text \<open>Each round more than doubles the width of the interval, so the loop ends.\<close>

function range_rescale :: "range_coder \<Rightarrow> range_coder \<times> int" where
  "range_rescale c =
     (if underflow_position c
      then (case range_rescale_step c of
              (c', r) \<Rightarrow> if r \<noteq> 0 then (c', -1) else range_rescale c')
      else (c, 0))"
  by pat_completeness auto
termination
proof (relation "measure (\<lambda>c. 2 ^ 33 - (unat (high c) - unat (low c)))")
  fix c c' r
  assume a: "underflow_position c" "(c', r) = range_rescale_step c" "\<not> r \<noteq> 0"
  note b = range_rescale_step_range [OF a(2) [symmetric] a(1)]
  from a(1) have "unat (low c) < unat (high c)" "unat (high c) < 2 ^ 32" "1073741824 \<le> unat (low c)"
    by (auto simp: underflow_position_iff)
  with b have "unat (high c) - unat (low c) < unat (high c') - unat (low c')"
    by simp
  moreover have "unat (high c) - unat (low c) < 2 ^ 33"
    by (intro less_imp_diff_less, rule less_trans [OF unat_lt_32]) simp
  ultimately show "(c', c) \<in> measure (\<lambda>c. 2 ^ 33 - (unat (high c) - unat (low c)))"
    by (simp only: in_measure diff_less_mono2)
qed simp

declare range_rescale.simps [simp del]

definition range_emit_stable_bits :: "range_coder \<Rightarrow> range_coder \<times> int" where
  "range_emit_stable_bits c =
     (let (c1, r) = range_emit_stable_loop c
      in if r \<noteq> 0 then (c1, -1)
         else if \<not> norescale c1 then (fst (range_rescale c1), 0)
         else (c1, 0))"

section \<open>Narrowing the interval\<close>

text \<open>All in 64-bit arithmetic; the results are stored in 32-bit variables.\<close>

definition range_space :: "range_coder \<Rightarrow> u64" where
  "range_space c = (ucast (high c) - ucast (low c)) AND 0xffffff00"

text \<open>\<open>None\<close> is the return value -1; the two results are only used on success.\<close>

definition range_calc_new_range :: "range_coder \<Rightarrow> u32 \<Rightarrow> u32 \<Rightarrow> range_coder \<times> (u32 \<times> u32) option" where
  "range_calc_new_range c p_low p_high =
     (let space = range_space c
      in if space < ucast MAXVALUEPLUS1 then (c\<lparr>errors := errors c + 1\<rparr>, None)
         else let new_low = ucast (ucast (low c) + drop_bit 24 (ucast p_low * space));
                  new_high = ucast (ucast (low c) + drop_bit 24 (ucast p_high * space) - 1);
                  new_high = (if MAXVALUEPLUS1 \<le> p_high then high c else new_high)
              in if decodingP c \<and> (new_low > cvalue c \<or> new_high < cvalue c) then (c, None)
                 else (c, Some (new_low, new_high)))"

text \<open>\<^verbatim>\<open>this_entropy<0\<close>: the entropy is \<^verbatim>\<open>-log(p)/log(2)\<close> for \<^verbatim>\<open>p = (p_diff << 8) / 2^32\<close>, computed without
  rounding, so it is negative exactly when \<^verbatim>\<open>p\<close> exceeds 1.\<close>

definition entropy_negative :: "u32 \<Rightarrow> u32 \<Rightarrow> bool" where
  "entropy_negative p_low p_high \<longleftrightarrow> push_bit 8 (ucast (p_high - p_low) :: u64) > 0x100000000"

definition range_encode :: "range_coder \<Rightarrow> u32 \<Rightarrow> u32 \<Rightarrow> range_coder \<times> int" where
  "range_encode c p_low p_high =
     (if p_low > p_high then (c, -1)
      else if p_low > MAXVALUE \<or> p_high > MAXVALUEPLUS1 then (c, -1)
      else case range_calc_new_range c p_low p_high of
             (c1, None) \<Rightarrow> (c1, -1)
           | (c1, Some (new_low, new_high)) \<Rightarrow>
               (let c2 = c1\<lparr>low := new_low, high := new_high\<rparr>
                in if entropy_negative p_low p_high then (c2, -1)
                   else let (c3, r) = range_emit_stable_bits c2
                        in if r \<noteq> 0 then (c3, -1) else (c3, 0)))"

definition range_decode_common :: "range_coder \<Rightarrow> u32 \<Rightarrow> u32 \<Rightarrow> range_coder \<times> int" where
  "range_decode_common c p_low p_high =
     (if bit_stream_length c \<le> bits_used c \<and> high c \<le> low c then (c, -1)
      else if range_check c \<noteq> 0 then (c, -1)
      else case range_calc_new_range c p_low p_high of
             (c1, None) \<Rightarrow> (c1, -1)
           | (c1, Some (new_low, new_high)) \<Rightarrow>
               (let c2 = c1\<lparr>decodingP := True\<rparr>
                in if range_check c2 \<noteq> 0 then (c2, -1)
                   else if new_low > cvalue c2 \<or> new_high < cvalue c2 then (c2, -1)
                   else let c3 = c2\<lparr>low := new_low, high := new_high\<rparr>
                        in if range_check c3 \<noteq> 0 then (c3, -1)
                           else ((fst (range_emit_stable_bits c3))\<lparr>decodingP := False\<rparr>, 0)))"

fun prefetch_loop :: "nat \<Rightarrow> range_coder \<Rightarrow> range_coder" where
  "prefetch_loop 0 c = c"
| "prefetch_loop (Suc n) c =
     (let (c', b) = range_decode_getnextbit c
      in prefetch_loop n (c'\<lparr>cvalue := push_bit 1 (cvalue c') OR of_bool b\<rparr>))"

definition range_decode_prefetch :: "range_coder \<Rightarrow> range_coder" where
  "range_decode_prefetch c = prefetch_loop 32 (c\<lparr>low := 0, high := 0xffffffff, cvalue := 0\<rparr>)"

section \<open>Equiprobable symbols\<close>

definition range_equiprobable_range :: "int \<Rightarrow> int \<Rightarrow> u32 \<times> u32" where
  "range_equiprobable_range alphabet_size symbol =
     (let p_low = ucast ((word_of_int symbol * 0xffffff :: u64) div word_of_int alphabet_size);
          p_high = ucast (((1 + word_of_int symbol) * 0xffffff :: u64) div word_of_int alphabet_size)
      in (p_low, if symbol = alphabet_size - 1 then 0xffffff else p_high))"

text \<open>The second test for large alphabets of \<^verbatim>\<open>range_encode_equiprobable\<close> repeats the first one, which
  returns, so it has no branch here. The results of the two nested calls are ignored.\<close>

function range_encode_equiprobable :: "range_coder \<Rightarrow> int \<Rightarrow> int \<Rightarrow> range_coder \<times> int" where
  "range_encode_equiprobable c alphabet_size symbol =
     (if alphabet_size \<ge> 0x400000
      then let c1 = fst (range_encode_equiprobable c (1 + alphabet_size div 0x10000) (c_div symbol 0x10000));
               c2 = fst (range_encode_equiprobable c1 0x10000 (symbol AND 0xffff))
           in (c2, 0)
      else if alphabet_size < 1 then (c, 0)
      else let (p_low, p_high) = range_equiprobable_range alphabet_size symbol
           in range_encode c p_low p_high)"
  by pat_completeness auto
termination
  by (relation "measure (\<lambda>(c, a, s). nat a)") auto

declare range_encode_equiprobable.simps [simp del]

text \<open>The search loop of \<^verbatim>\<open>range_decode_equiprobable\<close>: \<^verbatim>\<open>symbol\<close> is an int, \<^verbatim>\<open>s\<close> an unsigned int.\<close>

function decode_equiprobable_loop :: "range_coder \<Rightarrow> int \<Rightarrow> u32 \<Rightarrow> int \<Rightarrow> range_coder \<times> int option" where
  "decode_equiprobable_loop c alphabet_size s symbol =
     (if (word_of_int symbol :: u32) < s + 2 \<and> symbol < alphabet_size
      then let (p_low, p_high) = range_equiprobable_range alphabet_size symbol;
               (c', r) = range_decode_common c p_low p_high
           in if r = 0 then (c', Some symbol)
              else decode_equiprobable_loop c' alphabet_size s (symbol + 1)
      else (c, None))"
  by pat_completeness auto
termination
  by (relation "measure (\<lambda>(c, a, s, symbol). nat (a - symbol))") auto

declare decode_equiprobable_loop.simps [simp del]

text \<open>After a failure the same symbols are tried once more, for the log only; the effect of those
  calls on the coder remains.\<close>

function decode_equiprobable_report :: "range_coder \<Rightarrow> int \<Rightarrow> u32 \<Rightarrow> int \<Rightarrow> range_coder" where
  "decode_equiprobable_report c alphabet_size s symbol =
     (if (word_of_int symbol :: u32) < s + 2 \<and> symbol < alphabet_size
      then let (p_low, p_high) = range_equiprobable_range alphabet_size symbol;
               c' = fst (range_decode_common (c\<lparr>debug := True\<rparr>) p_low p_high)
           in decode_equiprobable_report c' alphabet_size s (symbol + 1)
      else c)"
  by pat_completeness auto
termination
  by (relation "measure (\<lambda>(c, a, s, symbol). nat (a - symbol))") auto

declare decode_equiprobable_report.simps [simp del]

function range_decode_equiprobable :: "range_coder \<Rightarrow> int \<Rightarrow> range_coder \<times> int" where
  "range_decode_equiprobable c alphabet_size =
     (if alphabet_size \<ge> 0x400000
      then let (c1, hi) = range_decode_equiprobable c (1 + alphabet_size div 0x10000);
               (c2, lo) = range_decode_equiprobable c1 0x10000
           in (c2, sint ((word_of_int lo :: u32) OR push_bit 16 (word_of_int hi)))
      else if alphabet_size < 1 then (c, 0)
      else let space = range_space c;
               v = ucast (cvalue c - low c) :: u64;
               s = ucast (v * word_of_int alphabet_size div space) :: u32;
               first = (if s \<noteq> 0 then sint (s - 1) else 0)
           in case decode_equiprobable_loop c alphabet_size s first of
                (c1, Some symbol) \<Rightarrow> (c1, symbol)
              | (c1, None) \<Rightarrow> (decode_equiprobable_report c1 alphabet_size s first, -1))"
  by pat_completeness auto
termination
  by (relation "measure (\<lambda>(c, a). nat a)") auto

declare range_decode_equiprobable.simps [simp del]

section \<open>Symbols of a cumulative frequency table\<close>

text \<open>\<open>None\<close> is the abort of a failing \<^verbatim>\<open>assert\<close>.\<close>

definition range_encode_symbol :: "range_coder \<Rightarrow> u32 list \<Rightarrow> int \<Rightarrow> int \<Rightarrow> (range_coder \<times> int) option" where
  "range_encode_symbol c frequencies alphabet_size symbol =
     (if errors c \<noteq> 0 then Some (c, -1)
      else if \<not> (0 \<le> symbol \<and> symbol < alphabet_size) then None
      else let p_low = (if symbol > 0 then frequencies ! nat (symbol - 1) else 0);
               p_high = (if symbol < alphabet_size - 1 then frequencies ! nat symbol else MAXVALUEPLUS1)
           in Some (range_encode c p_low p_high))"

definition symbol_boundary :: "range_coder \<Rightarrow> u32 \<Rightarrow> u32" where
  "symbol_boundary c f = ucast (ucast (low c) + drop_bit 24 (ucast f * range_space c))"

function decode_symbol_search :: "range_coder \<Rightarrow> u32 list \<Rightarrow> int \<Rightarrow> int \<Rightarrow> int" where
  "decode_symbol_search c frequencies alphabet_size s =
     (if s < alphabet_size - 1
      then if cvalue c < symbol_boundary c (frequencies ! nat s) then s
           else decode_symbol_search c frequencies alphabet_size (s + 1)
      else s)"
  by pat_completeness auto
termination
  by (relation "measure (\<lambda>(c, f, a, s). nat (a - s))") auto

declare decode_symbol_search.simps [simp del]

definition range_decode_symbol :: "range_coder \<Rightarrow> u32 list \<Rightarrow> int \<Rightarrow> range_coder \<times> int" where
  "range_decode_symbol c0 frequencies alphabet_size =
     (let c = c0\<lparr>decodingP := False\<rparr>;
          s = decode_symbol_search c frequencies alphabet_size 0;
          p_low = (if s > 0 then frequencies ! nat (s - 1) else 0);
          p_high = (if s < alphabet_size - 1 then frequencies ! nat s else MAXVALUEPLUS1);
          (c', r) = range_decode_common c p_low p_high
      in if r \<noteq> 0 then (c', -1) else (c', s))"

section \<open>Ending a stream\<close>

fun range_emit_list :: "range_coder \<Rightarrow> bool list \<Rightarrow> range_coder \<times> int" where
  "range_emit_list c [] = (c, 0)"
| "range_emit_list c (b # bs) =
     (let (c', r) = range_emitbit c b in if r \<noteq> 0 then (c', -1) else range_emit_list c' bs)"

text \<open>The search for the number of bits that pin down a value in the interval; \<open>None\<close> is
  \<^verbatim>\<open>Could not conclude coder\<close>.\<close>

function conclude_search :: "u32 \<Rightarrow> u32 \<Rightarrow> u32 \<Rightarrow> nat \<Rightarrow> u32 \<Rightarrow> u32 \<Rightarrow> nat option" where
  "conclude_search lo hi mean bits v m =
     (if v < lo \<or> v + m > hi
      then let bits' = bits + 1
           in if bits' \<ge> 32 then None
              else conclude_search lo hi mean bits'
                     (push_bit (32 - bits') (drop_bit (32 - bits') mean)) (drop_bit bits' 0xffffffff)
      else Some bits)"
  by pat_completeness auto
termination
  by (relation "measure (\<lambda>(l, h, m, bits, v, k). 32 - bits)") auto

declare conclude_search.simps [simp del]

definition range_conclude :: "range_coder \<Rightarrow> range_coder \<times> int" where
  "range_conclude c =
     (let mean = (high c - low c) div 2 + low c;
          msb = bit mean 31;
          (c1, r1) = range_emitbit c msb
      in if r1 \<noteq> 0 then (c1, -1)
         else let (c2, r2) = range_emit_underflow True c1 (\<not> msb)
              in if r2 \<noteq> 0 then (c2, -1)
                 else let c3 = c2\<lparr>low := push_bit 1 (low c2) AND 0x7fffffff,
                                  high := push_bit 1 (high c2) OR 0x80000001\<rparr>;
                          mean = (high c3 - low c3) div 2 + low c3
                      in case conclude_search (low c3) (high c3) mean 0 0 0xffffffff of
                           None \<Rightarrow> (c3, -1)
                         | Some bits \<Rightarrow>
                             (let v = push_bit (32 - bits) (drop_bit (32 - bits) mean) OR drop_bit bits 0xffffffff;
                                  c4 = (if debug c3 then c3\<lparr>cvalue := 0\<rparr> else c3)
                              in range_emit_list c4 (map (\<lambda>i. bit v (31 - i)) [0..<bits])))"

section \<open>Other operations\<close>

text \<open>A unary length prefix. The C code shifts a 32-bit 1, so the loop is this one for lengths up
  to \<open>2 ^ 30\<close>.\<close>

function encode_length_prefix :: "range_coder \<Rightarrow> int \<Rightarrow> nat \<Rightarrow> range_coder \<times> nat" where
  "encode_length_prefix c len bits =
     (if 2 ^ bits < len
      then encode_length_prefix (fst (range_encode_equiprobable c 2 1)) len (bits + 1)
      else (c, bits))"
  by pat_completeness auto
termination
proof (relation "measure (\<lambda>(c, len, bits). nat (len - 2 ^ bits))")
  fix c :: range_coder and len :: int and bits :: nat
  assume "2 ^ bits < len"
  then have "len - 2 ^ (bits + 1) < len - 2 ^ bits" by simp
  with \<open>2 ^ bits < len\<close> show "((fst (range_encode_equiprobable c 2 1), len, bits + 1), c, len, bits)
      \<in> measure (\<lambda>(c, len, bits). nat (len - 2 ^ bits))" by simp
qed simp

declare encode_length_prefix.simps [simp del]

definition range_encode_length :: "range_coder \<Rightarrow> int \<Rightarrow> range_coder" where
  "range_encode_length c len =
     (let (c1, bits) = encode_length_prefix c len 0;
          c2 = fst (range_encode_equiprobable c1 2 0)
      in fold (\<lambda>i c. fst (range_encode_equiprobable c 2 (drop_bit i len AND 1))) (rev [0..<bits]) c2)"

fun range_emitbits :: "range_coder \<Rightarrow> nat \<Rightarrow> range_coder \<times> int" where
  "range_emitbits c 0 = (c, 0)"
| "range_emitbits c (Suc n) =
     (let (c', r) = range_emitbit c (bit (low c) 31)
      in if r \<noteq> 0 then (c', -1)
         else range_emitbits (c'\<lparr>low := push_bit 1 (low c'), high := push_bit 1 (high c') OR 1\<rparr>) n)"

text \<open>Undoing \<open>underflow_bits\<close> rescalings of a value.\<close>

definition range_unrescale_value :: "u32 \<Rightarrow> nat \<Rightarrow> u32" where
  "range_unrescale_value v underflow_bits =
     (let msb = v AND 0x80000000;
          out = msb OR drop_bit underflow_bits (v AND 0x7fffffff)
      in if msb = 0 then fold (\<lambda>i out. out OR drop_bit i 0x40000000) [0..<underflow_bits] out else out)"

definition range_unrescale :: "range_coder \<Rightarrow> range_coder" where
  "range_unrescale c =
     (if underflow c \<noteq> 0
      then let u = nat (underflow c)
           in c\<lparr>low := range_unrescale_value (low c) u, cvalue := range_unrescale_value (cvalue c) u,
                high := range_unrescale_value (high c) u, underflow := 0\<rparr>
      else c)"

definition asbits :: "u32 \<Rightarrow> string" where
  "asbits v = map (\<lambda>i. if bit v (31 - i) then CHR ''1'' else CHR ''0'') [0..<32]"

definition range_coder_lastbits :: "range_coder \<Rightarrow> nat \<Rightarrow> string" where
  "range_coder_lastbits c count0 =
     (let count = (if count0 > bits_used c then bits_used c else count0);
          count = (if count > 8192 then 8192 else count)
      in map (\<lambda>i. if bit (bit_stream c ! (i div 8)) (7 - i mod 8) then CHR ''1'' else CHR ''0'')
           [bits_used c - count..<bits_used c])"

text \<open>\<open>None\<close> is the null pointer; the tail of the copied buffer is fresh memory.\<close>

definition range_coder_dup :: "(nat \<Rightarrow> u8) \<Rightarrow> range_coder \<Rightarrow> range_coder option" where
  "range_coder_dup junk c =
     (if bits_used c > bit_stream_length c then None
      else let n = bits2bytes (bits_used c)
           in Some (c\<lparr>bit_stream := take n (bit_stream c)
                        @ map junk [n..<bits2bytes (bit_stream_length c)]\<rparr>))"

end
