(* ===== verification/RangeCodec.thy ===== *)
theory RangeCodec
  imports Arithmetic
begin

text \<open>
  Correctness of the range coder: what an encoder state denotes, that every encoding step narrows
  the set of bit streams a state stands for, that a decoder reading such a stream follows the
  encoder state by state, and that the bits written by \<^const>\<open>range_conclude\<close> select a stream of the
  final state whatever is appended to them.
\<close>

section \<open>Writing bits\<close>

text \<open>Well-formed buffers: the stream fits in the buffer, its length fits the C types, and the unused
  bits of a started byte are 0.\<close>

definition wf_buf :: "range_coder \<Rightarrow> bool" where
  "wf_buf c \<longleftrightarrow> bit_stream_length c \<le> 8 * length (bit_stream c) \<and> bit_stream_length c < 2 ^ 31 \<and>
     bits_used c \<le> bit_stream_length c \<and>
     (bits_used c mod 8 \<noteq> 0 \<longrightarrow>
        (\<forall>j. bits_used c \<le> j \<and> j div 8 = bits_used c div 8 \<longrightarrow> \<not> stream_bit (bit_stream c) j))"

definition emitted :: "range_coder \<Rightarrow> nat" where
  "emitted c = pre_val (stream_bit (bit_stream c)) (bits_used c)"

lemma emit_stream_bit:
  assumes "wf_buf c" "bits_used c < bit_stream_length c" "range_emitbit c b = (c', r)"
  shows "stream_bit (bit_stream c') j =
     (if j = bits_used c then b
      else if j div 8 = bits_used c div 8 \<and> bits_used c mod 8 = 0 then False
      else stream_bit (bit_stream c) j)"
proof (cases "j div 8 = bits_used c div 8")
  case True
  let ?n = "bits_used c" and ?i = "bits_used c div 8" and ?k = "7 - bits_used c mod 8"
  have len: "?i < length (bit_stream c)" using assms(1,2) by (auto simp: wf_buf_def)
  define old where "old = (if ?n mod 8 = 0 then 0 else bit_stream c ! ?i)"
  have k7: "?k = 7 \<longleftrightarrow> ?n mod 8 = 0" by auto
  have new: "bit_stream c' ! ?i = (if b then old OR push_bit ?k 1 else old)"
    using assms(2,3) len k7 by (auto simp: range_emitbit_def Let_def old_def split: if_splits)
  have pos: "bit (push_bit ?k 1 :: u8) (7 - j mod 8) \<longleftrightarrow> j = ?n"
    using bit_position_eq_iff [OF True] by (auto simp: bit_simps)
  have clear: "\<not> stream_bit (bit_stream c) j" if "?n \<le> j" "?n mod 8 \<noteq> 0"
    using assms(1) that True by (auto simp: wf_buf_def)
  show ?thesis
    using True pos clear by (auto simp: stream_bit_def new bit_or_iff old_def)
next
  case False
  with assms(2,3) show ?thesis
    by (auto simp: range_emitbit_def Let_def stream_bit_def split: if_splits)
qed

lemma range_emitbit_ok:
  assumes "wf_buf c" "bits_used c < bit_stream_length c"
  shows "\<exists>c'. range_emitbit c b = (c', 0) \<and> wf_buf c' \<and> bits_used c' = Suc (bits_used c) \<and>
    emitted c' = 2 * emitted c + of_bool b \<and> regs c' = regs c \<and> underflow c' = underflow c \<and>
    (\<forall>j < bits_used c. stream_bit (bit_stream c') j = stream_bit (bit_stream c) j)"
proof -
  define c' where "c' = fst (range_emitbit c b)"
  have eq: "range_emitbit c b = (c', 0)" and used: "bits_used c' = Suc (bits_used c)"
    and len: "length (bit_stream c') = length (bit_stream c)"
    using assms(2) by (auto simp: c'_def range_emitbit_def Let_def)
  note bits = emit_stream_bit [OF assms eq]
  have same: "stream_bit (bit_stream c') j = stream_bit (bit_stream c) j" if "j < bits_used c" for j
  proof -
    have "\<not> (j div 8 = bits_used c div 8 \<and> bits_used c mod 8 = 0)"
      using that div_mult_mod_eq [of j 8] div_mult_mod_eq [of "bits_used c" 8] by linarith
    with that show ?thesis by (auto simp: bits)
  qed
  have regs: "regs c' = regs c" "underflow c' = underflow c"
    unfolding c'_def by simp_all
  have "wf_buf c'"
    unfolding wf_buf_def
  proof (intro conjI impI allI)
    fix j assume j: "bits_used c' mod 8 \<noteq> 0" "bits_used c' \<le> j \<and> j div 8 = bits_used c' div 8"
    then have d: "j div 8 = bits_used c div 8" "bits_used c < j" "bits_used c mod 8 \<noteq> 7"
      using used by (auto simp: div_Suc mod_Suc split: if_splits)
    with assms(1) show "\<not> stream_bit (bit_stream c') j" by (auto simp: bits wf_buf_def)
  qed (use assms regs used len in \<open>auto simp: wf_buf_def regs_eq_iff\<close>)
  moreover have "emitted c' = 2 * emitted c + of_bool b"
    using pre_val_cong [OF same] bits [of "bits_used c"] by (simp add: emitted_def used)
  ultimately show ?thesis using eq used same regs by auto
qed

lemma range_emitbit_fail:
  "\<not> bits_used c < bit_stream_length c \<Longrightarrow> range_emitbit c b = (c, -1)"
  by (simp add: range_emitbit_def)

lemma range_emit_underflow_ok:
  assumes "wf_buf c" "0 \<le> underflow c" "bits_used c + nat (underflow c) \<le> bit_stream_length c"
  shows "\<exists>c'. range_emit_underflow True c u = (c', 0) \<and> wf_buf c' \<and> underflow c' = -1 \<and>
     bits_used c' = bits_used c + nat (underflow c) \<and> regs c' = regs c \<and>
     emitted c' = emitted c * 2 ^ nat (underflow c) + (if u then 2 ^ nat (underflow c) - 1 else 0) \<and>
     (\<forall>j < bits_used c. stream_bit (bit_stream c') j = stream_bit (bit_stream c) j)"
  using assms
proof (induction "nat (underflow c)" arbitrary: c)
  case 0
  then have "range_emit_underflow True c u = (c\<lparr>underflow := -1\<rparr>, 0)"
    by (subst range_emit_underflow.simps) (simp add: Let_def)
  with 0 show ?case by (auto simp: wf_buf_def emitted_def)
next
  case (Suc n)
  let ?c1 = "c\<lparr>underflow := underflow c - 1\<rparr>"
  have wf1: "wf_buf ?c1" "bits_used ?c1 < bit_stream_length ?c1"
    using Suc.prems Suc.hyps(2) by (auto simp: wf_buf_def)
  obtain c2 where c2: "range_emitbit ?c1 u = (c2, 0)" "wf_buf c2" "bits_used c2 = Suc (bits_used ?c1)"
    "emitted c2 = 2 * emitted ?c1 + of_bool u" "regs c2 = regs ?c1" "underflow c2 = underflow ?c1"
    "\<forall>j < bits_used ?c1. stream_bit (bit_stream c2) j = stream_bit (bit_stream ?c1) j"
    using range_emitbit_ok [OF wf1, of u] by blast
  have n: "n = nat (underflow c2)" "0 \<le> underflow c2"
    "bits_used c2 + nat (underflow c2) \<le> bit_stream_length c2"
    using Suc.hyps(2) Suc.prems c2 by (auto simp: regs_eq_iff)
  have "0 < underflow c" using Suc.hyps(2) by linarith
  then have step: "range_emit_underflow True c u = range_emit_underflow True c2 u"
    using c2(1) by (subst range_emit_underflow.simps) (simp add: Let_def)
  obtain c' where c': "range_emit_underflow True c2 u = (c', 0)" "wf_buf c'" "underflow c' = -1"
    "bits_used c' = bits_used c2 + n" "regs c' = regs c2"
    "emitted c' = emitted c2 * 2 ^ n + (if u then 2 ^ n - 1 else 0)"
    "\<forall>j < bits_used c2. stream_bit (bit_stream c') j = stream_bit (bit_stream c2) j"
    using Suc.hyps(1) [OF n(1) c2(2) n(2,3)] n(1) by auto
  have un: "nat (underflow c) = Suc n" using Suc.hyps(2) by simp
  obtain m where m: "(2::nat) ^ n = Suc m" by (cases "(2::nat) ^ n") auto
  have "emitted c' = emitted c * 2 ^ Suc n + (if u then 2 ^ Suc n - 1 else 0)"
    using c'(6) c2(4) m by (auto simp: emitted_def algebra_simps)
  with c' c2 step un show ?case by auto
qed

text \<open>A failing write leaves a full stream behind.\<close>

lemma range_emit_underflow_total:
  "fst (range_emit_underflow True c u) = c' \<Longrightarrow>
     (snd (range_emit_underflow True c u) = 0 \<longrightarrow>
        bits_used c' = bits_used c + nat (underflow c) \<and> underflow c' \<le> 0) \<and>
     (snd (range_emit_underflow True c u) \<noteq> 0 \<longrightarrow> bit_stream_length c' \<le> bits_used c')"
proof (induction "nat (underflow c)" arbitrary: c)
  case 0
  then show ?case by (subst (asm) range_emit_underflow.simps, subst range_emit_underflow.simps) (auto simp: Let_def)
next
  case (Suc n)
  let ?c1 = "c\<lparr>underflow := underflow c - 1\<rparr>"
  have pos: "0 < underflow c" using Suc.hyps(2) by linarith
  show ?case
  proof (cases "bits_used c < bit_stream_length c")
    case True
    obtain c2 where c2: "range_emitbit ?c1 u = (c2, 0)" "bits_used c2 = Suc (bits_used c)"
      "underflow c2 = underflow c - 1"
      using True by (auto simp: range_emitbit_def Let_def)
    have step: "range_emit_underflow True c u = range_emit_underflow True c2 u"
      using pos c2(1) by (subst range_emit_underflow.simps) (simp add: Let_def)
    have "n = nat (underflow c2)" using c2(3) Suc.hyps(2) by simp
    from Suc.hyps(1) [OF this] Suc.prems Suc.hyps(2) c2 step show ?thesis by auto
  next
    case False
    then have "range_emit_underflow True c u = (?c1, -1)"
      using pos by (subst range_emit_underflow.simps) (simp add: Let_def range_emitbit_fail)
    with False Suc.prems show ?thesis by auto
  qed
qed

section \<open>What an encoder state stands for\<close>

text \<open>After \<open>n\<close> emitted bits and \<open>u\<close> pending underflow bits, position \<open>x\<close> of the 32-bit window
  stands for the \<open>n + u + 32\<close> bit number \<open>enc_base c + x\<close>.\<close>

definition enc_pos :: "range_coder \<Rightarrow> nat" where
  "enc_pos c = bits_used c + nat (underflow c)"

definition enc_base :: "range_coder \<Rightarrow> nat" where
  "enc_base c = emitted c * 2 ^ (32 + nat (underflow c)) + (2 ^ nat (underflow c) - 1) * 2 ^ 31"

text \<open>The streams of a state: those whose leading bits lie in its interval.\<close>

definition code_in :: "(nat \<Rightarrow> bool) \<Rightarrow> range_coder \<Rightarrow> bool" where
  "code_in X c \<longleftrightarrow> enc_base c + unat (low c) \<le> pre_val X (enc_pos c + 32) \<and>
     pre_val X (enc_pos c + 32) \<le> enc_base c + unat (high c)"

text \<open>There is room for the pending bits and one more.\<close>

definition room :: "range_coder \<Rightarrow> bool" where
  "room c \<longleftrightarrow> enc_pos c < bit_stream_length c"

definition enc_core :: "range_coder \<Rightarrow> bool" where
  "enc_core c \<longleftrightarrow> wf_buf c \<and> \<not> decodingP c \<and> \<not> norescale c \<and> errors c = 0 \<and> 0 \<le> underflow c"

definition normalised :: "u32 \<Rightarrow> u32 \<Rightarrow> bool" where
  "normalised l h \<longleftrightarrow> unat l < 2 ^ 31 \<and> 2 ^ 31 \<le> unat h \<and> \<not> (2 ^ 30 \<le> unat l \<and> unat h < 3 * 2 ^ 30)"

definition enc_inv :: "range_coder \<Rightarrow> bool" where
  "enc_inv c \<longleftrightarrow> enc_core c \<and> normalised (low c) (high c)"

text \<open>Doubling the resolution does not change the set of streams.\<close>

lemma code_in_double:
  assumes "enc_pos c' = Suc (enc_pos c)"
    and "enc_base c' + unat (low c') = 2 * (enc_base c + unat (low c))"
    and "enc_base c' + unat (high c') = 2 * (enc_base c + unat (high c)) + 1"
  shows "code_in X c' \<longleftrightarrow> code_in X c"
  unfolding code_in_def assms using pre_val_Suc_bounds [of X "enc_pos c + 32"] by auto

section \<open>The encoder's normalisation keeps the streams of a state\<close>

lemma same_top_bit_iff:
  "\<not> bit (low c XOR high c) 31 \<longleftrightarrow> (2147483648 \<le> unat (low c) \<longleftrightarrow> 2147483648 \<le> unat (high c))"
  unfolding bit_31_iff [symmetric] bit_xor_iff by blast

lemma unat_shift_out:
  "unat (push_bit 1 (w :: u32)) = 2 * unat w - (if 2147483648 \<le> unat w then 4294967296 else 0)"
proof -
  have "2 * unat w - 4294967296 < 4294967296" using unat_lt_32 [of w] by linarith
  then show ?thesis by (simp only: unat_push_bit_1) (auto simp: le_mod_geq)
qed

lemma unat_shift_out_1:
  "unat (push_bit 1 (w :: u32) OR 1) = 2 * unat w + 1 - (if 2147483648 \<le> unat w then 4294967296 else 0)"
  using unat_shift_out [of w] unat_lt_32 [of w]
  by (simp only: unat_push_bit_1_or_1 unat_push_bit_1 [symmetric]) auto

lemma shifted_base:
  assumes "E' = (2 * E + of_bool b) * 2 ^ u + (if b then 0 else 2 ^ u - 1)"
  shows "E' * 2 ^ 32 = 2 * (E * 2 ^ (32 + u) + (2 ^ u - 1) * 2 ^ 31) + (if b then 2 ^ 32 else 0 :: nat)"
proof -
  obtain m where "(2::nat) ^ u = Suc m" by (cases "(2::nat) ^ u") auto
  with assms show ?thesis by (auto simp: power_add algebra_simps)
qed

lemma enc_stable_step_ok:
  assumes core: "enc_core c" and top: "\<not> bit (low c XOR high c) 31" and room: "room c"
  obtains c' where "range_emit_stable_step c = (c', 0)" "enc_core c'" "underflow c' = 0"
    "enc_pos c' = Suc (enc_pos c)" "\<And>X. code_in X c' \<longleftrightarrow> code_in X c"
    "low c' = push_bit 1 (low c)" "high c' = push_bit 1 (high c) OR 1"
    "enc_base c' = 2 * enc_base c + (if bit (low c) 31 then 4294967296 else 0)"
proof -
  let ?b = "bit (low c) 31" and ?u = "nat (underflow c)"
  have wf: "wf_buf c" "bits_used c < bit_stream_length c" "0 \<le> underflow c"
    using core room by (auto simp: enc_core_def room_def enc_pos_def)
  obtain c1 where c1: "range_emitbit c ?b = (c1, 0)" "wf_buf c1" "bits_used c1 = Suc (bits_used c)"
    "emitted c1 = 2 * emitted c + of_bool ?b" "regs c1 = regs c" "underflow c1 = underflow c"
    using range_emitbit_ok [OF wf(1,2), of ?b] by blast
  have "bits_used c1 + nat (underflow c1) \<le> bit_stream_length c1"
    using c1 room by (auto simp: room_def enc_pos_def regs_eq_iff)
  with c1 wf(3) obtain c2' where c2': "range_emit_underflow True c1 (\<not> ?b) = (c2', 0)" "wf_buf c2'"
    "bits_used c2' = bits_used c1 + ?u" "regs c2' = regs c1"
    "emitted c2' = emitted c1 * 2 ^ ?u + (if \<not> ?b then 2 ^ ?u - 1 else 0)"
    using range_emit_underflow_ok [of c1 "\<not> ?b"] by auto
  define c2 where "c2 = (if underflow c = 0 then c1 else c2'\<lparr>underflow := 0\<rparr>)"
  have c2: "wf_buf c2" "bits_used c2 = Suc (enc_pos c)" "regs c2 = regs c" "underflow c2 = 0"
    "emitted c2 = (2 * emitted c + of_bool ?b) * 2 ^ ?u + (if ?b then 0 else 2 ^ ?u - 1)"
    using c1 c2' wf(3) by (auto simp: c2_def enc_pos_def wf_buf_def emitted_def)
  define c' where "c' = c2\<lparr>low := push_bit 1 (low c2), high := push_bit 1 (high c2) OR 1\<rparr>"
  have eq: "range_emit_stable_step c = (c', 0)"
    using core c1(1,5,6) c2'(1,4) wf(3)
    by (auto simp: range_emit_stable_step_def Let_def c'_def c2_def enc_core_def regs_eq_iff
        simp del: push_bit_Suc)
  have lh: "low c' = push_bit 1 (low c)" "high c' = push_bit 1 (high c) OR 1"
    using c2(3) by (auto simp: c'_def regs_eq_iff)
  have pos: "enc_pos c' = Suc (enc_pos c)" and u0: "underflow c' = 0"
    using c2 by (simp_all add: enc_pos_def c'_def)
  have base: "enc_base c' = 2 * enc_base c + (if ?b then 4294967296 else 0)"
    using shifted_base [OF c2(5)] by (simp add: enc_base_def u0 c'_def c2(4) emitted_def)
  have tops: "?b \<longleftrightarrow> 2147483648 \<le> unat (low c)" "?b \<longleftrightarrow> 2147483648 \<le> unat (high c)"
    using iffD1 [OF same_top_bit_iff top] by (simp_all only: bit_31_iff)
  have "enc_base c' + unat (low c') = 2 * (enc_base c + unat (low c))"
    "enc_base c' + unat (high c') = 2 * (enc_base c + unat (high c)) + 1"
    using base tops unfolding lh unat_shift_out unat_shift_out_1 by (cases ?b; simp)+
  then have "code_in X c' \<longleftrightarrow> code_in X c" for X by (intro code_in_double pos)
  moreover have "enc_core c'"
    using c2 core u0 by (auto simp: enc_core_def c'_def wf_buf_def regs_eq_iff)
  ultimately show ?thesis using that eq pos lh u0 base by blast
qed

text \<open>Whatever the outcome, encoding never makes room: the stream only fills up.\<close>

definition enc_mono :: "range_coder \<Rightarrow> range_coder \<Rightarrow> bool" where
  "enc_mono c c' \<longleftrightarrow> (\<not> decodingP c \<longrightarrow> \<not> decodingP c' \<and> (room c' \<longrightarrow> room c))"

lemma enc_mono_refl [simp]: "enc_mono c c"
  by (simp add: enc_mono_def)

lemma enc_mono_trans: "enc_mono c c' \<Longrightarrow> enc_mono c' c'' \<Longrightarrow> enc_mono c c''"
  by (auto simp: enc_mono_def)

lemma enc_mono_stable_step: "enc_mono c (fst (range_emit_stable_step c))"
proof (cases "decodingP c")
  case False
  let ?b = "bit (low c) 31"
  show ?thesis
  proof (cases "bits_used c < bit_stream_length c")
    case True
    obtain c1 where c1: "range_emitbit c ?b = (c1, 0)" "bits_used c1 = Suc (bits_used c)" "regs c1 = regs c"
      "underflow c1 = underflow c"
      using True by (auto simp: range_emitbit_def Let_def regs_def)
    obtain c2 r2 where c2: "range_emit_underflow True c1 (\<not> ?b) = (c2, r2)" by fastforce
    have regs2: "regs c2 = regs c" using range_emit_underflow_regsD [OF c2] c1(3) by simp
    from range_emit_underflow_total [of c1 "\<not> ?b" c2] c1 c2 False regs2 show ?thesis
      by (auto simp: enc_mono_def range_emit_stable_step_def Let_def room_def enc_pos_def regs_eq_iff
          simp del: push_bit_Suc split: if_splits)
  next
    case False
    with \<open>\<not> decodingP c\<close> show ?thesis
      by (simp add: range_emit_stable_step_def range_emitbit_fail Let_def)
  qed
qed (simp add: enc_mono_def)

lemma enc_mono_stable_loop: "enc_mono c (fst (range_emit_stable_loop c))"
proof (induction c rule: range_emit_stable_loop.induct)
  case (1 c)
  obtain c' r where s: "range_emit_stable_step c = (c', r)" by fastforce
  have "enc_mono c c'" using enc_mono_stable_step [of c] s by simp
  with 1 s show ?case
    by (subst range_emit_stable_loop.simps) (auto intro: enc_mono_trans)
qed

lemma enc_mono_rescale_step: "enc_mono c (fst (range_rescale_step c))"
  by (auto simp: enc_mono_def range_rescale_step_def Let_def room_def enc_pos_def)

lemma enc_mono_rescale: "enc_mono c (fst (range_rescale c))"
proof (induction c rule: range_rescale.induct)
  case (1 c)
  obtain c' r where s: "range_rescale_step c = (c', r)" by fastforce
  have "enc_mono c c'" using enc_mono_rescale_step [of c] s by simp
  with 1 s show ?case
    by (subst range_rescale.simps) (auto intro: enc_mono_trans)
qed

lemma enc_mono_stable_bits: "enc_mono c (fst (range_emit_stable_bits c))"
proof -
  obtain c' r where s: "range_emit_stable_loop c = (c', r)" by fastforce
  have "enc_mono c c'" using enc_mono_stable_loop [of c] s by simp
  with s enc_mono_rescale [of c'] show ?thesis
    by (auto simp: range_emit_stable_bits_def intro: enc_mono_trans)
qed

lemma range_calc_new_range_frame:
  "range_calc_new_range c p q = (c', x) \<Longrightarrow> c' = c \<or> c' = c\<lparr>errors := errors c + 1\<rparr>"
  by (auto simp: range_calc_new_range_def Let_def split: if_splits)

lemma enc_mono_errors [simp]: "enc_mono c (c\<lparr>errors := e\<rparr>)" "enc_mono c (c\<lparr>low := l, high := h\<rparr>)"
  by (auto simp: enc_mono_def room_def enc_pos_def)

lemma enc_mono_range_encode: "enc_mono c (fst (range_encode c p q))"
proof -
  obtain c1 x where calc: "range_calc_new_range c p q = (c1, x)" by fastforce
  have c1: "enc_mono c c1" using range_calc_new_range_frame [OF calc] by auto
  have lh: "enc_mono c (c1\<lparr>low := l, high := h\<rparr>)" for l h using c1 enc_mono_errors(2) by (rule enc_mono_trans)
  have "enc_mono c (fst (range_emit_stable_bits (c1\<lparr>low := l, high := h\<rparr>)))" for l h
    using lh enc_mono_stable_bits by (rule enc_mono_trans)
  with c1 lh calc show ?thesis
    by (auto simp: range_encode_def Let_def split: option.split prod.split) (metis fst_conv)+
qed

lemma shift_keeps_order:
  assumes "low c < high c" "\<not> bit (low c XOR high c) 31"
  shows "push_bit 1 (low c) < push_bit 1 (high c) OR 1"
  using assms(1) iffD1 [OF same_top_bit_iff assms(2)]
  unfolding word_less_nat_alt unat_shift_out unat_shift_out_1 by auto

lemma top_bits_apart:
  assumes "low c < high c" "bit (low c XOR high c) 31"
  shows "unat (low c) < 2147483648 \<and> 2147483648 \<le> unat (high c)"
  using assms same_top_bit_iff [of c] unfolding word_less_nat_alt by linarith

lemma enc_stable_loop_ok:
  assumes "enc_core c" "room (fst (range_emit_stable_loop c))" "low c < high c"
  shows "\<exists>c'. range_emit_stable_loop c = (c', 0) \<and> enc_core c' \<and>
     (\<forall>X. code_in X c' \<longleftrightarrow> code_in X c) \<and> unat (low c') < 2147483648 \<and> 2147483648 \<le> unat (high c')"
  using assms
proof (induction c rule: range_emit_stable_loop.induct)
  case (1 c)
  show ?case
  proof (cases "bit (low c XOR high c) 31")
    case True
    with "1.prems" top_bits_apart [OF "1.prems"(3) True] show ?thesis
      by (subst range_emit_stable_loop.simps) simp
  next
    case False
    have "room c" using "1.prems" enc_mono_stable_loop [of c] by (auto simp: enc_mono_def enc_core_def)
    from enc_stable_step_ok [OF "1.prems"(1) False this] obtain c' where
      c': "range_emit_stable_step c = (c', 0)" "enc_core c'" "\<And>X. code_in X c' \<longleftrightarrow> code_in X c"
      "low c' = push_bit 1 (low c)" "high c' = push_bit 1 (high c) OR 1" by blast
    have loop: "range_emit_stable_loop c = range_emit_stable_loop c'"
      using False c'(1) by (subst range_emit_stable_loop.simps) simp
    have "low c' < high c'" using shift_keeps_order [OF "1.prems"(3) False] by (simp only: c'(4,5))
    with "1.IH" [OF False c'(1) [symmetric]] c' "1.prems" loop show ?thesis by auto
  qed
qed

lemma enc_rescale_step_ok:
  assumes core: "enc_core c" and pos: "underflow_position c"
  obtains c' where "range_rescale_step c = (c', 0)" "enc_core c'" "enc_pos c' = Suc (enc_pos c)"
    "\<And>X. code_in X c' \<longleftrightarrow> code_in X c" "enc_base c' = 2 * enc_base c + 2147483648"
proof -
  obtain c' r where s: "range_rescale_step c = (c', r)" by fastforce
  note range = range_rescale_step_range [OF s pos]
  from s range(1) core have fields: "wf_buf c'" "enc_core c'" "underflow c' = underflow c + 1"
    "bits_used c' = bits_used c" "emitted c' = emitted c"
    by (auto simp: range_rescale_step_def Let_def enc_core_def wf_buf_def emitted_def split: if_splits)
  have u: "nat (underflow c + 1) = Suc (nat (underflow c))" using core by (auto simp: enc_core_def)
  have pos': "enc_pos c' = Suc (enc_pos c)" using fields u by (simp add: enc_pos_def)
  obtain m where m: "(2::nat) ^ nat (underflow c) = Suc m" by (cases "(2::nat) ^ nat (underflow c)") auto
  have base: "enc_base c' = 2 * enc_base c + 2147483648"
    unfolding enc_base_def fields u power_add power_Suc m by (simp add: algebra_simps)
  have "code_in X c' \<longleftrightarrow> code_in X c" for X
    using pos by (intro code_in_double pos') (auto simp: base range underflow_position_iff)
  with that s range(1) fields pos' base show ?thesis by blast
qed

lemma enc_rescale_ok:
  assumes "enc_core c" "unat (low c) < 2147483648" "2147483648 \<le> unat (high c)"
  shows "\<exists>c'. range_rescale c = (c', 0) \<and> enc_core c' \<and> (\<forall>X. code_in X c' \<longleftrightarrow> code_in X c) \<and>
     normalised (low c') (high c')"
  using assms
proof (induction c rule: range_rescale.induct)
  case (1 c)
  show ?case
  proof (cases "underflow_position c")
    case False
    with "1.prems" show ?thesis
      by (subst range_rescale.simps) (auto simp: normalised_def underflow_position_iff)
  next
    case True
    from enc_rescale_step_ok [OF "1.prems"(1) True] obtain c' where
      c': "range_rescale_step c = (c', 0)" "enc_core c'" "\<And>X. code_in X c' \<longleftrightarrow> code_in X c" by blast
    have "unat (low c') < 2147483648" "2147483648 \<le> unat (high c')"
      using range_rescale_step_range [OF c'(1) True] True by (auto simp: underflow_position_iff)
    with "1.IH" [OF True c'(1) [symmetric]] c' True show ?thesis
      by (subst range_rescale.simps) auto
  qed
qed

lemma enc_stable_bits_ok:
  assumes "enc_core c" "low c < high c" "room (fst (range_emit_stable_bits c))"
  shows "\<exists>c'. range_emit_stable_bits c = (c', 0) \<and> enc_inv c' \<and> (\<forall>X. code_in X c' \<longleftrightarrow> code_in X c)"
proof -
  obtain c1 r1 where loop: "range_emit_stable_loop c = (c1, r1)" by fastforce
  have "room c1" using assms(3) loop enc_mono_rescale [of c1] enc_mono_stable_loop [of c] assms(1)
    by (auto simp: range_emit_stable_bits_def enc_mono_def enc_core_def split: if_splits)
  with enc_stable_loop_ok [OF assms(1) _ assms(2)] loop have c1: "r1 = 0" "enc_core c1"
    "\<forall>X. code_in X c1 \<longleftrightarrow> code_in X c" "unat (low c1) < 2147483648" "2147483648 \<le> unat (high c1)" by auto
  from enc_rescale_ok [OF c1(2,4,5)] c1 loop show ?thesis
    by (auto simp: range_emit_stable_bits_def enc_inv_def enc_core_def)
qed

section \<open>The sub-interval of a symbol\<close>

lemma unat_ucast_64 [simp]: "unat (ucast (w :: u32) :: u64) = unat w"
proof -
  have "unat w < 2 ^ 64" by (rule less_trans [OF unat_lt_32]) simp
  then show ?thesis by (simp only: unsigned_ucast_eq) (simp add: take_bit_eq_mod)
qed

lemma unat_ucast_32: "unat (ucast (w :: u64) :: u32) = unat w mod 4294967296"
  by (simp only: unsigned_ucast_eq take_bit_eq_mod) simp

lemma unat_range_space:
  assumes "low c \<le> high c"
  shows "unat (range_space c) = (unat (high c) - unat (low c)) div 256 * 256"
proof -
  define d where "d = (ucast (high c) - ucast (low c) :: u64)"
  have le: "(ucast (low c) :: u64) \<le> ucast (high c)" using assms by (simp add: word_le_nat_alt)
  have d: "unat d = unat (high c) - unat (low c)"
    unfolding d_def using unat_sub [OF le] by simp
  have m: "(0xffffff00 :: u64) = push_bit 8 (mask 24)" by (simp add: mask_eq_decr_exp push_bit_eq_mult)
  have "d AND 0xffffff00 = push_bit 8 (take_bit 24 (drop_bit 8 d))"
    unfolding m by (rule bit_word_eqI) (simp only: bit_simps, auto)
  then have "unat (range_space c) = unat (push_bit 8 (take_bit 24 (drop_bit 8 d)))"
    by (simp only: range_space_def d_def)
  also have "\<dots> = take_bit 64 (push_bit 8 (take_bit 24 (unat d div 2 ^ 8)))"
    by (simp only: unsigned_push_bit_eq unsigned_take_bit_eq unat_drop_bit_nat) simp
  also have "\<dots> = (unat d div 256) mod 16777216 * 256"
    by (simp add: take_bit_eq_mod push_bit_eq_mult)
  also have "\<dots> = unat d div 256 * 256"
  proof -
    have "unat d div 256 < 16777216" using unat_lt_32 [of "high c"] unfolding d by linarith
    then show ?thesis by simp
  qed
  finally show ?thesis by (simp only: d)
qed

lemma normalised_order: "normalised l h \<Longrightarrow> l < h"
  by (auto simp: normalised_def word_less_nat_alt)

lemma normalised_space:
  assumes "normalised (low c) (high c)"
  shows "2 ^ 30 \<le> unat (range_space c)" "unat (low c) + unat (range_space c) \<le> unat (high c)"
    "unat (range_space c) < 2 ^ 32"
proof -
  let ?d = "unat (high c) - unat (low c)"
  have s: "unat (range_space c) = ?d div 256 * 256"
    using unat_range_space normalised_order [OF assms] by (simp add: order_less_imp_le)
  have d: "1073741824 \<le> ?d" "unat (low c) < unat (high c)"
    using assms by (auto simp: normalised_def)
  then have "4194304 \<le> ?d div 256" by linarith
  then show "2 ^ 30 \<le> unat (range_space c)" by (simp add: s)
  have "?d div 256 * 256 \<le> ?d" by simp
  with d show "unat (low c) + unat (range_space c) \<le> unat (high c)" by (simp only: s)
  with unat_lt_32 [of "high c"] have "unat (range_space c) < 4294967296" by linarith
  then show "unat (range_space c) < 2 ^ 32" by simp
qed

lemma unat_symbol_boundary:
  assumes n: "normalised (low c) (high c)" and f: "unat f \<le> 2 ^ 24"
  shows "unat (symbol_boundary c f) = unat (low c) + unat f * unat (range_space c) div 2 ^ 24"
    and "unat (symbol_boundary c f) \<le> unat (low c) + unat (range_space c)"
proof -
  let ?S = "unat (range_space c)"
  note sp = normalised_space [OF n]
  have "unat f * ?S \<le> 2 ^ 24 * ?S" using f by (rule mult_le_mono1)
  then have le: "unat f * ?S div 2 ^ 24 \<le> ?S"
    by (metis div_le_mono nonzero_mult_div_cancel_left power_not_zero zero_neq_numeral)
  have "2 ^ 24 * ?S < 2 ^ 24 * 2 ^ 32" using sp(3) by (intro mult_strict_left_mono) simp_all
  with \<open>unat f * ?S \<le> 2 ^ 24 * ?S\<close> have "unat f * ?S < 2 ^ 24 * 2 ^ 32" by (rule le_less_trans)
  then have "unat f * ?S < 2 ^ 64" by (rule less_trans) simp
  then have prod: "unat (ucast f * range_space c) = unat f * ?S" by (simp add: unat_word_ariths)
  have sum: "unat (low c) + unat f * ?S div 2 ^ 24 < 4294967296"
    using le sp(2) unat_lt_32 [of "high c"] by linarith
  have "unat (ucast (low c) + drop_bit 24 (ucast f * range_space c) :: u64)
      = unat (low c) + unat f * ?S div 2 ^ 24"
    using sum by (simp only: unat_word_ariths(1) unat_ucast_64 unat_drop_bit_nat prod) simp
  with sum show eq: "unat (symbol_boundary c f) = unat (low c) + unat f * ?S div 2 ^ 24"
    by (simp only: symbol_boundary_def unat_ucast_32) simp
  with le show "unat (symbol_boundary c f) \<le> unat (low c) + ?S" by simp
qed

text \<open>A usable probability range: non-empty and within the 24-bit scale.\<close>

definition sym_ok :: "u32 \<Rightarrow> u32 \<Rightarrow> bool" where
  "sym_ok p q \<longleftrightarrow> unat p < unat q \<and> unat q \<le> 2 ^ 24"

definition sub_high :: "range_coder \<Rightarrow> u32 \<Rightarrow> u32" where
  "sub_high c q = (if MAXVALUEPLUS1 \<le> q then high c else symbol_boundary c q - 1)"

definition narrow :: "range_coder \<Rightarrow> u32 \<Rightarrow> u32 \<Rightarrow> range_coder" where
  "narrow c p q = c\<lparr>low := symbol_boundary c p, high := sub_high c q\<rparr>"

lemma boundary_gap:
  assumes n: "normalised (low c) (high c)" and lt: "unat p < unat q" and q: "unat q \<le> 2 ^ 24"
  shows "unat (symbol_boundary c p) + 64 \<le> unat (symbol_boundary c q)"
proof -
  let ?S = "unat (range_space c)"
  have "Suc (unat p) * ?S \<le> unat q * ?S" using lt by (intro mult_le_mono1) simp
  then have "unat p * ?S + 64 * 2 ^ 24 \<le> unat q * ?S" using normalised_space(1) [OF n] by simp
  then have "(unat p * ?S + 64 * 2 ^ 24) div 2 ^ 24 \<le> unat q * ?S div 2 ^ 24" by (rule div_le_mono)
  then have "unat p * ?S div 2 ^ 24 + 64 \<le> unat q * ?S div 2 ^ 24" by simp
  moreover have "unat p \<le> 2 ^ 24" using lt q by simp
  ultimately show ?thesis using q by (simp only: unat_symbol_boundary(1) [OF n])
qed

lemma boundary_mono:
  assumes "normalised (low c) (high c)" "unat p \<le> unat q" "unat q \<le> 2 ^ 24"
  shows "symbol_boundary c p \<le> symbol_boundary c q"
  using boundary_gap [OF assms(1) _ assms(3), of p] assms(2) word_unat_eq_iff [of p q]
  by (cases "p = q") (auto simp: word_le_nat_alt)

lemma unat_sub_high:
  assumes n: "normalised (low c) (high c)" and ok: "sym_ok p q"
  shows "unat (sub_high c q) + 1 = (if unat q = 2 ^ 24 then unat (high c) + 1 else unat (symbol_boundary c q))"
proof -
  have "0 < unat (symbol_boundary c q)" using boundary_gap [OF n] ok by (fastforce simp: sym_ok_def)
  moreover from this have "unat (symbol_boundary c q - 1) = unat (symbol_boundary c q) - 1"
    by (intro unat_minus_one) (auto simp: unat_gt_0)
  ultimately show ?thesis using ok by (auto simp: sub_high_def word_le_nat_alt sym_ok_def)
qed

lemma narrow_bounds:
  assumes n: "normalised (low c) (high c)" and ok: "sym_ok p q"
  shows "low c \<le> symbol_boundary c p" "symbol_boundary c p < sub_high c q" "sub_high c q \<le> high c"
proof -
  have pq: "unat p < unat q" "unat q \<le> 2 ^ 24" "unat p \<le> 2 ^ 24" using ok by (auto simp: sym_ok_def)
  note gap = boundary_gap [OF n pq(1,2)] and sh = unat_sub_high [OF n ok]
    and top = unat_symbol_boundary(2) [OF n pq(2)] normalised_space(2) [OF n]
  show "low c \<le> symbol_boundary c p"
    using unat_symbol_boundary(1) [OF n pq(3)] by (simp add: word_le_nat_alt)
  show "symbol_boundary c p < sub_high c q" "sub_high c q \<le> high c"
    using gap sh top by (auto simp: word_less_nat_alt word_le_nat_alt split: if_splits)
qed

lemma ucast_minus_1: "(ucast (w - 1 :: u64) :: u32) = ucast w - 1"
  by (rule word_uint_eqI)
    (simp add: unsigned_ucast_eq uint_word_ariths take_bit_eq_mod mod_mod_cancel mod_diff_left_eq)

lemma range_calc_new_range_normalised:
  assumes n: "normalised (low c) (high c)"
  shows "range_calc_new_range c p q =
     (if decodingP c \<and> (symbol_boundary c p > cvalue c \<or> sub_high c q < cvalue c) then (c, None)
      else (c, Some (symbol_boundary c p, sub_high c q)))"
proof -
  have "\<not> range_space c < ucast MAXVALUEPLUS1"
    using normalised_space(1) [OF n] by (simp add: word_less_nat_alt)
  moreover have "ucast (ucast (low c) + drop_bit 24 (ucast q * range_space c) - 1 :: u64)
      = symbol_boundary c q - 1"
    unfolding symbol_boundary_def by (rule ucast_minus_1)
  ultimately show ?thesis
    by (simp add: range_calc_new_range_def Let_def sub_high_def symbol_boundary_def [of c p])
qed

section \<open>Encoding one symbol\<close>

lemma entropy_not_negative:
  assumes "sym_ok p q"
  shows "\<not> entropy_negative p q"
proof -
  have "p \<le> q" using assms by (simp add: sym_ok_def word_le_nat_alt)
  then have "unat (q - p) = unat q - unat p" by (rule unat_sub)
  with assms have le: "unat (q - p) \<le> 2 ^ 24" by (auto simp: sym_ok_def)
  have "unat (push_bit 8 (ucast (q - p) :: u64)) = 256 * unat (q - p) mod 2 ^ 64"
    by (simp only: unsigned_push_bit_eq unat_ucast_64) (simp add: take_bit_eq_mod push_bit_eq_mult mult.commute)
  also have "\<dots> \<le> 256 * unat (q - p)" by (rule mod_less_eq_dividend)
  also have "\<dots> \<le> 4294967296" using le by simp
  finally show ?thesis
    unfolding entropy_negative_def word_less_nat_alt by (simp only: linorder_not_less) simp
qed

lemma code_in_narrow:
  assumes "normalised (low c) (high c)" "sym_ok p q" "code_in X (narrow c p q)"
  shows "code_in X c"
  using narrow_bounds [OF assms(1,2)] assms(3)
  by (auto simp: code_in_def narrow_def enc_base_def enc_pos_def emitted_def word_le_nat_alt)

lemma range_encode_narrow:
  assumes "normalised (low c) (high c)" "sym_ok p q" "\<not> decodingP c"
  shows "fst (range_encode c p q) = fst (range_emit_stable_bits (narrow c p q))"
    and "snd (range_emit_stable_bits (narrow c p q)) = 0 \<Longrightarrow> snd (range_encode c p q) = 0"
proof -
  have "\<not> p > q" "\<not> (p > MAXVALUE \<or> q > MAXVALUEPLUS1)"
    using assms(2) by (auto simp: sym_ok_def word_less_nat_alt)
  with assms range_calc_new_range_normalised [OF assms(1), of p q] entropy_not_negative [OF assms(2)]
  show "fst (range_encode c p q) = fst (range_emit_stable_bits (narrow c p q))"
    "snd (range_emit_stable_bits (narrow c p q)) = 0 \<Longrightarrow> snd (range_encode c p q) = 0"
    by (auto simp: range_encode_def narrow_def Let_def split: prod.split)
qed

lemma range_encode_ok:
  assumes inv: "enc_inv c" and ok: "sym_ok p q" and room: "room (fst (range_encode c p q))"
  shows "\<exists>c'. range_encode c p q = (c', 0) \<and> enc_inv c' \<and> (\<forall>X. code_in X c' \<longleftrightarrow> code_in X (narrow c p q))"
proof -
  have n: "normalised (low c) (high c)" and dec: "\<not> decodingP c"
    using inv by (auto simp: enc_inv_def enc_core_def)
  have "enc_core (narrow c p q)" "low (narrow c p q) < high (narrow c p q)"
    using inv narrow_bounds [OF n ok] by (auto simp: enc_inv_def enc_core_def narrow_def wf_buf_def)
  with enc_stable_bits_ok [of "narrow c p q"] room range_encode_narrow [OF n ok dec] show ?thesis
    by (metis prod.collapse fst_conv snd_conv)
qed

section \<open>No write outside the buffer\<close>

text \<open>Successful or not, an encoding step keeps the buffer well-formed: every write is inside it, its length
  is kept and the bits counted as used never exceed it.\<close>

lemma wf_buf_update [simp]:
  "wf_buf (c\<lparr>underflow := u\<rparr>) = wf_buf c" "wf_buf (c\<lparr>low := l\<rparr>) = wf_buf c"
  "wf_buf (c\<lparr>high := h\<rparr>) = wf_buf c" "wf_buf (c\<lparr>errors := e\<rparr>) = wf_buf c"
  "wf_buf (c\<lparr>cvalue := v\<rparr>) = wf_buf c"
  by (simp_all add: wf_buf_def)

definition buf_kept :: "range_coder \<Rightarrow> range_coder \<Rightarrow> bool" where
  "buf_kept c c' \<longleftrightarrow> bit_stream_length c' = bit_stream_length c \<and> bits_used c \<le> bits_used c' \<and>
     (wf_buf c \<longrightarrow> wf_buf c' \<and> (\<forall>j < bits_used c. stream_bit (bit_stream c') j = stream_bit (bit_stream c) j))"

lemma buf_kept_refl [simp]: "buf_kept c c"
  by (simp add: buf_kept_def)

lemma buf_kept_trans: "buf_kept c c' \<Longrightarrow> buf_kept c' c'' \<Longrightarrow> buf_kept c c''"
  by (auto simp: buf_kept_def)

lemma buf_kept_update [simp]:
  "buf_kept c (c'\<lparr>underflow := u\<rparr>) = buf_kept c c'" "buf_kept c (c'\<lparr>low := l\<rparr>) = buf_kept c c'"
  "buf_kept c (c'\<lparr>high := h\<rparr>) = buf_kept c c'" "buf_kept c (c'\<lparr>errors := e\<rparr>) = buf_kept c c'"
  "buf_kept c (c'\<lparr>cvalue := v\<rparr>) = buf_kept c c'" "buf_kept (c\<lparr>underflow := u\<rparr>) c' = buf_kept c c'"
  by (simp_all add: buf_kept_def)

lemma buf_kept_emitbit: "buf_kept c (fst (range_emitbit c b))"
proof (cases "bits_used c < bit_stream_length c")
  case True
  then have "bit_stream_length (fst (range_emitbit c b)) = bit_stream_length c"
    "bits_used c \<le> bits_used (fst (range_emitbit c b))" by (auto simp: range_emitbit_def Let_def)
  with range_emitbit_ok [OF _ True, of b] show ?thesis by (auto simp: buf_kept_def)
qed (simp add: range_emitbit_fail)

lemma buf_kept_emit_underflow: "buf_kept c (fst (range_emit_underflow True c u))"
proof (induction "nat (underflow c)" arbitrary: c)
  case 0
  then show ?case by (subst range_emit_underflow.simps) (simp add: Let_def)
next
  case (Suc n)
  let ?c1 = "c\<lparr>underflow := underflow c - 1\<rparr>"
  obtain c2 r where c2: "range_emitbit ?c1 u = (c2, r)" by fastforce
  have k: "buf_kept c c2" "underflow c2 = underflow c - 1"
    using buf_kept_emitbit [of ?c1 u] range_emitbit_underflow [of ?c1 u] c2 by auto
  have "buf_kept c2 (fst (range_emit_underflow True c2 u))" using Suc.hyps k(2) by (intro Suc.hyps(1)) simp
  then have "buf_kept c (fst (range_emit_underflow True c2 u))" by (rule buf_kept_trans [OF k(1)])
  with k c2 show ?case
    by (subst range_emit_underflow.simps) (simp add: Let_def)
qed

lemma buf_kept_stable_step: "\<not> decodingP c \<Longrightarrow> buf_kept c (fst (range_emit_stable_step c))"
proof -
  assume nd: "\<not> decodingP c"
  let ?b = "bit (low c) 31"
  obtain c1 r1 where c1: "range_emitbit c ?b = (c1, r1)" by fastforce
  obtain c2 r2 where c2: "range_emit_underflow True c1 (\<not> ?b) = (c2, r2)" by fastforce
  have "\<not> decodingP c1" "\<not> decodingP c2"
    using range_emitbit_regsD [OF c1] range_emit_underflow_regsD [OF c2] nd by (auto simp: regs_eq_iff)
  moreover have "buf_kept c c1" "buf_kept c1 c2"
    using buf_kept_emitbit [of c ?b] buf_kept_emit_underflow [of c1 "\<not> ?b"] c1 c2 by auto
  moreover from this have "buf_kept c c2" by (rule buf_kept_trans)
  ultimately show ?thesis using nd c1 c2
    by (simp add: range_emit_stable_step_def Let_def del: push_bit_Suc One_nat_def)
qed

lemma buf_kept_stable_loop: "\<not> decodingP c \<Longrightarrow> buf_kept c (fst (range_emit_stable_loop c))"
proof (induction c rule: range_emit_stable_loop.induct)
  case (1 c)
  obtain c' r where s: "range_emit_stable_step c = (c', r)" by fastforce
  have "buf_kept c c'" "\<not> decodingP c'"
    using buf_kept_stable_step [OF "1.prems"] enc_mono_stable_step [of c] s "1.prems"
    by (auto simp: enc_mono_def)
  with 1 s show ?case by (subst range_emit_stable_loop.simps) (auto intro: buf_kept_trans)
qed

lemma buf_kept_rescale: "\<not> decodingP c \<Longrightarrow> buf_kept c (fst (range_rescale c))"
proof (induction c rule: range_rescale.induct)
  case (1 c)
  obtain c' r where s: "range_rescale_step c = (c', r)" by fastforce
  have "buf_kept c c'" "\<not> decodingP c'"
    using s "1.prems" by (auto simp: range_rescale_step_def Let_def split: if_splits)
  with 1 s show ?case by (subst range_rescale.simps) (auto intro: buf_kept_trans)
qed

lemma buf_kept_stable_bits: "\<not> decodingP c \<Longrightarrow> buf_kept c (fst (range_emit_stable_bits c))"
proof -
  assume a: "\<not> decodingP c"
  obtain c1 r where c1: "range_emit_stable_loop c = (c1, r)" by fastforce
  have k: "buf_kept c c1" "\<not> decodingP c1"
    using buf_kept_stable_loop [OF a] enc_mono_stable_loop [of c] c1 a by (auto simp: enc_mono_def)
  have "buf_kept c (fst (range_rescale c1))"
    by (rule buf_kept_trans [OF k(1) buf_kept_rescale [OF k(2)]])
  with k c1 show ?thesis by (simp add: range_emit_stable_bits_def)
qed

lemma buf_kept_range_encode:
  assumes "\<not> decodingP c"
  shows "buf_kept c (fst (range_encode c p q))"
proof -
  obtain c1 x where calc: "range_calc_new_range c p q = (c1, x)" by fastforce
  have c1: "buf_kept c c1" "\<not> decodingP c1" using range_calc_new_range_frame [OF calc] assms by auto
  have "buf_kept c (fst (range_emit_stable_bits (c1\<lparr>low := l, high := h\<rparr>)))" for l h
    using c1 by (intro buf_kept_trans [OF _ buf_kept_stable_bits, of c "c1\<lparr>low := l, high := h\<rparr>"]) simp_all
  with assms calc c1 show ?thesis
    by (auto simp: range_encode_def Let_def split: option.split prod.split) (metis fst_conv)+
qed

text \<open>What every encoder of the program does to the coder, whatever happens.\<close>

definition enc_step :: "range_coder \<Rightarrow> range_coder \<Rightarrow> bool" where
  "enc_step c c' \<longleftrightarrow> enc_mono c c' \<and> (\<not> decodingP c \<longrightarrow> buf_kept c c')"

lemma enc_step_refl [simp]: "enc_step c c"
  by (simp add: enc_step_def)

lemma enc_step_trans: "enc_step c c' \<Longrightarrow> enc_step c' c'' \<Longrightarrow> enc_step c c''"
  by (auto simp: enc_step_def enc_mono_def intro: buf_kept_trans)

lemma enc_step_range_encode: "enc_step c (fst (range_encode c p q))"
  by (simp add: enc_step_def enc_mono_range_encode buf_kept_range_encode)

section \<open>The decoder follows the encoder\<close>

definition dec_bits :: "range_coder \<Rightarrow> nat \<Rightarrow> bool" where
  "dec_bits d i \<longleftrightarrow> i < bit_stream_length d \<and> stream_bit (bit_stream d) i"

lemma dec_bits_update [simp]:
  "dec_bits (d\<lparr>low := l\<rparr>) = dec_bits d" "dec_bits (d\<lparr>high := l\<rparr>) = dec_bits d"
  "dec_bits (d\<lparr>cvalue := l\<rparr>) = dec_bits d" "dec_bits (d\<lparr>underflow := u\<rparr>) = dec_bits d"
  "dec_bits (d\<lparr>bits_used := k\<rparr>) = dec_bits d" "dec_bits (d\<lparr>decodingP := b\<rparr>) = dec_bits d"
  "dec_bits (d\<lparr>errors := e\<rparr>) = dec_bits d" "dec_bits (d\<lparr>debug := b\<rparr>) = dec_bits d"
  by (simp_all add: dec_bits_def fun_eq_iff)

text \<open>The decoder \<open>d\<close>, reading the stream \<open>X\<close>, is where the encoder was in state \<open>c\<close>: same interval, and
  its value is the window of \<open>X\<close> at that position.\<close>

definition tracks :: "range_coder \<Rightarrow> range_coder \<Rightarrow> (nat \<Rightarrow> bool) \<Rightarrow> bool" where
  "tracks d c X \<longleftrightarrow> low d = low c \<and> high d = high c \<and> \<not> norescale d \<and> X = dec_bits d \<and>
     bits_used d = enc_pos c + 32 \<and> enc_base c + unat (cvalue d) = pre_val X (enc_pos c + 32)"

lemma tracks_value:
  assumes "tracks d c X" "code_in X c"
  shows "low c \<le> cvalue d" "cvalue d \<le> high c"
  using assms by (auto simp: tracks_def code_in_def word_le_nat_alt)

lemma getnextbit_eq:
  assumes "bits_used d < 2 ^ 32 - 1"
  shows "range_decode_getnextbit d = (d\<lparr>bits_used := Suc (bits_used d)\<rparr>, dec_bits d (bits_used d))"
  using assms by (auto simp: range_decode_getnextbit_def dec_bits_def stream_bit_def)

lemma unat_shift_in:
  "unat (push_bit 1 (w :: u32) OR of_bool b) =
     2 * unat w + of_bool b - (if 2147483648 \<le> unat w then 4294967296 else 0)"
proof (cases b)
  case True
  then show ?thesis using unat_shift_out_1 [of w] by (simp del: push_bit_Suc push_bit_of_1 One_nat_def)
next
  case False
  then show ?thesis using unat_shift_out [of w] by (simp del: push_bit_Suc push_bit_of_1 One_nat_def)
qed

lemma range_emit_underflow_decoding: "\<exists>k. range_emit_underflow False d u = (d\<lparr>underflow := k\<rparr>, 0)"
proof (induction "nat (underflow d)" arbitrary: d)
  case 0
  then show ?case by (subst range_emit_underflow.simps) (auto simp: Let_def)
next
  case (Suc n)
  then have "0 < underflow d" "n = nat (underflow (d\<lparr>underflow := underflow d - 1\<rparr>))" by auto
  with Suc.hyps(1) [of "d\<lparr>underflow := underflow d - 1\<rparr>"] show ?case
    by (subst range_emit_underflow.simps) (simp add: Let_def)
qed

lemma dec_stable_step_eq:
  assumes "decodingP d" "bits_used d < 2 ^ 32 - 1"
  shows "range_emit_stable_step d =
     (d\<lparr>underflow := 0, low := push_bit 1 (low d), high := push_bit 1 (high d) OR 1,
        cvalue := push_bit 1 (cvalue d) OR of_bool (dec_bits d (bits_used d)),
        bits_used := Suc (bits_used d)\<rparr>, 0)"
proof -
  obtain k where "range_emit_underflow False d (\<not> bit (low d) 31) = (d\<lparr>underflow := k\<rparr>, 0)"
    using range_emit_underflow_decoding by blast
  with assms getnextbit_eq [of "d\<lparr>underflow := 0, low := push_bit 1 (low d),
      high := push_bit 1 (high d) OR 1, cvalue := push_bit 1 (cvalue d)\<rparr>"]
    getnextbit_eq [of "d\<lparr>low := push_bit 1 (low d),
      high := push_bit 1 (high d) OR 1, cvalue := push_bit 1 (cvalue d)\<rparr>"]
  show ?thesis
    by (auto simp: range_emit_stable_step_def Let_def dec_bits_def intro!: range_coder.equality
        simp del: push_bit_Suc One_nat_def)
qed

lemma room_pos: "wf_buf c \<Longrightarrow> room c \<Longrightarrow> enc_pos c + 32 < 2 ^ 32 - 1"
  by (auto simp: wf_buf_def room_def)

lemma dec_stable_step_ok:
  assumes core: "enc_core c" and top: "\<not> bit (low c XOR high c) 31" and room: "room c"
    and tracks: "tracks d c X" and code: "code_in X c" and dec: "decodingP d"
    and c': "range_emit_stable_step c = (c', 0)"
  shows "\<exists>d'. range_emit_stable_step d = (d', 0) \<and> tracks d' c' X \<and> decodingP d'"
proof -
  obtain pos: "enc_pos c' = Suc (enc_pos c)" and lh: "low c' = push_bit 1 (low c)" "high c' = push_bit 1 (high c) OR 1"
    and base: "enc_base c' = 2 * enc_base c + (if bit (low c) 31 then 4294967296 else 0)"
    using enc_stable_step_ok [OF core top room] c' by (metis prod.inject)
  have used: "bits_used d = enc_pos c + 32" "bits_used d < 2 ^ 32 - 1"
    using tracks room_pos room core by (auto simp: tracks_def enc_core_def)
  have "(2147483648 \<le> unat (cvalue d)) = bit (low c) 31"
    using tracks_value [OF tracks code] iffD1 [OF same_top_bit_iff top]
    unfolding bit_31_iff word_le_nat_alt by linarith
  then have "enc_base c' + unat (push_bit 1 (cvalue d) OR of_bool (dec_bits d (bits_used d)))
      = 2 * (enc_base c + unat (cvalue d)) + of_bool (dec_bits d (bits_used d))"
    unfolding base unat_shift_in by auto
  also have "\<dots> = pre_val X (enc_pos c' + 32)"
    using tracks by (simp only: pos add_Suc pre_val.simps used(1)) (simp add: tracks_def)
  finally have "tracks (fst (range_emit_stable_step d)) c' X"
    unfolding dec_stable_step_eq [OF dec used(2)] tracks_def
    using tracks pos used(1) by (simp add: tracks_def lh del: push_bit_Suc One_nat_def)
  then show ?thesis using dec_stable_step_eq [OF dec used(2)] dec by simp
qed

lemma dec_stable_loop_ok:
  assumes "enc_core c" "room (fst (range_emit_stable_loop c))" "low c < high c"
    "tracks d c X" "code_in X c" "decodingP d"
  shows "\<exists>d'. range_emit_stable_loop d = (d', 0) \<and> tracks d' (fst (range_emit_stable_loop c)) X \<and> decodingP d'"
  using assms
proof (induction c arbitrary: d rule: range_emit_stable_loop.induct)
  case (1 c)
  have same: "low d = low c" "high d = high c" using "1.prems"(4) by (auto simp: tracks_def)
  show ?case
  proof (cases "bit (low c XOR high c) 31")
    case True
    then have "range_emit_stable_loop c = (c, 0)" "range_emit_stable_loop d = (d, 0)"
      using same by (simp_all add: range_emit_stable_loop.simps)
    with "1.prems" show ?thesis by simp
  next
    case False
    have room: "room c" using "1.prems" enc_mono_stable_loop [of c] by (auto simp: enc_mono_def enc_core_def)
    from enc_stable_step_ok [OF "1.prems"(1) False this] obtain c' where
      c': "range_emit_stable_step c = (c', 0)" "enc_core c'" "\<And>X. code_in X c' \<longleftrightarrow> code_in X c"
      "low c' = push_bit 1 (low c)" "high c' = push_bit 1 (high c) OR 1" by blast
    obtain d' where d': "range_emit_stable_step d = (d', 0)" "tracks d' c' X" "decodingP d'"
      using dec_stable_step_ok [OF "1.prems"(1) False room "1.prems"(4-6) c'(1)] by blast
    have loop: "range_emit_stable_loop c = range_emit_stable_loop c'"
      "range_emit_stable_loop d = range_emit_stable_loop d'"
      using False c'(1) d'(1) same
      by (subst range_emit_stable_loop.simps, simp)+
    have "low c' < high c'" using shift_keeps_order [OF "1.prems"(3) False] by (simp only: c'(4,5))
    with "1.IH" [OF False c'(1) [symmetric]] c' d' "1.prems" loop show ?thesis by auto
  qed
qed

lemma unat_rescale_value:
  assumes "1073741824 \<le> unat (v :: u32)" "unat v < 3221225472"
  shows "unat (((v AND 0x80000000) OR (push_bit 1 v AND 0x7ffffffe)) OR of_bool b)
     = 2 * unat v + of_bool b - 2147483648"
proof -
  let ?w = "push_bit 1 v OR of_bool b"
  have m: "(0x7ffffffe :: u32) = push_bit 1 (mask 30)" by (simp add: mask_eq_decr_exp push_bit_eq_mult)
  have t: "(0x80000000 :: u32) = push_bit 31 1" by (simp add: push_bit_eq_mult)
  have n31: "n = 31" if "n < 32" "31 \<le> n" for n :: nat using that by simp
  have top: "v AND 0x80000000 = (if bit v 31 then 0x80000000 else 0)"
    unfolding t
    by (cases "bit v 31"; simp only: if_True if_False; rule bit_word_eqI; simp only: bit_simps)
      (auto dest!: n31)
  have eq: "((v AND 0x80000000) OR (push_bit 1 v AND 0x7ffffffe)) OR of_bool b
      = (?w AND mask 31) OR (v AND 0x80000000)"
    unfolding m t by (rule bit_word_eqI) (simp only: bit_simps, auto dest!: n31)
  have w31: "unat (?w AND mask 31) < 2147483648" by (simp only: unat_and_mask) simp
  have "unat (?w AND mask 31) = unat ?w mod 2147483648" by (simp only: unat_and_mask) simp
  also have "\<dots> = 2 * unat v + of_bool b - (if bit v 31 then 4294967296 else 2147483648)"
    using assms unfolding unat_shift_in bit_31_iff by (auto simp: le_mod_geq)
  finally show ?thesis
    using assms unat_or_top [OF w31] unfolding eq unfolding top bit_31_iff by (auto split: if_splits)
qed

lemma dec_rescale_step_ok:
  assumes core: "enc_core c" and pos: "underflow_position c" and room: "room c"
    and tracks: "tracks d c X" and code: "code_in X c" and dec: "decodingP d"
    and c': "range_rescale_step c = (c', 0)"
  shows "\<exists>d'. range_rescale_step d = (d', 0) \<and> tracks d' c' X \<and> decodingP d'"
proof -
  obtain epos: "enc_pos c' = Suc (enc_pos c)" and base: "enc_base c' = 2 * enc_base c + 2147483648"
    using enc_rescale_step_ok [OF core pos] c' by (metis prod.inject)
  have used: "bits_used d = enc_pos c + 32" "bits_used d < 2 ^ 32 - 1"
    using tracks room_pos room core by (auto simp: tracks_def enc_core_def)
  have same: "low d = low c" "high d = high c" using tracks by (auto simp: tracks_def)
  then have posd: "underflow_position d" using pos by (simp add: underflow_position_def)
  let ?v = "((cvalue d AND 0x80000000) OR (push_bit 1 (cvalue d) AND 0x7ffffffe)) OR of_bool (dec_bits d (bits_used d))"
  obtain d' r where d': "range_rescale_step d = (d', r)" by fastforce
  note rd = range_rescale_step_range [OF d' posd] and rc = range_rescale_step_range [OF c' pos]
  have val: "cvalue d' = ?v" "bits_used d' = Suc (bits_used d)" "dec_bits d' = dec_bits d" "decodingP d'"
    "norescale d' = norescale d"
    using d' rd(1) dec used(2)
    by (auto simp: range_rescale_step_def Let_def getnextbit_eq simp del: push_bit_Suc One_nat_def
        split: if_splits)
  have "1073741824 \<le> unat (cvalue d)" "unat (cvalue d) < 3221225472"
    using tracks_value [OF tracks code] pos by (auto simp: underflow_position_iff word_le_nat_alt)
  then have "enc_base c' + unat ?v = 2 * (enc_base c + unat (cvalue d)) + of_bool (dec_bits d (bits_used d))"
    unfolding base by (simp only: unat_rescale_value) auto
  also have "\<dots> = pre_val X (enc_pos c' + 32)"
    using tracks by (simp only: epos add_Suc pre_val.simps used(1)) (simp add: tracks_def)
  finally have "tracks d' c' X"
    using tracks epos used(1) rd rc same
    by (auto simp: tracks_def val word_unat_eq_iff)
  with d' rd(1) val show ?thesis by auto
qed

lemma dec_rescale_ok:
  assumes "enc_core c" "unat (low c) < 2147483648" "2147483648 \<le> unat (high c)"
    "room (fst (range_rescale c))" "tracks d c X" "code_in X c" "decodingP d"
  shows "tracks (fst (range_rescale d)) (fst (range_rescale c)) X"
  using assms
proof (induction c arbitrary: d rule: range_rescale.induct)
  case (1 c)
  have same: "underflow_position d = underflow_position c"
    using "1.prems"(5) by (auto simp: tracks_def underflow_position_def)
  show ?case
  proof (cases "underflow_position c")
    case False
    with "1.prems" same show ?thesis by (simp add: range_rescale.simps)
  next
    case True
    from enc_rescale_step_ok [OF "1.prems"(1) True] obtain c' where
      c': "range_rescale_step c = (c', 0)" "enc_core c'" "\<And>X. code_in X c' \<longleftrightarrow> code_in X c" by blast
    have room: "room c"
      using "1.prems" enc_mono_rescale [of c] by (auto simp: enc_mono_def enc_core_def)
    obtain d' where d': "range_rescale_step d = (d', 0)" "tracks d' c' X" "decodingP d'"
      using dec_rescale_step_ok [OF "1.prems"(1) True room "1.prems"(5-7) c'(1)] by blast
    have loop: "range_rescale c = range_rescale c'" "range_rescale d = range_rescale d'"
      using True c'(1) d'(1) same by (subst range_rescale.simps, simp)+
    have "unat (low c') < 2147483648" "2147483648 \<le> unat (high c')"
      using range_rescale_step_range [OF c'(1) True] True by (auto simp: underflow_position_iff)
    with "1.IH" [OF True c'(1) [symmetric]] c' d' "1.prems" loop show ?thesis by auto
  qed
qed

lemma dec_stable_bits_ok:
  assumes "enc_core c" "low c < high c" "room (fst (range_emit_stable_bits c))"
    "tracks d c X" "code_in X c" "decodingP d"
  shows "tracks (fst (range_emit_stable_bits d)) (fst (range_emit_stable_bits c)) X"
proof -
  obtain c1 r1 where loop: "range_emit_stable_loop c = (c1, r1)" by fastforce
  have "room c1" using assms(3) loop enc_mono_rescale [of c1] enc_mono_stable_loop [of c] assms(1)
    by (auto simp: range_emit_stable_bits_def enc_mono_def enc_core_def split: if_splits)
  with enc_stable_loop_ok [OF assms(1) _ assms(2)] loop have c1: "r1 = 0" "enc_core c1"
    "\<forall>X. code_in X c1 \<longleftrightarrow> code_in X c" "unat (low c1) < 2147483648" "2147483648 \<le> unat (high c1)" by auto
  obtain d1 where d1: "range_emit_stable_loop d = (d1, 0)" "tracks d1 c1 X" "decodingP d1"
    using dec_stable_loop_ok [OF assms(1) _ assms(2,4,5,6)] loop \<open>room c1\<close> by auto
  have "\<not> norescale c1" "\<not> norescale d1" using c1(2) d1(2) by (auto simp: enc_core_def tracks_def)
  with dec_rescale_ok [OF c1(2,4,5) _ d1(2) _ d1(3)] assms(3,5) c1 d1 loop show ?thesis
    by (auto simp: range_emit_stable_bits_def)
qed

end
