(* ===== verification/SyncCoder.thy ===== *)
theory SyncCoder
  imports Main
begin

text \<open>
  The contract between the range coder and the compressors built on it. A compressor is an
  encoder/decoder pair that only touches the coder through its operations; what it needs to know
  is that after encoding, every stream the final state stands for makes the decoder, started where the
  encoder was, return the encoded value and arrive where the encoder is. The locale states that
  contract as \<open>codec\<close> and proves once that it is closed under sequencing and iteration, with and
  without a test of the return code.

  An encoder returns \<open>None\<close> when the program aborts and otherwise the new state with the C return
  code. A decoder returns \<open>None\<close> when it reports a failure.
\<close>

text \<open>Running an encoder over a list, stopping at the first failure, and the matching decoder.\<close>

primrec enc_all :: "('a \<Rightarrow> 's \<Rightarrow> ('s \<times> int) option) \<Rightarrow> 'a list \<Rightarrow> 's \<Rightarrow> ('s \<times> int) option" where
  "enc_all e [] c = Some (c, 0)"
| "enc_all e (a # as) c = Option.bind (e a c) (\<lambda>(c1, r). if r \<noteq> 0 then Some (c1, r) else enc_all e as c1)"

primrec dec_all :: "('a \<Rightarrow> 's \<Rightarrow> ('s \<times> 'v) option) \<Rightarrow> 'a list \<Rightarrow> 's \<Rightarrow> ('s \<times> 'v list) option" where
  "dec_all d [] s = Some (s, [])"
| "dec_all d (a # as) s =
     Option.bind (d a s) (\<lambda>(s1, v). map_option (\<lambda>(s2, vs). (s2, v # vs)) (dec_all d as s1))"

lemma dec_all_map: "dec_all d (map f as) = dec_all (\<lambda>a. d (f a)) as"
  by (induction as) auto

locale sync_coder =
  fixes inv :: "'s \<Rightarrow> bool"
    and room :: "'s \<Rightarrow> bool"
    and mono :: "'s \<Rightarrow> 's \<Rightarrow> bool"
    and code_in :: "'x \<Rightarrow> 's \<Rightarrow> bool"
    and tracks :: "'s \<Rightarrow> 's \<Rightarrow> 'x \<Rightarrow> bool"
  assumes mono_refl: "mono c c"
    and mono_trans: "mono c c' \<Longrightarrow> mono c' c'' \<Longrightarrow> mono c c''"
    and room_back: "inv c \<Longrightarrow> mono c c' \<Longrightarrow> mono c' c'' \<Longrightarrow> room c'' \<Longrightarrow> room c'"
begin

text \<open>\<open>follows c c' dec x\<close>: on every stream of \<open>c'\<close>, a decoder at \<open>c\<close> reads \<open>x\<close> and gets to \<open>c'\<close>.\<close>

definition follows :: "'s \<Rightarrow> 's \<Rightarrow> ('s \<Rightarrow> ('s \<times> 'a) option) \<Rightarrow> 'a \<Rightarrow> bool" where
  "follows c c' dec x \<longleftrightarrow>
     (\<forall>X. code_in X c' \<longrightarrow> code_in X c \<and>
        (\<forall>d. tracks d c X \<longrightarrow> (\<exists>d'. dec d = Some (d', x) \<and> tracks d' c' X)))"

definition codec :: "('s \<Rightarrow> ('s \<times> int) option) \<Rightarrow> ('s \<Rightarrow> ('s \<times> 'a) option) \<Rightarrow> 'a \<Rightarrow> bool" where
  "codec enc dec x \<longleftrightarrow>
     (\<forall>c. \<exists>c' r. enc c = Some (c', r) \<and> mono c c' \<and>
        (inv c \<and> room c' \<longrightarrow> r = 0 \<and> inv c' \<and> follows c c' dec x))"

lemma codecI:
  assumes "\<And>c. \<exists>c' r. enc c = Some (c', r) \<and> mono c c' \<and>
        (inv c \<and> room c' \<longrightarrow> r = 0 \<and> inv c' \<and> follows c c' dec x)"
  shows "codec enc dec x"
  using assms by (simp add: codec_def)

lemma codec_total: "codec enc dec x \<Longrightarrow> \<exists>c' r. enc c = Some (c', r) \<and> mono c c'"
  unfolding codec_def by blast

lemma codecD:
  assumes "codec enc dec x" "enc c = Some (c', r)" "inv c" "room c'"
  shows "r = 0 \<and> inv c' \<and> follows c c' dec x"
  using assms unfolding codec_def by (metis option.inject prod.inject)

lemma follows_refl: "follows c c (\<lambda>d. Some (d, x)) x"
  by (auto simp: follows_def)

lemma follows_trans:
  assumes "follows c c1 dec1 x" "follows c1 c2 (dec2 x) y"
  shows "follows c c2 (\<lambda>d. Option.bind (dec1 d) (\<lambda>(d', x). dec2 x d')) y"
  using assms unfolding follows_def by fastforce

lemma codec_return: "codec (\<lambda>c. Some (c, 0)) (\<lambda>d. Some (d, x)) x"
  by (auto intro!: codecI mono_refl follows_refl)

text \<open>Two encoders in sequence. When the first return code is tested, a failure ends the sequence with
  whatever code \<open>e\<close> the caller reports; when it is not, the second encoder runs all the same.\<close>

lemma codec_seq_gen:
  assumes 1: "codec enc1 dec1 x" and 2: "codec enc2 (dec2 x) y"
    and enc: "\<And>c. enc c = (case enc1 c of None \<Rightarrow> None
        | Some (c1, r) \<Rightarrow> if r \<noteq> 0 \<and> checked then Some (c1, e r) else enc2 c1)"
    and dec: "\<And>d. dec d = Option.bind (dec1 d) (\<lambda>(d', x). dec2 x d')"
  shows "codec enc dec y"
proof (rule codecI)
  fix c
  obtain c1 r1 where c1: "enc1 c = Some (c1, r1)" "mono c c1" using codec_total [OF 1] by blast
  obtain c2 r2 where c2: "enc2 c1 = Some (c2, r2)" "mono c1 c2" using codec_total [OF 2] by blast
  have dec': "dec = (\<lambda>d. Option.bind (dec1 d) (\<lambda>(d', x). dec2 x d'))" using dec by blast
  show "\<exists>c' r. enc c = Some (c', r) \<and> mono c c' \<and>
      (inv c \<and> room c' \<longrightarrow> r = 0 \<and> inv c' \<and> follows c c' dec y)"
  proof (cases "r1 \<noteq> 0 \<and> checked")
    case True
    then have "enc c = Some (c1, e r1)" using enc c1 by auto
    with codecD [OF 1 c1(1)] True c1 show ?thesis by auto
  next
    case False
    then have "enc c = Some (c2, r2)" using enc c1 c2 by auto
    moreover have "r2 = 0 \<and> inv c2 \<and> follows c c2 dec y" if "inv c" "room c2"
      using codecD [OF 1 c1(1) that(1) room_back [OF that(1) c1(2) c2(2) that(2)]]
        codecD [OF 2 c2(1) _ that(2)] follows_trans [of c c1 dec1 x c2 dec2 y]
      unfolding dec' by blast
    ultimately show ?thesis using mono_trans [OF c1(2) c2(2)] by auto
  qed
qed

lemma codec_seq:
  assumes "codec enc1 dec1 x" "codec enc2 (dec2 x) y"
  shows "codec (\<lambda>c. Option.bind (enc1 c) (\<lambda>(c1, r). enc2 c1))
    (\<lambda>d. Option.bind (dec1 d) (\<lambda>(d', x). dec2 x d')) y"
  by (rule codec_seq_gen [where checked = False and ?dec2.0 = dec2, OF assms]) (auto split: option.split)

lemma codec_seq_checked:
  assumes "codec enc1 dec1 x" "codec enc2 (dec2 x) y" "f 0 = 0"
  shows "codec (\<lambda>c. Option.bind (enc1 c) (\<lambda>(c1, r). if r \<noteq> 0 then Some (c1, f r) else enc2 c1))
    (\<lambda>d. Option.bind (dec1 d) (\<lambda>(d', x). dec2 x d')) y"
  by (rule codec_seq_gen [where checked = True and e = f and ?dec2.0 = dec2, OF assms(1,2)])
    (auto split: option.split)

text \<open>The last call of an encoder, its return code dropped or replaced.\<close>

lemma codec_code:
  assumes "codec enc dec x" "f 0 = 0"
  shows "codec (\<lambda>c. map_option (\<lambda>(c', r). (c', f r)) (enc c)) dec x"
proof (rule codecI)
  fix c
  obtain c' r where c': "enc c = Some (c', r)" "mono c c'" using codec_total [OF assms(1)] by blast
  with codecD [OF assms(1) c'(1)] assms(2)
  show "\<exists>c' r. map_option (\<lambda>(c', r). (c', f r)) (enc c) = Some (c', r) \<and> mono c c' \<and>
      (inv c \<and> room c' \<longrightarrow> r = 0 \<and> inv c' \<and> follows c c' dec x)" by auto
qed

text \<open>The values of a list, one after the other.\<close>

lemma codec_value_map:
  assumes "codec enc dec x"
  shows "codec enc (\<lambda>d. map_option (\<lambda>(d', v). (d', g v)) (dec d)) (g x)"
  using assms unfolding codec_def follows_def by fastforce

lemma codec_all:
  assumes "\<And>a. a \<in> set as \<Longrightarrow> codec (e a) (d a) (v a)"
  shows "codec (enc_all e as) (dec_all d as) (map v as)"
  using assms
proof (induction as)
  case Nil
  have "enc_all e [] = (\<lambda>c. Some (c, 0))" "dec_all d [] = (\<lambda>c. Some (c, []))" by auto
  then show ?case using codec_return by simp
next
  case (Cons a as)
  have eqs: "enc_all e (a # as) = (\<lambda>c. Option.bind (e a c) (\<lambda>(c1, r). if r \<noteq> 0 then Some (c1, r) else enc_all e as c1))"
    "dec_all d (a # as) = (\<lambda>s. Option.bind (d a s)
       (\<lambda>(s1, v). map_option (\<lambda>(s2, vs). (s2, v # vs)) (dec_all d as s1)))" by auto
  have "codec (enc_all e as) (\<lambda>s. map_option (\<lambda>(s2, vs). (s2, v a # vs)) (dec_all d as s)) (v a # map v as)"
    using Cons by (intro codec_value_map) simp
  from codec_seq_checked [where f = "\<lambda>r. r" and ?dec2.0 = "\<lambda>v s. map_option (\<lambda>(s2, vs). (s2, v # vs)) (dec_all d as s)",
      OF _ this] Cons.prems
  show ?case unfolding eqs list.map by simp
qed

text \<open>A test that well-behaved states pass.\<close>

lemma codec_guard:
  assumes "codec enc dec x" "\<And>c. inv c \<Longrightarrow> P c"
  shows "codec (\<lambda>c. if P c then enc c else Some (c, e)) dec x"
  using assms mono_refl unfolding codec_def by auto

text \<open>A decoder may be replaced by one that agrees where the decoding succeeds.\<close>

lemma codec_dec_mono:
  assumes "codec enc dec x" "\<And>d d'. dec d = Some (d', x) \<Longrightarrow> dec' d = Some (d', y)"
  shows "codec enc dec' y"
  using assms unfolding codec_def follows_def by meson

lemma codec_enc_dec_cong:
  "codec enc dec x \<Longrightarrow> (\<And>c. enc' c = enc c) \<Longrightarrow> (\<And>d. dec' d = dec d) \<Longrightarrow> codec enc' dec' x"
  by (simp add: codec_def follows_def)

end

end
