(* ===== verification/RangeSymbols.thy ===== *)
theory RangeSymbols
  imports RangeCodec SyncCoder
begin

text \<open>
  Symbols on top of the range coder: the decoders \<^const>\<open>range_decode_equiprobable\<close> and
  \<^const>\<open>range_decode_symbol\<close> find the symbol that \<^const>\<open>range_encode_equiprobable\<close> and
  \<^const>\<open>range_encode_symbol\<close> encoded; \<^const>\<open>range_conclude\<close> writes bits that select the final state
  whatever follows them; and so a stream written through any \<open>codec\<close> is read back.
\<close>

interpretation rc: sync_coder enc_inv room enc_step code_in tracks
proof
  fix c c' c''
  show "enc_step c c" by simp
  show "enc_step c c' \<Longrightarrow> enc_step c' c'' \<Longrightarrow> enc_step c c''" by (rule enc_step_trans)
  show "enc_inv c \<Longrightarrow> enc_step c c' \<Longrightarrow> enc_step c' c'' \<Longrightarrow> room c'' \<Longrightarrow> room c'"
    by (auto simp: enc_step_def enc_mono_def enc_inv_def enc_core_def)
qed

section \<open>Decoding one symbol\<close>

lemma tracks_decodingP [simp]: "tracks (d\<lparr>decodingP := b\<rparr>) c X = tracks d c X"
  by (simp add: tracks_def)

lemma range_decode_common_miss:
  assumes n: "normalised (low c) (high c)" and tracks: "tracks d c X" and code: "code_in X c"
    and miss: "cvalue d < symbol_boundary c p \<or> sub_high c q < cvalue d"
  shows "range_decode_common d p q = (d\<lparr>decodingP := True\<rparr>, -1)"
proof -
  have same: "low d = low c" "high d = high c" using tracks by (auto simp: tracks_def)
  then have sub: "symbol_boundary d = symbol_boundary c" "sub_high d = sub_high c"
    by (auto simp: fun_eq_iff symbol_boundary_def range_space_def sub_high_def)
  note inside = tracks_value [OF tracks code]
  have chk: "range_check d = 0" "range_check (d\<lparr>decodingP := True\<rparr>) = 0"
    using inside normalised_order [OF n] same by (auto simp: range_check_def)
  have "range_calc_new_range d p q =
     (if decodingP d then (d, None) else (d, Some (symbol_boundary c p, sub_high c q)))"
    using range_calc_new_range_normalised [of d p q] n same sub miss by auto
  with chk miss normalised_order [OF n] same show ?thesis
    by (auto simp: range_decode_common_def Let_def)
qed

lemma range_decode_common_inside:
  assumes "normalised (low d) (high d)" "low d \<le> cvalue d" "cvalue d \<le> high d"
    "symbol_boundary d p = l" "sub_high d q = h" "l \<le> cvalue d" "cvalue d \<le> h" "l < h"
  shows "range_decode_common d p q =
    ((fst (range_emit_stable_bits (d\<lparr>decodingP := True, low := l, high := h\<rparr>)))\<lparr>decodingP := False\<rparr>, 0)"
proof -
  have "\<not> high d \<le> low d" using normalised_order [OF assms(1)] by simp
  moreover have "range_calc_new_range d p q = (d, Some (l, h))"
    using range_calc_new_range_normalised [OF assms(1)] assms by auto
  moreover have "\<not> h \<le> l" "\<not> cvalue d < l" "\<not> h < cvalue d" "\<not> cvalue d < low d" "\<not> high d < cvalue d"
    using assms by auto
  ultimately show ?thesis by (simp add: range_decode_common_def Let_def range_check_def)
qed

lemma range_decode_common_hit:
  assumes inv: "enc_inv c" and ok: "sym_ok p q" and room: "room (fst (range_encode c p q))"
    and tracks: "tracks d c X" and code: "code_in X (fst (range_encode c p q))"
  shows "\<exists>d'. range_decode_common d p q = (d', 0) \<and> tracks d' (fst (range_encode c p q)) X"
    and "symbol_boundary c p \<le> cvalue d" "cvalue d \<le> sub_high c q"
proof -
  have n: "normalised (low c) (high c)" and dec: "\<not> decodingP c"
    using inv by (auto simp: enc_inv_def enc_core_def)
  let ?n = "narrow c p q"
  obtain c' where "range_encode c p q = (c', 0)" "\<forall>X. code_in X c' \<longleftrightarrow> code_in X ?n"
    using range_encode_ok [OF inv ok room] by blast
  then have codeN: "code_in X ?n" using code by simp
  have codeC: "code_in X c" by (rule code_in_narrow [OF n ok codeN])
  have same: "low d = low c" "high d = high c" using tracks by (auto simp: tracks_def)
  then have sub: "symbol_boundary d = symbol_boundary c" "sub_high d = sub_high c"
    by (auto simp: fun_eq_iff symbol_boundary_def range_space_def sub_high_def)
  define d3 where "d3 = d\<lparr>decodingP := True, low := symbol_boundary c p, high := sub_high c q\<rparr>"
  have tr3: "tracks d3 ?n X" using tracks
    by (simp add: tracks_def d3_def narrow_def enc_pos_def enc_base_def emitted_def)
  note val = tracks_value [OF tr3 codeN]
  show hit: "symbol_boundary c p \<le> cvalue d" "cvalue d \<le> sub_high c q"
    using val by (auto simp: narrow_def d3_def)
  have eq: "range_decode_common d p q = ((fst (range_emit_stable_bits d3))\<lparr>decodingP := False\<rparr>, 0)"
    unfolding d3_def
    by (rule range_decode_common_inside)
      (use tracks_value [OF tracks codeC] n same sub hit narrow_bounds [OF n ok] in simp_all)
  have core: "enc_core ?n" "low ?n < high ?n"
    using inv narrow_bounds [OF n ok] by (auto simp: enc_inv_def enc_core_def narrow_def wf_buf_def)
  have room': "room (fst (range_emit_stable_bits ?n))"
    using room range_encode_narrow(1) [OF n ok dec] by simp
  have "decodingP d3" by (simp add: d3_def)
  from dec_stable_bits_ok [OF core room' tr3 codeN this]
  have "tracks (fst (range_emit_stable_bits d3)) (fst (range_encode c p q)) X"
    by (simp only: range_encode_narrow(1) [OF n ok dec])
  with eq show "\<exists>d'. range_decode_common d p q = (d', 0) \<and> tracks d' (fst (range_encode c p q)) X" by simp
qed

section \<open>Equiprobable symbols\<close>

abbreviation scale24 :: nat where "scale24 \<equiv> 16777215"

lemma unat_word_of_int_64: "0 \<le> x \<Longrightarrow> x < 2 ^ 64 \<Longrightarrow> unat (word_of_int x :: u64) = nat x"
  by (simp add: unsigned_of_int take_bit_eq_mod nat_mod_as_int)

lemma unat_scaled_div:
  assumes "0 \<le> x" "x \<le> 4194304" "0 < A" "A \<le> 4194304"
  shows "unat (ucast ((word_of_int x * 0xffffff :: u64) div word_of_int A) :: u32)
     = nat x * scale24 div nat A mod 4294967296"
proof -
  have "unat (word_of_int x * 0xffffff :: u64) = nat x * scale24"
    using assms by (simp add: unat_word_ariths unat_word_of_int_64)
  with assms show ?thesis by (simp add: unat_ucast_32 unat_div unat_word_of_int_64)
qed

lemma scaled_div_le:
  assumes "k \<le> A"
  shows "k * scale24 div A \<le> scale24"
proof (cases "A = 0")
  case False
  have "k * scale24 div A \<le> A * scale24 div A" using assms by (intro div_le_mono mult_le_mono1)
  with False show ?thesis by simp
qed simp

lemma unat_equiprobable_range:
  assumes "0 \<le> s" "s < A" "A < 4194304" "range_equiprobable_range A s = (p, q)"
  shows "unat p = nat s * scale24 div nat A" "unat q = (nat s + 1) * scale24 div nat A"
proof -
  have A: "0 < A" "A \<le> 4194304" "s \<le> 4194304" "0 \<le> 1 + s" "1 + s \<le> 4194304" using assms by simp_all
  have le: "nat s * scale24 div nat A \<le> scale24" "(nat s + 1) * scale24 div nat A \<le> scale24"
    using assms by (intro scaled_div_le, simp)+
  show "unat p = nat s * scale24 div nat A"
    using assms(4) unat_scaled_div [OF assms(1) A(3,1,2)] le(1)
    by (auto simp: range_equiprobable_range_def Let_def)
  have one: "(1 + word_of_int s :: u64) = word_of_int (1 + s)" by simp
  have q: "unat (ucast (((1 + word_of_int s) * 0xffffff :: u64) div word_of_int A) :: u32)
      = (nat s + 1) * scale24 div nat A"
    using unat_scaled_div [OF A(4,5,1,2)] le(2) assms(1) unfolding one
    by (simp add: nat_add_distrib)
  show "unat q = (nat s + 1) * scale24 div nat A"
  proof (cases "s = A - 1")
    case True
    then have "nat s + 1 = nat A" using assms(1) by simp
    with True assms(2,4) show ?thesis by (simp add: range_equiprobable_range_def Let_def)
  next
    case False
    with assms(4) q show ?thesis by (simp add: range_equiprobable_range_def Let_def)
  qed
qed

lemma sym_ok_equiprobable:
  assumes "0 \<le> s" "s < A" "A < 4194304" "range_equiprobable_range A s = (p, q)"
  shows "sym_ok p q" "unat q \<le> scale24"
proof -
  note pq = unat_equiprobable_range [OF assms]
  have "nat A \<le> scale24" "0 < nat A" using assms by auto
  then have "nat s * scale24 div nat A + 1 \<le> (nat s * scale24 + scale24) div nat A"
    using div_le_mono [of "nat s * scale24 + nat A" "nat s * scale24 + scale24" "nat A"] by (simp only: div_add_self2)
  moreover show "unat q \<le> scale24" unfolding pq using assms by (intro scaled_div_le) auto
  ultimately show "sym_ok p q" by (simp add: sym_ok_def pq algebra_simps)
qed

text \<open>The guess \<open>v * A div S\<close> of the decoder is the symbol or the one before it.\<close>

lemma equiprobable_guess:
  fixes S A k P Q v :: nat
  assumes S: "2 ^ 30 \<le> S" and A: "0 < A" "A < 4194304" and k: "k < A"
    and P: "P = k * scale24 div A" and Q: "Q = (k + 1) * scale24 div A"
    and v: "P * S div 2 ^ 24 \<le> v" "v < Q * S div 2 ^ 24"
  shows "v * A div S \<le> k" "k \<le> v * A div S + 1"
proof -
  have S0: "0 < S" and S': "1073741824 \<le> S" using S by simp_all
  have "Q * A \<le> (k + 1) * scale24" unfolding Q by simp
  have "(v + 1) * 2 ^ 24 \<le> Q * S"
    using v(2) less_eq_div_iff_mult_less_eq [of "2 ^ 24" "v + 1" "Q * S"] by simp
  then have "v * 2 ^ 24 < Q * S" by simp
  then have "v * 2 ^ 24 * A < Q * S * A" using A by simp
  also have "\<dots> = (Q * A) * S" by simp
  also have "\<dots> \<le> (k + 1) * scale24 * S" using \<open>Q * A \<le> _\<close> by (rule mult_le_mono1)
  also have "\<dots> \<le> (k + 1) * 2 ^ 24 * S" by simp
  finally have "v * A < (k + 1) * S" by (simp add: algebra_simps)
  then have "v * A div S < k + 1" by (simp add: less_mult_imp_div_less)
  then show "v * A div S \<le> k" by simp
  show "k \<le> v * A div S + 1"
  proof (cases k)
    case (Suc j)
    have "k * scale24 < (P + 1) * A"
      unfolding P using dividend_less_div_times [OF A(1), of "k * scale24"] by simp
    then have "k * scale24 * S \<le> (P + 1) * A * S" by (intro mult_le_mono1) simp
    moreover have "P * S \<le> (v + 1) * 2 ^ 24"
      using v(1) div_mult_mod_eq [of "P * S" "2 ^ 24"] mod_less_divisor [of "2 ^ 24" "P * S"] by simp
    then have "A * (P * S) \<le> A * ((v + 1) * 2 ^ 24)" by (rule mult_le_mono2)
    ultimately have up: "k * scale24 * S \<le> v * A * 2 ^ 24 + 2 ^ 24 * A + A * S"
      by (simp add: algebra_simps)
    have "S * scale24 + (j * S) * scale24 \<le> v * A * 16777216 + 16777216 * A + A * S"
      using up Suc by (simp add: algebra_simps)
    moreover have "j * S \<le> A * S" using k Suc by (intro mult_le_mono1) simp
    moreover have "A * S \<le> 4194303 * S" using A(2) by (intro mult_le_mono1) simp
    ultimately have "j * S \<le> v * A"
      using S' A(2) by linarith
    then have "j \<le> v * A div S" using S0 by (simp add: less_eq_div_iff_mult_less_eq)
    with Suc show ?thesis by simp
  qed simp
qed

lemma code_in_range_encode:
  assumes inv: "enc_inv c" and ok: "sym_ok p q" and room: "room (fst (range_encode c p q))"
    and code: "code_in X (fst (range_encode c p q))"
  shows "code_in X c"
proof -
  obtain c' where "range_encode c p q = (c', 0)" "\<forall>X. code_in X c' \<longleftrightarrow> code_in X (narrow c p q)"
    using range_encode_ok [OF inv ok room] by blast
  then have "code_in X (narrow c p q)" using code by simp
  with inv ok show ?thesis by (auto simp: enc_inv_def intro: code_in_narrow)
qed

lemma small_below:
  assumes "0 \<le> j" "j \<le> int (unat (s :: u32)) + 1" "unat s < 4194304"
  shows "(word_of_int j :: u32) < s + 2"
proof -
  have "j < 4294967296" using assms by linarith
  then have "unat (word_of_int j :: u32) = nat j"
    using assms(1) by (simp add: unsigned_of_int take_bit_eq_mod nat_mod_as_int)
  moreover have "unat (s + 2) = unat s + 2" using assms by (simp add: unat_word_ariths)
  moreover have "nat j < unat s + 2" using assms by linarith
  ultimately show ?thesis by (simp add: word_less_nat_alt)
qed

text \<open>The symbols below the encoded one are tried without success, then the symbol itself is found.\<close>

lemma equiprobable_loop_finds:
  assumes inv: "enc_inv c" and room: "room (fst (range_encode c p q))"
    and k: "0 \<le> j" "j \<le> k" "k < A" "A < 4194304" and pq: "range_equiprobable_range A k = (p, q)"
    and s: "unat (s :: u32) < 4194304" "k \<le> int (unat s) + 1"
    and tracks: "tracks d c X" and code: "code_in X (fst (range_encode c p q))"
  shows "\<exists>d'. decode_equiprobable_loop d A s j = (d', Some k) \<and> tracks d' (fst (range_encode c p q)) X"
  using k(1,2) tracks
proof (induction "nat (k - j)" arbitrary: j d)
  case (0 j d)
  then have j: "j = k" by simp
  have ok: "sym_ok p q" by (rule sym_ok_equiprobable [OF _ _ _ pq]) (use k 0 in auto)
  obtain d' where "range_decode_common d p q = (d', 0)" "tracks d' (fst (range_encode c p q)) X"
    using range_decode_common_hit(1) [OF inv ok room 0(4) code] by blast
  moreover have "(word_of_int k :: u32) < s + 2" by (rule small_below) (use k s 0 in auto)
  ultimately show ?case unfolding j using pq k
    by (subst decode_equiprobable_loop.simps) simp
next
  case (Suc n j d)
  obtain p' q' where pq': "range_equiprobable_range A j = (p', q')" by fastforce
  have n: "normalised (low c) (high c)" using inv by (simp add: enc_inv_def)
  have lt: "j < k" using Suc by auto
  have ok: "sym_ok p q" "sym_ok p' q'" "unat q' \<le> scale24"
    using sym_ok_equiprobable [OF _ _ _ pq] sym_ok_equiprobable [OF _ _ _ pq'] k Suc lt by auto
  have "unat q' \<le> unat p"
    using unat_equiprobable_range(1) [OF _ _ _ pq] unat_equiprobable_range(2) [OF _ _ _ pq'] k Suc.prems lt
    by (auto intro!: div_le_mono mult_le_mono1)
  then have "symbol_boundary c q' \<le> symbol_boundary c p"
    using boundary_mono [OF n] ok by (auto simp: sym_ok_def)
  moreover have "sub_high c q' < symbol_boundary c q'"
    using unat_sub_high [OF n ok(2)] ok(3) by (simp add: word_less_nat_alt)
  moreover have "symbol_boundary c p \<le> cvalue d"
    by (rule range_decode_common_hit(2) [OF inv ok(1) room Suc.prems(3) code])
  ultimately have "sub_high c q' < cvalue d" by simp
  moreover have "code_in X c" by (rule code_in_range_encode [OF inv ok(1) room code])
  ultimately have miss: "range_decode_common d p' q' = (d\<lparr>decodingP := True\<rparr>, -1)"
    using range_decode_common_miss [OF n Suc.prems(3)] by blast
  have "(word_of_int j :: u32) < s + 2" by (rule small_below) (use k s Suc.prems lt in auto)
  then have "decode_equiprobable_loop d A s j = decode_equiprobable_loop (d\<lparr>decodingP := True\<rparr>) A s (j + 1)"
    using miss pq' lt k by (subst decode_equiprobable_loop.simps) simp
  with Suc.hyps(1) [of "j + 1" "d\<lparr>decodingP := True\<rparr>"] Suc lt show ?case by auto
qed

lemma codec_rangeI:
  assumes ok: "sym_ok p q"
    and dec: "\<And>c d X. enc_inv c \<Longrightarrow> room (fst (range_encode c p q)) \<Longrightarrow> tracks d c X \<Longrightarrow>
      code_in X (fst (range_encode c p q)) \<Longrightarrow>
      \<exists>d'. dec d = Some (d', x) \<and> tracks d' (fst (range_encode c p q)) X"
  shows "rc.codec (\<lambda>c. Some (range_encode c p q)) dec x"
proof (rule rc.codecI)
  fix c
  obtain c' r where c': "range_encode c p q = (c', r)" by fastforce
  have "r = 0 \<and> enc_inv c'" if "enc_inv c" "room c'"
    using range_encode_ok [OF that(1) ok] that(2) c' by auto
  moreover have "rc.follows c c' dec x" if "enc_inv c" "room c'"
    using that dec [of c] code_in_range_encode [OF that(1) ok] c' unfolding rc.follows_def by auto
  ultimately show "\<exists>c' r. Some (range_encode c p q) = Some (c', r) \<and> enc_step c c' \<and>
      (enc_inv c \<and> room c' \<longrightarrow> r = 0 \<and> enc_inv c' \<and> rc.follows c c' dec x)"
    using c' enc_step_range_encode [of c p q] by auto
qed

text \<open>What the decoder computes from a value inside the encoded symbol's interval.\<close>

lemma decode_equiprobable_start:
  assumes inv: "enc_inv c" and room: "room (fst (range_encode c p q))" and tracks: "tracks d c X"
    and code: "code_in X (fst (range_encode c p q))"
    and k: "0 \<le> k" "k < A" "A < 4194304" and pq: "range_equiprobable_range A k = (p, q)"
  defines "s \<equiv> ucast ((ucast (cvalue d - low d) :: u64) * word_of_int A div range_space d) :: u32"
  shows "int (unat s) \<le> k" "k \<le> int (unat s) + 1"
proof -
  have n: "normalised (low c) (high c)" using inv by (simp add: enc_inv_def)
  have same: "low d = low c" "high d = high c" using tracks by (auto simp: tracks_def)
  then have sp: "range_space d = range_space c" by (simp add: range_space_def)
  have ok: "sym_ok p q" "unat q \<le> scale24"
    using sym_ok_equiprobable [OF _ _ _ pq] k by auto
  note hit = range_decode_common_hit(2,3) [OF inv ok(1) room tracks code]
  let ?S = "unat (range_space c)"
  define v where "v = unat (cvalue d) - unat (low c)"
  have P: "unat (symbol_boundary c p) = unat (low c) + unat p * ?S div 2 ^ 24"
    and Q: "unat (symbol_boundary c q) = unat (low c) + unat q * ?S div 2 ^ 24"
    using unat_symbol_boundary(1) [OF n] ok by (auto simp: sym_ok_def)
  have lev: "low d \<le> cvalue d" using hit(1) P by (simp add: word_le_nat_alt same)
  have sh: "unat (sub_high c q) + 1 = unat (symbol_boundary c q)"
    using unat_sub_high [OF n ok(1)] ok(2) by simp
  have v: "unat p * ?S div 2 ^ 24 \<le> v" "v < unat q * ?S div 2 ^ 24"
    using hit P Q sh unfolding word_le_nat_alt v_def by linarith+
  have "nat k < nat A" "0 < nat A" "nat A < 4194304" using k by auto
  from equiprobable_guess [OF normalised_space(1) [OF n] this(2,3,1) _ _ v]
  have guess: "v * nat A div ?S \<le> nat k" "nat k \<le> v * nat A div ?S + 1"
    using unat_equiprobable_range [OF k pq] by simp_all
  have "unat (cvalue d - low d) = v" using unat_sub [OF lev] by (simp add: v_def same)
  moreover have "v < 4294967296" unfolding v_def by (rule less_imp_diff_less) simp
  then have "v * nat A < 4294967296 * 4194304" using k by (intro mult_strict_mono) auto
  ultimately have "unat s = v * nat A div ?S mod 4294967296"
    using k by (simp add: s_def sp unat_ucast_32 unat_div unat_word_ariths(2) unat_word_of_int_64)
  moreover have "nat k < 4294967296" using k by simp
  ultimately show "int (unat s) \<le> k" "k \<le> int (unat s) + 1" using guess k(1) by auto
qed

lemma sint_small_32:
  assumes "unat (w :: u32) < 2147483648"
  shows "sint w = int (unat w)"
proof -
  have "uint w = int (unat w)" by simp
  then have "uint w < 2147483648" using assms by linarith
  moreover have "- 2147483648 \<le> uint w" by (rule order_trans [of _ 0]) simp_all
  ultimately have "signed_take_bit 31 (uint w) = uint w" by (intro signed_take_bit_int_eq_self) simp_all
  moreover have "sint w = signed_take_bit 31 (uint w)" unfolding sint_uint by simp
  ultimately show ?thesis by simp
qed

lemma and_ffff: "(k :: int) AND 65535 = k mod 65536"
proof -
  have "(65535 :: int) = mask 16" by (simp add: mask_eq_exp_minus_1)
  then show ?thesis by (simp only: take_bit_eq_mask [symmetric] take_bit_eq_mod) simp
qed

lemma codec_equiprobable_small:
  assumes k: "0 \<le> k" "k < A" "A < 4194304"
  shows "rc.codec (\<lambda>c. Some (range_encode_equiprobable c A k)) (\<lambda>d. Some (range_decode_equiprobable d A)) k"
proof -
  obtain p q where pq: "range_equiprobable_range A k = (p, q)" by fastforce
  have "range_encode_equiprobable c A k = range_encode c p q" for c
    using k pq by (subst range_encode_equiprobable.simps) simp
  moreover have "rc.codec (\<lambda>c. Some (range_encode c p q)) (\<lambda>d. Some (range_decode_equiprobable d A)) k"
  proof (rule codec_rangeI)
    show "sym_ok p q" by (rule sym_ok_equiprobable [OF k pq])
    fix c d X
    assume a: "enc_inv c" "room (fst (range_encode c p q))" "tracks d c X" "code_in X (fst (range_encode c p q))"
    define s :: u32 where "s = ucast ((ucast (cvalue d - low d) :: u64) * word_of_int A div range_space d)"
    note g = decode_equiprobable_start [OF a k pq, folded s_def]
    define first where "first = (if s \<noteq> 0 then sint (s - 1) else 0)"
    have small: "unat s < 4194304" using g(1) k by linarith
    have "sint (s - 1) = int (unat s) - 1 \<and> 0 < unat s" if "s \<noteq> 0"
    proof -
      have "unat (s - 1) = unat s - 1" "0 < unat s" using that by (simp_all add: unat_minus_one unat_gt_0)
      with small sint_small_32 [of "s - 1"] show ?thesis by linarith
    qed
    then have "first = 0 \<or> first = int (unat s) - 1 \<and> 0 < unat s" by (simp add: first_def)
    then have "0 \<le> first" "first \<le> k" using g(1) k(1) by linarith+
    then obtain d' where
      d': "decode_equiprobable_loop d A s first = (d', Some k)" "tracks d' (fst (range_encode c p q)) X"
      using equiprobable_loop_finds [OF a(1,2) _ _ k(2,3) pq small g(2) a(3,4)] by blast
    from d'(1) have "range_decode_equiprobable d A = (d', k)"
      using k by (subst range_decode_equiprobable.simps)
        (simp only: Let_def s_def [symmetric] first_def [symmetric] if_False linorder_not_le not_less, simp)
    with d'(2) show "\<exists>d'. Some (range_decode_equiprobable d A) = Some (d', k) \<and>
        tracks d' (fst (range_encode c p q)) X" by simp
  qed
  ultimately show ?thesis by simp
qed

text \<open>An alphabet of \<open>2 ^ 22\<close> symbols or more is coded in two halves of at most 16 bits.\<close>

lemma join_halves:
  assumes "0 \<le> k" "k < 2 ^ 31"
  shows "sint ((word_of_int (k mod 65536) :: u32) OR push_bit 16 (word_of_int (k div 65536))) = k"
proof -
  have "(word_of_int (k mod 65536) :: u32) OR push_bit 16 (word_of_int (k div 65536))
      = word_of_int (take_bit 16 k OR push_bit 16 (drop_bit 16 k))"
    by (simp add: of_int_or_eq of_int_push_bit take_bit_eq_mod drop_bit_eq_div)
  also have "take_bit 16 k OR push_bit 16 (drop_bit 16 k) = k"
    by (rule bit_eqI, rename_tac n, case_tac "n < 16") (auto simp: bit_simps)
  finally have "sint ((word_of_int (k mod 65536) :: u32) OR push_bit 16 (word_of_int (k div 65536)))
      = sint (word_of_int k :: u32)" by (rule arg_cong)
  also have "\<dots> = k" using assms
    by (subst sint_small_32) (simp_all add: unsigned_of_int take_bit_eq_mod)
  finally show ?thesis .
qed

theorem codec_equiprobable:
  assumes k: "0 \<le> k" "k < A" "A < 2 ^ 31"
  shows "rc.codec (\<lambda>c. Some (range_encode_equiprobable c A k)) (\<lambda>d. Some (range_decode_equiprobable d A)) k"
proof (cases "A < 4194304")
  case True
  with k codec_equiprobable_small show ?thesis by blast
next
  case False
  let ?h = "1 + A div 65536"
  have h: "0 \<le> k div 65536" "k div 65536 < ?h" "?h < 4194304" "0 \<le> k mod 65536" "k mod 65536 < 65536"
    using k zdiv_mono1 [of k A 65536] by simp_all
  note hi = codec_equiprobable_small [OF h(1-3)] and lo = codec_equiprobable_small [OF h(4,5)]
  let ?join = "\<lambda>hi lo. sint ((word_of_int lo :: u32) OR push_bit 16 (word_of_int hi))"
  have "rc.codec (\<lambda>c. Some (range_encode_equiprobable c 65536 (k mod 65536)))
      (\<lambda>d. map_option (\<lambda>(d', lo). (d', ?join (k div 65536) lo)) (Some (range_decode_equiprobable d 65536))) k"
    by (rule rc.codec_dec_mono [OF lo]) (use k join_halves in simp_all)
  then have "rc.codec (\<lambda>c. map_option (\<lambda>(c', r). (c', 0)) (Some (range_encode_equiprobable c 65536 (k mod 65536))))
      (\<lambda>d. map_option (\<lambda>(d', lo). (d', ?join (k div 65536) lo)) (Some (range_decode_equiprobable d 65536))) k"
    by (rule rc.codec_code) simp
  note both = rc.codec_seq [OF hi, where ?dec2.0 = "\<lambda>hi d. map_option (\<lambda>(d', lo). (d', ?join hi lo)) (Some (range_decode_equiprobable d 65536))", OF this]
  have "c_div k 65536 = k div 65536" "k AND 65535 = k mod 65536"
    using k by (simp_all add: and_ffff)
  then have enc: "Some (range_encode_equiprobable c A k) =
      Option.bind (Some (range_encode_equiprobable c ?h (k div 65536))) (\<lambda>(c1, r).
        map_option (\<lambda>(c', r). (c', 0)) (Some (range_encode_equiprobable c1 65536 (k mod 65536))))" for c
    using False by (subst range_encode_equiprobable.simps) (simp add: Let_def split: prod.split)
  have dec: "Some (range_decode_equiprobable d A) =
      Option.bind (Some (range_decode_equiprobable d ?h)) (\<lambda>(d1, hi).
        map_option (\<lambda>(d', lo). (d', ?join hi lo)) (Some (range_decode_equiprobable d1 65536)))" for d
    using False by (subst range_decode_equiprobable.simps) (simp add: Let_def split: prod.split)
  show ?thesis unfolding enc dec by (rule both)
qed

section \<open>Symbols of a cumulative frequency table\<close>

definition table_low :: "u32 list \<Rightarrow> int \<Rightarrow> u32" where
  "table_low f k = (if k > 0 then f ! nat (k - 1) else 0)"

definition table_high :: "u32 list \<Rightarrow> int \<Rightarrow> int \<Rightarrow> u32" where
  "table_high f A k = (if k < A - 1 then f ! nat k else MAXVALUEPLUS1)"

text \<open>A table that can code the symbol \<open>k\<close> of an alphabet of \<open>A\<close> symbols: it holds the \<open>A - 1\<close> inner
  boundaries in order, below the top of the scale, and leaves \<open>k\<close> a non-empty range.\<close>

definition table_ok :: "u32 list \<Rightarrow> int \<Rightarrow> int \<Rightarrow> bool" where
  "table_ok f A k \<longleftrightarrow> 0 \<le> k \<and> k < A \<and> nat (A - 1) \<le> length f \<and> sorted (take (nat (A - 1)) f) \<and>
     (k < A - 1 \<longrightarrow> f ! nat k < MAXVALUEPLUS1) \<and> table_low f k < table_high f A k"

lemma table_ok_sym:
  assumes "table_ok f A k"
  shows "sym_ok (table_low f k) (table_high f A k)"
  using assms by (auto simp: table_ok_def sym_ok_def table_high_def word_less_nat_alt)

lemma table_ok_below:
  assumes "table_ok f A k" "0 \<le> i" "i < k"
  shows "f ! nat i \<le> table_low f k"
proof -
  have "sorted (take (nat (A - 1)) f)" "nat i \<le> nat (k - 1)" "nat (k - 1) < length (take (nat (A - 1)) f)"
    using assms by (auto simp: table_ok_def)
  from sorted_nth_mono [OF this] show ?thesis using assms by (auto simp: table_low_def table_ok_def)
qed

lemma symbol_search_finds:
  assumes "0 \<le> j" "j \<le> k" "k < A"
    and below: "\<And>i. 0 \<le> i \<Longrightarrow> i < k \<Longrightarrow> symbol_boundary d (f ! nat i) \<le> cvalue d"
    and at: "k < A - 1 \<Longrightarrow> cvalue d < symbol_boundary d (f ! nat k)"
  shows "decode_symbol_search d f A j = k"
  using assms(1,2)
proof (induction "nat (k - j)" arbitrary: j)
  case 0
  then have "j = k" by simp
  with at assms(3) show ?case by (subst decode_symbol_search.simps) auto
next
  case (Suc n)
  then have "j < k" by auto
  with Suc below [of j] assms(3) have "decode_symbol_search d f A j = decode_symbol_search d f A (j + 1)"
    by (subst decode_symbol_search.simps) auto
  with Suc \<open>j < k\<close> show ?case by auto
qed

theorem codec_symbol:
  assumes ok: "table_ok f A k"
  shows "rc.codec (\<lambda>c. range_encode_symbol c f A k) (\<lambda>d. Some (range_decode_symbol d f A)) k"
proof -
  let ?p = "table_low f k" and ?q = "table_high f A k"
  note sym = table_ok_sym [OF ok]
  have k: "0 \<le> k" "k < A" using ok by (auto simp: table_ok_def)
  have enc: "range_encode_symbol c f A k =
      (if errors c = 0 then Some (range_encode c ?p ?q) else Some (c, -1))" for c
    using k by (auto simp: range_encode_symbol_def table_low_def table_high_def Let_def)
  have "rc.codec (\<lambda>c. Some (range_encode c ?p ?q)) (\<lambda>d. Some (range_decode_symbol d f A)) k"
  proof (rule codec_rangeI [OF sym])
    fix c d0 X
    assume a: "enc_inv c" "room (fst (range_encode c ?p ?q))" "tracks d0 c X"
      "code_in X (fst (range_encode c ?p ?q))"
    define d where "d = d0\<lparr>decodingP := False\<rparr>"
    have tr: "tracks d c X" using a(3) by (simp add: d_def)
    note hit = range_decode_common_hit [OF a(1) sym a(2) tr a(4)]
    have n: "normalised (low c) (high c)" using a(1) by (simp add: enc_inv_def)
    have bound: "symbol_boundary d = symbol_boundary c"
      using tr by (auto simp: tracks_def fun_eq_iff symbol_boundary_def range_space_def)
    have "decode_symbol_search d f A 0 = k"
    proof (rule symbol_search_finds)
      fix i assume "0 \<le> i" "i < k"
      from table_ok_below [OF ok this] sym have "symbol_boundary c (f ! nat i) \<le> symbol_boundary c ?p"
        by (intro boundary_mono [OF n]) (auto simp: word_le_nat_alt sym_ok_def)
      with hit(2) show "symbol_boundary d (f ! nat i) \<le> cvalue d" by (simp add: bound)
    next
      assume last: "k < A - 1"
      then have "?q = f ! nat k" "unat ?q < 2 ^ 24"
        using ok by (auto simp: table_high_def table_ok_def word_less_nat_alt)
      with unat_sub_high [OF n sym] hit(3) show "cvalue d < symbol_boundary d (f ! nat k)"
        unfolding bound word_less_nat_alt word_le_nat_alt by simp
    qed (use k in auto)
    with hit(1) show "\<exists>d'. Some (range_decode_symbol d0 f A) = Some (d', k) \<and>
        tracks d' (fst (range_encode c ?p ?q)) X"
      by (auto simp: range_decode_symbol_def Let_def d_def [symmetric] table_low_def table_high_def)
  qed
  then show ?thesis unfolding enc
    by (rule rc.codec_guard) (simp add: enc_inv_def enc_core_def)
qed

end
