(* ===== verification/RangeStream.thy ===== *)
theory RangeStream
  imports RangeSymbols
begin

text \<open>
  Whole streams: a fresh coder stands for every stream, \<^const>\<open>range_conclude\<close> writes at most 32 more
  bits than are pending and they select streams of the final state whatever is appended, and
  \<^const>\<open>range_decode_prefetch\<close> starts a decoder where the encoder started. Together with the \<open>codec\<close>
  contract this gives the round trip of everything the compressors write.
\<close>

section \<open>The first state\<close>

lemma range_new_coder_inv:
  assumes "8 * bytes < 2 ^ 31"
  shows "enc_inv (range_new_coder junk bytes)"
  using assms
  by (simp add: range_new_coder_def range_coder_reset_def enc_inv_def enc_core_def wf_buf_def normalised_def)

lemma code_in_new_coder: "code_in X (range_new_coder junk bytes)"
  using pre_val_bound [of X 32]
  by (simp add: code_in_def enc_base_def enc_pos_def range_new_coder_def range_coder_reset_def emitted_def)

lemma prefetch_loop_frame:
  assumes "bits_used d + n < 2 ^ 32"
  shows "prefetch_loop n d = d\<lparr>cvalue := cvalue (prefetch_loop n d), bits_used := bits_used d + n\<rparr>"
  using assms
proof (induction n arbitrary: d)
  case (Suc n)
  let ?d = "d\<lparr>bits_used := Suc (bits_used d), cvalue := push_bit 1 (cvalue d) OR of_bool (dec_bits d (bits_used d))\<rparr>"
  have "prefetch_loop (Suc n) d = prefetch_loop n ?d"
    using Suc.prems getnextbit_eq [of d] by (simp del: push_bit_Suc One_nat_def)
  with Suc.IH [of ?d] Suc.prems show ?case by simp
qed simp

lemma prefetch_loop_value:
  assumes "k + n \<le> 32" "bits_used d = k" "unat (cvalue d) = pre_val (dec_bits d) k"
  shows "unat (cvalue (prefetch_loop n d)) = pre_val (dec_bits d) (k + n)"
  using assms
proof (induction n arbitrary: d k)
  case (Suc n)
  let ?d = "d\<lparr>bits_used := Suc (bits_used d), cvalue := push_bit 1 (cvalue d) OR of_bool (dec_bits d (bits_used d))\<rparr>"
  have step: "prefetch_loop (Suc n) d = prefetch_loop n ?d"
    using Suc.prems getnextbit_eq [of d] by (simp del: push_bit_Suc One_nat_def)
  have "pre_val (dec_bits d) k < 2 ^ k" by (rule pre_val_bound)
  also have "(2::nat) ^ k \<le> 2 ^ 31" using Suc.prems(1) by (intro power_increasing) auto
  finally have "unat (cvalue ?d) = pre_val (dec_bits ?d) (Suc k)"
    using Suc.prems unat_shift_in [of "cvalue d" "dec_bits d k"] by (simp del: push_bit_Suc One_nat_def)
  from Suc.IH [OF _ _ this] Suc.prems step show ?case by simp
qed simp

lemma range_decode_prefetch_tracks:
  assumes "bits_used d = 0" "\<not> norescale d"
  shows "tracks (range_decode_prefetch d) (range_new_coder junk bytes) (dec_bits d)"
proof -
  let ?d = "d\<lparr>low := 0, high := 0xffffffff, cvalue := 0\<rparr>"
  have "dec_bits ?d = dec_bits d" by simp
  then have "unat (cvalue (prefetch_loop 32 ?d)) = pre_val (dec_bits d) 32"
    using prefetch_loop_value [of 0 32 ?d] assms by (simp del: prefetch_loop.simps)
  moreover have "prefetch_loop 32 ?d = ?d\<lparr>cvalue := cvalue (prefetch_loop 32 ?d), bits_used := 32\<rparr>"
    using prefetch_loop_frame [of ?d 32] assms by (simp del: prefetch_loop.simps)
  ultimately obtain v where "range_decode_prefetch d = ?d\<lparr>cvalue := v, bits_used := 32\<rparr>"
    "unat v = pre_val (dec_bits d) 32"
    unfolding range_decode_prefetch_def by metis
  with assms show ?thesis
    by (simp add: tracks_def enc_base_def enc_pos_def range_new_coder_def range_coder_reset_def emitted_def)
qed

section \<open>Ending a stream\<close>

text \<open>What the search of \<^const>\<open>range_conclude\<close> finds: a number of bits, 31 at most, such that all numbers
  that share that many leading bits with the mean lie in the interval.\<close>

lemma unat_top_bits:
  assumes "bits \<le> 32"
  shows "unat (push_bit (32 - bits) (drop_bit (32 - bits) (w :: u32))) = unat w div 2 ^ (32 - bits) * 2 ^ (32 - bits)"
proof -
  have "unat w div 2 ^ (32 - bits) * 2 ^ (32 - bits) \<le> unat w" by simp
  then have "unat w div 2 ^ (32 - bits) * 2 ^ (32 - bits) < 4294967296" using unat_lt_32 [of w] by linarith
  then show ?thesis
    by (simp only: unsigned_push_bit_eq unat_drop_bit_nat) (simp add: push_bit_eq_mult take_bit_eq_mod)
qed

lemma unat_low_mask:
  assumes "bits \<le> 32"
  shows "unat (drop_bit bits 0xffffffff :: u32) = 2 ^ (32 - bits) - 1"
proof -
  have "(0xffffffff :: u32) = mask 32" by (simp add: mask_eq_decr_exp)
  then have "unat (drop_bit bits 0xffffffff :: u32) = (2 ^ 32 - 1) div 2 ^ bits"
    by (simp only: unat_drop_bit_nat) simp
  also have "\<dots> = drop_bit bits (mask 32 :: nat)" by (simp only: drop_bit_eq_div mask_eq_exp_minus_1)
  also have "\<dots> = mask (32 - bits)" by (rule drop_bit_mask_eq)
  also have "\<dots> = 2 ^ (32 - bits) - 1" by (rule mask_eq_exp_minus_1)
  finally show ?thesis .
qed

lemma unat_block_top:
  assumes "bits \<le> 32"
  shows "unat (push_bit (32 - bits) (drop_bit (32 - bits) (w :: u32)) + drop_bit bits 0xffffffff)
     = unat w div 2 ^ (32 - bits) * 2 ^ (32 - bits) + (2 ^ (32 - bits) - 1)"
proof -
  let ?p = "2 ^ (32 - bits) :: nat"
  have "unat w < 2 ^ 32" by simp
  also have "(2 :: nat) ^ 32 = 2 ^ bits * ?p" using assms by (simp flip: power_add)
  finally have "unat w div ?p < 2 ^ bits" by (simp add: less_mult_imp_div_less)
  then have "(unat w div ?p + 1) * ?p \<le> 2 ^ bits * ?p" by (intro mult_le_mono1) simp
  also have "\<dots> = 2 ^ 32" using assms by (simp flip: power_add)
  finally have "unat w div ?p * ?p + ?p \<le> 4294967296" by simp
  moreover have "0 < ?p" by simp
  ultimately have "unat w div ?p * ?p + (?p - 1) < 4294967296" by linarith
  then show ?thesis
    by (simp only: unat_word_ariths(1) unat_top_bits [OF assms] unat_low_mask [OF assms]) simp
qed

definition block_inside :: "nat \<Rightarrow> nat \<Rightarrow> nat \<Rightarrow> nat \<Rightarrow> bool" where
  "block_inside lo hi x n \<longleftrightarrow> lo \<le> x div 2 ^ (32 - n) * 2 ^ (32 - n) \<and>
     x div 2 ^ (32 - n) * 2 ^ (32 - n) + (2 ^ (32 - n) - 1) \<le> hi"

lemma conclude_search_ok:
  assumes lh: "even (unat lo)" "odd (unat hi)" "lo \<le> mean" "mean \<le> hi"
    and v: "bits \<le> 31" "v = push_bit (32 - bits) (drop_bit (32 - bits) mean)" "m = drop_bit bits 0xffffffff"
  shows "\<exists>n \<le> 31. conclude_search lo hi mean bits v m = Some n \<and> block_inside (unat lo) (unat hi) (unat mean) n"
  using v
proof (induction "31 - bits" arbitrary: bits v m)
  case (0 bits v m)
  then have b: "bits = 31" by simp
  have "unat lo \<le> unat mean div 2 * 2" "unat mean div 2 * 2 + 1 \<le> unat hi"
    using lh unfolding word_le_nat_alt by presburger+
  then have "block_inside (unat lo) (unat hi) (unat mean) 31" by (simp add: block_inside_def)
  moreover from this have "\<not> (v < lo \<or> v + m > hi)"
    using unat_top_bits [of 31 mean] unat_block_top [of 31 mean] 0 b
    by (simp only: word_less_nat_alt block_inside_def) simp
  ultimately show ?case using b by (subst conclude_search.simps) auto
next
  case (Suc k bits v m)
  have iff: "(v < lo \<or> v + m > hi) \<longleftrightarrow> \<not> block_inside (unat lo) (unat hi) (unat mean) bits"
    using unat_top_bits [of bits mean] unat_block_top [of bits mean] Suc.prems
    by (simp only: word_less_nat_alt block_inside_def) auto
  show ?case
  proof (cases "v < lo \<or> v + m > hi")
    case True
    have next_bits: "k = 31 - (bits + 1)" "bits + 1 \<le> 31" using Suc.hyps(2) by simp_all
    have "conclude_search lo hi mean bits v m = conclude_search lo hi mean (bits + 1)
        (push_bit (32 - (bits + 1)) (drop_bit (32 - (bits + 1)) mean)) (drop_bit (bits + 1) 0xffffffff)"
      using True next_bits(2) by (subst conclude_search.simps) (simp only: Let_def if_True, simp)
    with Suc.hyps(1) [OF next_bits refl refl] show ?thesis by simp
  next
    case False
    then have "conclude_search lo hi mean bits v m = Some bits"
      by (subst conclude_search.simps) (simp only: if_False)
    with iff False Suc.prems(1) show ?thesis by auto
  qed
qed

text \<open>The interval \<^const>\<open>range_conclude\<close> goes on with after its first bit.\<close>

lemma unat_set_top: "unat ((w :: u32) OR 0x80000000) = unat w mod 2147483648 + 2147483648"
proof -
  have top: "(0x80000000 :: u32) = push_bit 31 1" by (simp add: push_bit_eq_mult)
  have "w OR 0x80000000 = (w AND mask 31) OR 0x80000000"
    unfolding top by (rule bit_word_eqI) (simp only: bit_simps, auto)
  moreover have m: "unat (w AND mask 31) = unat w mod 2147483648" by (simp only: unat_and_mask) simp
  ultimately show ?thesis using unat_or_top [of "w AND mask 31"] by simp
qed

lemma unat_conclude_high:
  assumes "2147483648 \<le> unat (h :: u32)"
  shows "unat (push_bit 1 h OR 0x80000001) = 2147483648 + (2 * unat h + 1 - 4294967296) mod 2147483648"
proof -
  have "push_bit 1 h OR 0x80000001 = (push_bit 1 h OR 1) OR 0x80000000"
    by (simp add: or.assoc del: push_bit_Suc One_nat_def)
  then show ?thesis using assms by (simp only: unat_set_top unat_shift_out_1) simp
qed

lemma unat_conclude_low:
  assumes "unat (l :: u32) < 2147483648"
  shows "unat (push_bit 1 l AND 0x7fffffff) = 2 * unat l mod 2147483648"
proof -
  have "(0x7fffffff :: u32) = mask 31" by (simp add: mask_eq_decr_exp)
  then show ?thesis using assms by (simp only: unat_and_mask unat_shift_out) simp
qed

lemma unat_mean:
  assumes "l \<le> (h :: u32)"
  shows "unat ((h - l) div 2 + l) = (unat l + unat h) div 2"
proof -
  have le: "unat l \<le> unat h" using assms by (simp add: word_le_nat_alt)
  have "unat ((h - l) div 2) = (unat h - unat l) div 2" using assms by (simp add: unat_div unat_sub)
  moreover have "(unat h - unat l) div 2 + unat l = (unat l + unat h) div 2" using le by presburger
  moreover have "(unat l + unat h) div 2 < 4294967296" using unat_lt_32 [of l] unat_lt_32 [of h] by linarith
  ultimately show ?thesis by (simp add: unat_word_ariths(1))
qed

lemma conclude_interval:
  fixes l h l3 h3 :: u32
  assumes n: "normalised l h"
  defines "msb \<equiv> bit ((h - l) div 2 + l) 31"
    and "l3 \<equiv> push_bit 1 l AND 0x7fffffff" and "h3 \<equiv> push_bit 1 h OR 0x80000001"
  shows "even (unat l3)" "odd (unat h3)" "l3 < h3"
    "2 * unat l \<le> (if msb then 4294967296 else 0) + unat l3"
    "(if msb then 4294967296 else 0) + unat h3 \<le> 2 * unat h + 1"
proof -
  let ?l = "unat l" and ?h = "unat h"
  have b: "?l < 2147483648" "2147483648 \<le> ?h" "\<not> (1073741824 \<le> ?l \<and> ?h < 3221225472)"
    using n by (simp_all add: normalised_def)
  have l3: "unat l3 = 2 * ?l mod 2147483648" unfolding l3_def by (rule unat_conclude_low [OF b(1)])
  have h3: "unat h3 = 2147483648 + (2 * ?h + 1 - 4294967296) mod 2147483648"
    unfolding h3_def by (rule unat_conclude_high [OF b(2)])
  have hb: "?h < 4294967296" by simp
  have msb: "msb \<longleftrightarrow> 2147483648 \<le> (?l + ?h) div 2"
    unfolding msb_def bit_31_iff using normalised_order [OF n] by (simp add: unat_mean)
  show "even (unat l3)" unfolding l3 by (simp add: dvd_mod)
  have "2 * ?h + 1 - 4294967296 = 2 * (?h - 2147483648) + 1" using b(2) by simp
  then show "odd (unat h3)" unfolding h3 by (simp add: dvd_mod_iff)
  have small: "unat l3 < 2147483648" unfolding l3 by simp
  then show "l3 < h3" unfolding word_less_nat_alt h3 by linarith
  show "2 * unat l \<le> (if msb then 4294967296 else 0) + unat l3"
  proof (cases msb)
    case False
    then have "?l < 1073741824" using msb b by linarith
    with False l3 show ?thesis by simp
  qed (use b in simp)
  show "(if msb then 4294967296 else 0) + unat h3 \<le> 2 * unat h + 1"
  proof (cases msb)
    case True
    then have "3221225472 \<le> ?h" using msb b by linarith
    moreover from this have "2 * ?h + 1 - 6442450944 < 2147483648" using hb by linarith
    ultimately have "(2 * ?h + 1 - 4294967296) mod 2147483648 = 2 * ?h + 1 - 6442450944"
      by (simp add: le_mod_geq)
    with True h3 \<open>3221225472 \<le> ?h\<close> show ?thesis by simp
  next
    case False
    have "unat h3 \<le> 2 * ?h + 1" using unat_lt_32 [of h3] b(2) by linarith
    with False show ?thesis by simp
  qed
qed

lemma range_emit_list_ok:
  assumes "wf_buf c" "bits_used c + length bs \<le> bit_stream_length c"
  shows "\<exists>c'. range_emit_list c bs = (c', 0) \<and> wf_buf c' \<and> bits_used c' = bits_used c + length bs \<and>
     emitted c' = emitted c * 2 ^ length bs + pre_val (\<lambda>i. bs ! i) (length bs)"
  using assms
proof (induction bs arbitrary: c)
  case (Cons b bs)
  then obtain c1 where c1: "range_emitbit c b = (c1, 0)" "wf_buf c1" "bits_used c1 = Suc (bits_used c)"
    "emitted c1 = 2 * emitted c + of_bool b" "regs c1 = regs c"
    using range_emitbit_ok [of c b] by auto
  have "bits_used c1 + length bs \<le> bit_stream_length c1"
    using c1 Cons.prems by (simp add: regs_eq_iff)
  from Cons.IH [OF c1(2) this] obtain c' where c': "range_emit_list c1 bs = (c', 0)" "wf_buf c'"
    "bits_used c' = bits_used c1 + length bs"
    "emitted c' = emitted c1 * 2 ^ length bs + pre_val (\<lambda>i. bs ! i) (length bs)" by blast
  have "pre_val (\<lambda>i. (b # bs) ! i) (1 + length bs) = of_bool b * 2 ^ length bs + pre_val (\<lambda>i. bs ! i) (length bs)"
    unfolding pre_val_add by simp
  with c1 c' show ?case by (simp add: algebra_simps)
qed simp

lemma range_emit_list_fits:
  assumes "range_emit_list c bs = (c', 0)" "bits_used c \<le> bit_stream_length c"
  shows "bits_used c + length bs \<le> bit_stream_length c"
  using assms
proof (induction bs arbitrary: c)
  case (Cons b bs)
  show ?case
  proof (cases "bits_used c < bit_stream_length c")
    case True
    obtain c1 where c1: "range_emitbit c b = (c1, 0)" "bits_used c1 = Suc (bits_used c)"
      "bit_stream_length c1 = bit_stream_length c"
      using True by (auto simp: range_emitbit_def Let_def)
    with Cons.IH [of c1] Cons.prems True show ?thesis by simp
  qed (use Cons.prems in \<open>simp add: range_emitbit_fail\<close>)
qed simp

lemma pre_val_word_bits:
  assumes "n \<le> 32"
  shows "pre_val (\<lambda>i. bit (w :: u32) (31 - i)) n = unat w div 2 ^ (32 - n)"
  using assms
proof (induction n)
  case 0
  show ?case by simp
next
  case (Suc n)
  define k where "k = 31 - n"
  have k: "32 - n = Suc k" "32 - Suc n = k" using Suc.prems by (auto simp: k_def)
  have "unat w div 2 ^ k = 2 * (unat w div 2 ^ k div 2) + unat w div 2 ^ k mod 2" by simp
  also have "unat w div 2 ^ k div 2 = unat w div 2 ^ Suc k" by (simp only: div_mult2_eq [symmetric] power_Suc2)
  also have "unat w div 2 ^ k mod 2 = of_bool (bit w k)" by (simp add: bit_word_nat mod_2_eq_odd)
  finally have "unat w div 2 ^ k = 2 * (unat w div 2 ^ Suc k) + of_bool (bit w k)" .
  with Suc k show ?case by (simp add: k_def)
qed

lemma top_bits_of_mean:
  assumes "n \<le> 31"
  shows "pre_val (\<lambda>i. map (\<lambda>i. bit (push_bit (32 - n) (drop_bit (32 - n) (w :: u32))
      OR drop_bit n 0xffffffff) (31 - i)) [0..<n] ! i) n = unat w div 2 ^ (32 - n)"
proof -
  have f: "(0xffffffff :: u32) = mask 32" by (simp add: mask_eq_decr_exp)
  have "bit (push_bit (32 - n) (drop_bit (32 - n) w) OR drop_bit n 0xffffffff) (31 - i) = bit w (31 - i)"
    if "i < n" for i
    using that assms unfolding f by (auto simp: bit_simps)
  then have "pre_val (\<lambda>i. map (\<lambda>i. bit (push_bit (32 - n) (drop_bit (32 - n) w)
      OR drop_bit n 0xffffffff) (31 - i)) [0..<n] ! i) n = pre_val (\<lambda>i. bit w (31 - i)) n"
    by (intro pre_val_cong) simp
  also have "\<dots> = unat w div 2 ^ (32 - n)" using assms by (intro pre_val_word_bits) simp
  finally show ?thesis .
qed

text \<open>A stream that starts with the bits of a block inside the interval is a stream of the state.\<close>

lemma code_in_concluded:
  assumes n: "normalised (low c) (high c)" and bits: "m \<le> 31"
  defines "msb \<equiv> bit ((high c - low c) div 2 + low c) 31"
    and "l3 \<equiv> push_bit 1 (low c) AND 0x7fffffff" and "h3 \<equiv> push_bit 1 (high c) OR 0x80000001"
  assumes E: "E * 2 ^ 32 = 2 * enc_base c + (if msb then 2 ^ 32 else 0)"
    and block: "block_inside (unat l3) (unat h3) x m"
    and X: "pre_val X (Suc (enc_pos c) + m) = E * 2 ^ m + x div 2 ^ (32 - m)"
  shows "code_in X c"
proof -
  let ?r = "pre_val (\<lambda>i. X (Suc (enc_pos c) + m + i)) (32 - m)" and ?p = "2 ^ (32 - m) :: nat"
  have split: "(2 :: nat) ^ 32 = 2 ^ m * ?p" using bits by (simp flip: power_add)
  have "pre_val X (Suc (enc_pos c) + m + (32 - m)) = (E * 2 ^ m + x div ?p) * ?p + ?r"
    by (simp only: pre_val_add [of X "Suc (enc_pos c) + m"] X)
  also have "Suc (enc_pos c) + m + (32 - m) = Suc (enc_pos c + 32)" using bits by simp
  also have "(E * 2 ^ m + x div ?p) * ?p + ?r = E * 2 ^ 32 + (x div ?p * ?p + ?r)"
    unfolding split by (simp add: algebra_simps)
  finally have val: "pre_val X (Suc (enc_pos c + 32)) = E * 2 ^ 32 + (x div ?p * ?p + ?r)" .
  have "?r < ?p" by (rule pre_val_bound)
  then have "?r \<le> ?p - 1" by simp
  then have y: "unat l3 \<le> x div ?p * ?p + ?r" "x div ?p * ?p + ?r \<le> unat h3"
    using block unfolding block_inside_def by linarith+
  note ends = conclude_interval(4,5) [OF n, folded msb_def l3_def h3_def]
  have "2 * (enc_base c + unat (low c)) \<le> pre_val X (Suc (enc_pos c + 32))"
    "pre_val X (Suc (enc_pos c + 32)) \<le> 2 * (enc_base c + unat (high c)) + 1"
    unfolding val E using y ends by (cases msb; simp)+
  then show ?thesis
    unfolding code_in_def pre_val.simps by (cases "X (enc_pos c + 32)"; intro conjI) simp_all
qed

lemma range_conclude_emits:
  assumes inv: "enc_inv c" and room: "room c"
  shows "\<exists>c4 bs. range_conclude c = range_emit_list c4 bs \<and> wf_buf c4 \<and> length bs \<le> 31 \<and>
    bits_used c4 = Suc (enc_pos c) \<and> bit_stream_length c4 = bit_stream_length c \<and>
    (\<forall>X. pre_val X (Suc (enc_pos c) + length bs) = emitted c4 * 2 ^ length bs + pre_val (\<lambda>i. bs ! i) (length bs)
        \<longrightarrow> code_in X c)"
proof -
  let ?msb = "bit ((high c - low c) div 2 + low c) 31" and ?u = "nat (underflow c)"
  have wf: "wf_buf c" "bits_used c < bit_stream_length c" "0 \<le> underflow c" and n: "normalised (low c) (high c)"
    using inv room by (auto simp: enc_inv_def enc_core_def room_def enc_pos_def)
  obtain c1 where c1: "range_emitbit c ?msb = (c1, 0)" "wf_buf c1" "bits_used c1 = Suc (bits_used c)"
    "emitted c1 = 2 * emitted c + of_bool ?msb" "regs c1 = regs c" "underflow c1 = underflow c"
    using range_emitbit_ok [OF wf(1,2), of ?msb] by blast
  have "bits_used c1 + nat (underflow c1) \<le> bit_stream_length c1"
    using c1 room by (auto simp: room_def enc_pos_def regs_eq_iff)
  with c1 wf(3) obtain c2 where c2: "range_emit_underflow True c1 (\<not> ?msb) = (c2, 0)" "wf_buf c2"
    "bits_used c2 = bits_used c1 + ?u" "regs c2 = regs c"
    "emitted c2 = emitted c1 * 2 ^ ?u + (if \<not> ?msb then 2 ^ ?u - 1 else 0)"
    using range_emit_underflow_ok [of c1 "\<not> ?msb"] by auto
  define l3 h3 where "l3 = push_bit 1 (low c) AND 0x7fffffff" and "h3 = push_bit 1 (high c) OR 0x80000001"
  note iv = conclude_interval(1-3) [OF n, folded l3_def h3_def]
  define mean where "mean = (h3 - l3) div 2 + l3"
  have "l3 \<le> mean" "mean \<le> h3"
    unfolding mean_def word_le_nat_alt using iv(3)
    by (simp_all add: unat_mean order_less_imp_le word_less_nat_alt)
  from conclude_search_ok [OF iv(1,2) this, of 0] obtain m where m: "m \<le> 31"
    "conclude_search l3 h3 mean 0 0 0xffffffff = Some m" "block_inside (unat l3) (unat h3) (unat mean) m" by auto
  define c3 where "c3 = c2\<lparr>low := l3, high := h3\<rparr>"
  have c3: "low c3 = l3" "high c3 = h3" by (simp_all add: c3_def)
  define c4 where "c4 = (if debug c3 then c3\<lparr>cvalue := 0\<rparr> else c3)"
  define bs where "bs = map (\<lambda>i. bit (push_bit (32 - m) (drop_bit (32 - m) mean)
      OR drop_bit m 0xffffffff) (31 - i)) [0..<m]"
  have "range_conclude c = range_emit_list c4 bs"
    using c1(1,5) c2(1,4) m(2)
    by (simp add: range_conclude_def Let_def regs_eq_iff l3_def [symmetric] h3_def [symmetric]
        c3_def [symmetric] c3 mean_def [symmetric] c4_def bs_def del: push_bit_Suc One_nat_def)
  moreover have c4: "wf_buf c4" "bits_used c4 = Suc (enc_pos c)" "bit_stream_length c4 = bit_stream_length c"
    "emitted c4 = emitted c2"
    using c1 c2 by (auto simp: c4_def c3_def wf_buf_def enc_pos_def regs_eq_iff emitted_def)
  moreover have "emitted c2 * 2 ^ 32 = 2 * enc_base c + (if ?msb then 2 ^ 32 else 0)"
    unfolding enc_base_def using c1(4) c2(5) by (intro shifted_base) simp
  then have "code_in X c" if "pre_val X (Suc (enc_pos c) + m) = emitted c4 * 2 ^ m + unat mean div 2 ^ (32 - m)" for X
    using code_in_concluded [OF n m(1), folded l3_def h3_def, OF _ m(3)] that unfolding c4(4) by blast
  moreover have "length bs = m" "pre_val (\<lambda>i. bs ! i) m = unat mean div 2 ^ (32 - m)"
    using top_bits_of_mean [OF m(1)] by (simp_all add: bs_def)
  ultimately show ?thesis using m(1) by (intro exI [of _ c4] exI [of _ bs]) simp
qed

lemma range_emit_underflow_fits:
  assumes "range_emit_underflow True c u = (c', 0)" "bits_used c \<le> bit_stream_length c"
  shows "bits_used c + nat (underflow c) \<le> bit_stream_length c"
  using assms
proof (induction "nat (underflow c)" arbitrary: c)
  case (Suc n)
  let ?c1 = "c\<lparr>underflow := underflow c - 1\<rparr>"
  have pos: "0 < underflow c" using Suc.hyps(2) by linarith
  show ?case
  proof (cases "bits_used c < bit_stream_length c")
    case True
    obtain c2 where c2: "range_emitbit ?c1 u = (c2, 0)" "bits_used c2 = Suc (bits_used c)"
      "underflow c2 = underflow c - 1" "bit_stream_length c2 = bit_stream_length c"
      using True by (auto simp: range_emitbit_def Let_def)
    have "range_emit_underflow True c u = range_emit_underflow True c2 u"
      using pos c2(1) by (subst range_emit_underflow.simps) (simp add: Let_def)
    moreover have "n = nat (underflow c2)" "nat (underflow c) = Suc n" using Suc.hyps(2) c2(3) by auto
    ultimately show ?thesis using Suc.hyps(1) [of c2] Suc.prems c2 True by simp
  next
    case False
    then have "range_emit_underflow True c u = (?c1, -1)"
      using pos by (subst range_emit_underflow.simps) (simp add: Let_def range_emitbit_fail)
    with Suc.prems show ?thesis by simp
  qed
qed simp

lemma range_conclude_room:
  assumes "range_conclude c = (c', 0)"
  shows "room c"
proof -
  let ?msb = "bit ((high c - low c) div 2 + low c) 31"
  have lt: "bits_used c < bit_stream_length c"
    using assms by (rule contrapos_pp) (simp add: range_conclude_def Let_def range_emitbit_fail)
  then obtain c1 where c1: "range_emitbit c ?msb = (c1, 0)" "bits_used c1 = Suc (bits_used c)"
    "underflow c1 = underflow c" "bit_stream_length c1 = bit_stream_length c"
    by (auto simp: range_emitbit_def Let_def)
  obtain c2 r2 where c2: "range_emit_underflow True c1 (\<not> ?msb) = (c2, r2)" by fastforce
  have "r2 = 0" using assms c1(1) c2 by (auto simp: range_conclude_def Let_def split: if_splits)
  with range_emit_underflow_fits [of c1 "\<not> ?msb" c2] c2 c1 lt show ?thesis
    by (simp add: room_def enc_pos_def)
qed

text \<open>The end of the stream, both ways: a reported success means that every continuation of the written
  bits is a stream of the state, and with 32 bits to spare there is no failure.\<close>

lemma range_conclude_sound:
  assumes inv: "enc_inv c" and ok: "range_conclude c = (c', 0)"
    and X: "\<And>i. i < bits_used c' \<Longrightarrow> X i = stream_bit (bit_stream c') i"
  shows "code_in X c" and "wf_buf c'"
proof -
  obtain c4 bs where c4: "range_conclude c = range_emit_list c4 bs" "wf_buf c4"
    "bits_used c4 = Suc (enc_pos c)" and
    code: "pre_val X (Suc (enc_pos c) + length bs) = emitted c4 * 2 ^ length bs + pre_val (\<lambda>i. bs ! i) (length bs)
      \<Longrightarrow> code_in X c"
    using range_conclude_emits [OF inv range_conclude_room [OF ok]] by blast
  have "bits_used c4 + length bs \<le> bit_stream_length c4"
    using range_emit_list_fits [of c4 bs c'] ok c4(1,2) by (simp add: wf_buf_def)
  from range_emit_list_ok [OF c4(2) this] ok c4(1) have wf: "wf_buf c'"
    and "bits_used c' = bits_used c4 + length bs"
    "emitted c' = emitted c4 * 2 ^ length bs + pre_val (\<lambda>i. bs ! i) (length bs)" by auto
  moreover have "pre_val X (bits_used c') = emitted c'"
    unfolding emitted_def using X by (rule pre_val_cong)
  ultimately show "code_in X c" using code c4(3) by simp
  from wf show "wf_buf c'" .
qed

text \<open>Concluding only appends, also a second time and also when it fails.\<close>

lemma buf_kept_emit_list: "buf_kept c (fst (range_emit_list c bs))"
proof (induction bs arbitrary: c)
  case (Cons b bs)
  obtain c1 r where c1: "range_emitbit c b = (c1, r)" by fastforce
  have "buf_kept c c1" using buf_kept_emitbit [of c b] c1 by simp
  with Cons [of c1] c1 show ?case by (auto intro: buf_kept_trans)
qed simp

lemma buf_kept_conclude: "buf_kept c (fst (range_conclude c))"
proof -
  let ?msb = "bit ((high c - low c) div 2 + low c) 31"
  obtain c1 r1 where c1: "range_emitbit c ?msb = (c1, r1)" by fastforce
  obtain c2 r2 where c2: "range_emit_underflow True c1 (\<not> ?msb) = (c2, r2)" by fastforce
  have k1: "buf_kept c c1" using buf_kept_emitbit [of c ?msb] c1 by simp
  have k2: "buf_kept c c2"
    using buf_kept_trans [OF k1 buf_kept_emit_underflow [of c1 "\<not> ?msb"]] c2 by simp
  have k3: "buf_kept c (fst (range_emit_list c' bs))" if "buf_kept c c'" for c' bs
    by (rule buf_kept_trans [OF that buf_kept_emit_list])
  show ?thesis using k1 k2 k3
    by (simp add: range_conclude_def Let_def c1 c2 del: push_bit_Suc One_nat_def split: option.split)
qed

lemma range_conclude_total:
  assumes inv: "enc_inv c" and fits: "enc_pos c + 32 \<le> bit_stream_length c"
  shows "\<exists>c'. range_conclude c = (c', 0) \<and> enc_pos c < bits_used c' \<and> bits_used c' \<le> enc_pos c + 32"
proof -
  have "room c" using fits by (simp add: room_def)
  from range_conclude_emits [OF inv this] obtain c4 bs where c4: "range_conclude c = range_emit_list c4 bs"
    "wf_buf c4" "length bs \<le> 31" "bits_used c4 = Suc (enc_pos c)" "bit_stream_length c4 = bit_stream_length c"
    by blast
  with range_emit_list_ok [OF c4(2), of bs] fits show ?thesis by auto
qed

section \<open>The round trip\<close>

text \<open>A decoder handed the bytes of a finished stream, as the decompressors of the program set it up.\<close>

definition stream_bytes :: "range_coder \<Rightarrow> u8 list" where
  "stream_bytes c = take (bits2bytes (bits_used c)) (bit_stream c)"

definition load_stream :: "range_coder \<Rightarrow> u8 list \<Rightarrow> range_coder" where
  "load_stream d bs = d\<lparr>bit_stream := bs, bit_stream_length := length bs * 8, bits_used := 0\<rparr>"

lemma bits2bytes_eq: "bits2bytes b = (b + 7) div 8"
proof -
  have "b AND 7 = b mod 8"
    using take_bit_eq_mask [of 3 b] by (simp add: take_bit_eq_mod mask_eq_exp_minus_1)
  moreover have "(b + 7) div 8 = b div 8 + (b mod 8 + 7) div 8"
    using div_mult_self1 [of 8 "b mod 8 + 7" "b div 8"] mult_div_mod_eq [of 8 b] by (simp add: algebra_simps)
  moreover have "b mod 8 \<noteq> 0 \<Longrightarrow> (b mod 8 + 7) div 8 = 1"
    using mod_less_divisor [of 8 b] by (intro div_nat_eqI) auto
  ultimately show ?thesis by (auto simp: bits2bytes_def drop_bit_eq_div)
qed

lemma stream_bytes_bits:
  assumes "wf_buf c" "i < bits_used c"
  shows "dec_bits (load_stream d (stream_bytes c)) i = stream_bit (bit_stream c) i"
proof -
  let ?q = "(bits_used c + 7) div 8"
  have len: "bits_used c \<le> 8 * length (bit_stream c)" using assms(1) by (simp add: wf_buf_def)
  have "8 * ?q \<le> bits_used c + 7" "bits_used c + 7 < 8 + 8 * ?q"
    by (simp_all add: dividend_less_times_div)
  then have "?q \<le> length (bit_stream c)" "i < ?q * 8" using assms(2) len by linarith+
  then have n: "bits2bytes (bits_used c) \<le> length (bit_stream c)" "i < 8 * bits2bytes (bits_used c)"
    "i div 8 < bits2bytes (bits_used c)"
    unfolding bits2bytes_eq by (simp_all add: less_mult_imp_div_less)
  then show ?thesis
    by (simp add: dec_bits_def load_stream_def stream_bytes_def stream_bit_def)
qed

text \<open>A decoder whose stream starts with the bits of a finished stream reads back what was written. The bits
  may have been followed by others: \<open>c3\<close>.\<close>

theorem codec_round_trip_bits:
  assumes codec: "rc.codec enc dec x" and size: "8 * bytes < 2 ^ 31"
    and enc: "enc (range_new_coder junk bytes) = Some (c1, r)"
    and fin: "range_conclude c1 = (c2, 0)" and more: "buf_kept c2 c3"
    and d: "\<not> norescale d" "bits_used d = 0"
    and bits: "\<And>i. i < bits_used c3 \<Longrightarrow> dec_bits d i = stream_bit (bit_stream c3) i"
  shows "\<exists>d'. dec (range_decode_prefetch d) = Some (d', x)"
proof -
  let ?c0 = "range_new_coder junk bytes"
  have inv0: "enc_inv ?c0" using size by (rule range_new_coder_inv)
  from rc.codecD [OF codec enc inv0 range_conclude_room [OF fin]]
  have inv1: "enc_inv c1" and follows: "rc.follows ?c0 c1 dec x" by auto
  have wf: "wf_buf c2"
    using range_conclude_sound(2) [OF inv1 fin, of "stream_bit (bit_stream c2)"] by simp
  have "dec_bits d i = stream_bit (bit_stream c2) i" if "i < bits_used c2" for i
    using bits [of i] more wf that by (auto simp: buf_kept_def)
  then have "code_in (dec_bits d) c1" by (rule range_conclude_sound(1) [OF inv1 fin])
  moreover have "tracks (range_decode_prefetch d) ?c0 (dec_bits d)"
    using d by (intro range_decode_prefetch_tracks)
  ultimately show ?thesis using follows unfolding rc.follows_def by blast
qed

lemma concluded_wf:
  assumes codec: "rc.codec enc dec x" and size: "8 * bytes < 2 ^ 31"
    and enc: "enc (range_new_coder junk bytes) = Some (c1, r)"
  shows "wf_buf (fst (range_conclude c1))" "bit_stream_length (fst (range_conclude c1)) = 8 * bytes"
proof -
  let ?c0 = "range_new_coder junk bytes"
  have c0: "wf_buf ?c0" "\<not> decodingP ?c0" "bit_stream_length ?c0 = 8 * bytes"
    using range_new_coder_inv [OF size, of junk] by (auto simp: enc_inv_def enc_core_def range_new_coder_def range_coder_reset_def)
  have "enc_step ?c0 c1" using rc.codec_total [OF codec, of ?c0] enc by auto
  then have "buf_kept ?c0 c1" using c0(2) by (simp add: enc_step_def)
  from buf_kept_trans [OF this buf_kept_conclude] c0
  show "wf_buf (fst (range_conclude c1))" "bit_stream_length (fst (range_conclude c1)) = 8 * bytes"
    by (auto simp: buf_kept_def)
qed

theorem codec_round_trip:
  assumes codec: "rc.codec enc dec x" and size: "8 * bytes < 2 ^ 31"
    and enc: "enc (range_new_coder junk bytes) = Some (c1, r)"
    and fin: "range_conclude c1 = (c2, 0)"
    and dec: "\<not> norescale d"
  shows "\<exists>d'. dec (range_decode_prefetch (load_stream d (stream_bytes c2))) = Some (d', x)"
proof (rule codec_round_trip_bits [OF codec size enc fin buf_kept_refl])
  have "wf_buf c2" using concluded_wf(1) [OF codec size enc] fin by simp
  then show "dec_bits (load_stream d (stream_bytes c2)) i = stream_bit (bit_stream c2) i" if "i < bits_used c2" for i
    using that by (rule stream_bytes_bits)
qed (use dec in \<open>simp_all add: load_stream_def\<close>)

section \<open>Mixed sequences of symbols\<close>

text \<open>What the program codes: equiprobable symbols and symbols of frequency tables, in any order. Encoder
  and decoder agree on the alphabets, the encoder also has the symbols.\<close>

datatype alphabet =
    Equiprobable int
  | Tabled "u32 list" int

fun encode_one :: "alphabet \<times> int \<Rightarrow> range_coder \<Rightarrow> (range_coder \<times> int) option" where
  "encode_one (Equiprobable A, k) c = Some (range_encode_equiprobable c A k)"
| "encode_one (Tabled f A, k) c = range_encode_symbol c f A k"

fun decode_one :: "alphabet \<Rightarrow> range_coder \<Rightarrow> (range_coder \<times> int) option" where
  "decode_one (Equiprobable A) d = Some (range_decode_equiprobable d A)"
| "decode_one (Tabled f A) d = Some (range_decode_symbol d f A)"

fun symbol_ok :: "alphabet \<times> int \<Rightarrow> bool" where
  "symbol_ok (Equiprobable A, k) \<longleftrightarrow> 0 \<le> k \<and> k < A \<and> A < 2 ^ 31"
| "symbol_ok (Tabled f A, k) \<longleftrightarrow> table_ok f A k"

lemma codec_one: "symbol_ok s \<Longrightarrow> rc.codec (encode_one s) (decode_one (fst s)) (snd s)"
proof (cases s rule: symbol_ok.cases)
  case (1 A k)
  moreover have "encode_one (Equiprobable A, k) = (\<lambda>c. Some (range_encode_equiprobable c A k))"
    "decode_one (Equiprobable A) = (\<lambda>d. Some (range_decode_equiprobable d A))" by auto
  ultimately show "symbol_ok s \<Longrightarrow> ?thesis" using codec_equiprobable by simp
next
  case (2 f A k)
  moreover have "encode_one (Tabled f A, k) = (\<lambda>c. range_encode_symbol c f A k)"
    "decode_one (Tabled f A) = (\<lambda>d. Some (range_decode_symbol d f A))" by auto
  ultimately show "symbol_ok s \<Longrightarrow> ?thesis" using codec_symbol by simp
qed

lemma codec_symbols:
  assumes "\<forall>s \<in> set ss. symbol_ok s"
  shows "rc.codec (enc_all encode_one ss) (dec_all decode_one (map fst ss)) (map snd ss)"
  unfolding dec_all_map using assms by (intro rc.codec_all codec_one) blast

section \<open>The properties\<close>

text \<open>(C1) Round trip of the range coder: any sequence of equiprobable symbols and symbols of frequency
  tables that the encoder wrote into a fresh buffer and that \<^const>\<open>range_conclude\<close> finished without
  reporting a failure is decoded from the bytes of the stream, whatever the junk in the buffers.\<close>

theorem range_coder_round_trip:
  assumes "\<forall>s \<in> set ss. symbol_ok s" "8 * bytes < 2 ^ 31"
    and "enc_all encode_one ss (range_new_coder junk bytes) = Some (c1, r)"
    and "range_conclude c1 = (c2, 0)" "\<not> norescale d"
  shows "\<exists>d'. dec_all decode_one (map fst ss) (range_decode_prefetch (load_stream d (stream_bytes c2)))
     = Some (d', map snd ss)"
  by (rule codec_round_trip [OF codec_symbols [OF assms(1)] assms(2-5)])

definition sample_symbols :: "(alphabet \<times> int) list" where
  "sample_symbols = [(Equiprobable 10, 3), (Tabled [0x400000, 0x900000, 0xf00000] 4, 2), (Equiprobable 0x500000, 70000)]"

definition sample_encoded :: range_coder where
  "sample_encoded = fst (the (enc_all encode_one sample_symbols (range_new_coder (\<lambda>_. 0xa5) 12)))"

theorem range_coder_round_trip_witness:
  "\<exists>d'. dec_all decode_one (map fst sample_symbols) (range_decode_prefetch
     (load_stream (range_new_coder (\<lambda>_. 0) 0) (stream_bytes (fst (range_conclude sample_encoded)))))
     = Some (d', [3, 2, 70000])"
proof -
  have ok: "\<forall>s \<in> set sample_symbols. symbol_ok s"
    by (simp add: sample_symbols_def table_ok_def table_low_def table_high_def)
  have enc: "enc_all encode_one sample_symbols (range_new_coder (\<lambda>_. 0xa5) 12) = Some (sample_encoded, 0)"
    by code_simp
  have fin: "range_conclude sample_encoded = (fst (range_conclude sample_encoded), 0)" by code_simp
  have "\<not> norescale (range_new_coder (\<lambda>_. 0) 0)" by code_simp
  from range_coder_round_trip [OF ok _ enc fin this] show ?thesis by (simp add: sample_symbols_def)
qed

end
