(* ===== verification/Charset.thy ===== *)
theory Charset
  imports RangeStream "HOL-Library.Monad_Syntax"
begin

text \<open>
  \<^verbatim>\<open>forms/charset.c\<close> and \<^verbatim>\<open>forms/packedascii.c\<close>: the character tables of the text models with their
  index functions, and the fallback coding of ASCII text. Characters are the UTF-16 units of the
  program's message buffers, or bytes where the C code has \<^verbatim>\<open>char\<close>. The three tables are char arrays;
  the first two are one longer than the literal that initialises them, so their last entry is NUL.
\<close>

section \<open>The C library on characters\<close>

text \<open>\<^verbatim>\<open>ctype.h\<close> in the C locale. The classification functions promise a non-zero value, not 1.\<close>

definition c_isupper :: "u16 \<Rightarrow> bool" where "c_isupper c \<longleftrightarrow> 0x41 \<le> c \<and> c \<le> 0x5a"
definition c_islower :: "u16 \<Rightarrow> bool" where "c_islower c \<longleftrightarrow> 0x61 \<le> c \<and> c \<le> 0x7a"
definition c_isalpha :: "u16 \<Rightarrow> bool" where "c_isalpha c \<longleftrightarrow> c_isupper c \<or> c_islower c"
definition c_tolower :: "u16 \<Rightarrow> u16" where "c_tolower c = (if c_isupper c then c + 0x20 else c)"
definition c_toupper :: "u16 \<Rightarrow> u16" where "c_toupper c = (if c_islower c then c - 0x20 else c)"

section \<open>Tables\<close>

abbreviation CHARCOUNT :: int where "CHARCOUNT \<equiv> 65"
abbreviation PRINTABLECHARCOUNT :: int where "PRINTABLECHARCOUNT \<equiv> 99"

text \<open>The letters, the digits, and the punctuation between the letters and the place holders.\<close>

definition lower_letters :: "u16 list" where "lower_letters = map of_nat [0x61..<0x7b]"
definition upper_letters :: "u16 list" where "upper_letters = map of_nat [0x41..<0x5b]"
definition digits :: "u16 list" where "digits = map of_nat [0x30..<0x3a]"
definition punctuation :: "u16 list" where
  "punctuation = [0x20, 0x21, 0x40, 0x23, 0x24, 0x25, 0x5e, 0x26, 0x2a, 0x28, 0x29, 0x5f, 0x2b, 0x2d,
     0x3d, 0x7e, 0x60, 0x5b, 0x7b, 0x5d, 0x7d, 0x5c, 0x7c, 0x3b, 0x3a, 0x27, 0x22, 0x3c, 0x2c, 0x3e,
     0x2e, 0x3f, 0x2f, 0x0d, 0x0a, 0x09]"

definition chars :: "u16 list" where "chars = lower_letters @ punctuation @ [0x30, 0x55, 0]"
definition printableChars :: "u16 list" where
  "printableChars = lower_letters @ upper_letters @ punctuation @ digits @ [0]"
definition wordChars :: "u16 list" where "wordChars = lower_letters @ digits"

text \<open>The loop \<^verbatim>\<open>for(i=0;i<N;i++) if (c==table[i]) return i;\<close> with -1 after it.\<close>

fun table_index :: "u16 \<Rightarrow> u16 list \<Rightarrow> int \<Rightarrow> int" where
  "table_index c [] i = -1"
| "table_index c (x # xs) i = (if c = x then i else table_index c xs (i + 1))"

definition charIdx :: "u16 \<Rightarrow> int" where
  "charIdx c =
     (let c = (if c > 0x7f then 0x55 else c);
          c = (if 0x31 \<le> c \<and> c \<le> 0x39 then 0x30 else c)
      in table_index c chars 0)"

text \<open>A byte above 0x7f never equals a char of the table.\<close>

definition printableCharIdx :: "u8 \<Rightarrow> int" where
  "printableCharIdx c = table_index (ucast c) printableChars 0"

definition charInWord :: "u16 \<Rightarrow> bool" where
  "charInWord c \<longleftrightarrow> (c < 0x80 \<and> c_tolower c \<in> set wordChars)"

lemma table_index_range: "table_index c xs i = -1 \<or> i \<le> table_index c xs i \<and> table_index c xs i < i + int (length xs)"
  by (induction xs arbitrary: i) fastforce+

lemma table_index_nth:
  assumes "0 \<le> i" "table_index c xs i \<noteq> -1"
  shows "xs ! nat (table_index c xs i - i) = c"
  using assms
proof (induction xs arbitrary: i)
  case (Cons x xs)
  show ?case
  proof (cases "c = x")
    case False
    with Cons have ne: "table_index c xs (i + 1) \<noteq> -1" by simp
    with table_index_range [of c xs "i + 1"] have "i + 1 \<le> table_index c xs (i + 1)" by blast
    then have "nat (table_index c xs (i + 1) - i) = Suc (nat (table_index c xs (i + 1) - (i + 1)))" by linarith
    with Cons False ne show ?thesis by simp
  qed simp
qed simp

lemma table_index_miss: "0 \<le> i \<Longrightarrow> table_index c xs i < 0 \<longleftrightarrow> c \<notin> set xs"
  by (induction xs arbitrary: i) auto

lemma length_chars: "length chars = 65" "length printableChars = 99"
  by (simp_all add: chars_def printableChars_def lower_letters_def upper_letters_def punctuation_def digits_def)

lemma charIdx_range: "charIdx c = -1 \<or> 0 \<le> charIdx c \<and> charIdx c < CHARCOUNT"
  using table_index_range [of _ chars 0] by (auto simp: charIdx_def Let_def length_chars)

lemma printableCharIdx_ok:
  assumes "0 \<le> printableCharIdx c"
  shows "printableCharIdx c < PRINTABLECHARCOUNT" "printableChars ! nat (printableCharIdx c) = ucast c"
  using assms table_index_range [of "ucast c" printableChars 0] table_index_nth [of 0 "ucast c" printableChars]
  by (auto simp: printableCharIdx_def length_chars)

lemma byte_of_unit [simp]: "(ucast (ucast (x :: u8) :: u16) :: u8) = x"
  by (rule bit_word_eqI) (auto simp: bit_simps)

section \<open>Packed ASCII\<close>

text \<open>\<^verbatim>\<open>encodePackedASCII\<close> reads up to the terminating NUL of \<open>m\<close>; the list holds the bytes before it. The
  return code of the coder is not looked at.\<close>

primrec encodePackedASCII :: "u8 list \<Rightarrow> range_coder \<Rightarrow> range_coder \<times> int" where
  "encodePackedASCII [] c = (c, 0)"
| "encodePackedASCII (x # m) c =
     (let v = printableCharIdx x
      in if v < 0 then (c, -1)
         else encodePackedASCII m (fst (range_encode_equiprobable c PRINTABLECHARCOUNT v)))"

text \<open>The decoder indexes the table with whatever the coder returns; a symbol outside it (-1 after a
  decoding failure) reads outside the array, modelled as \<open>None\<close>.\<close>

fun decodePackedASCII :: "nat \<Rightarrow> range_coder \<Rightarrow> (range_coder \<times> u8 list) option" where
  "decodePackedASCII 0 c = Some (c, [])"
| "decodePackedASCII (Suc n) c =
     (let (c1, symbol) = range_decode_equiprobable c PRINTABLECHARCOUNT
      in if 0 \<le> symbol \<and> symbol < PRINTABLECHARCOUNT
         then map_option (\<lambda>(c2, m). (c2, ucast (printableChars ! nat symbol) # m)) (decodePackedASCII n c1)
         else None)"

text \<open>Bytes the fallback can code.\<close>

definition packable :: "u8 list \<Rightarrow> bool" where
  "packable m \<longleftrightarrow> (\<forall>x \<in> set m. 0 \<le> printableCharIdx x)"

lemma codec_packed_ascii:
  "packable m \<Longrightarrow> rc.codec (\<lambda>c. Some (encodePackedASCII m c)) (decodePackedASCII (length m)) m"
proof (induction m)
  case Nil
  have "decodePackedASCII 0 = (\<lambda>d. Some (d, []))" by auto
  then show ?case using rc.codec_return by simp
next
  case (Cons x m)
  let ?v = "printableCharIdx x"
  have v: "0 \<le> ?v" using Cons.prems by (simp add: packable_def)
  note ok = printableCharIdx_ok [OF v]
  define dec2 where "dec2 = (\<lambda>symbol d. if 0 \<le> symbol \<and> symbol < PRINTABLECHARCOUNT
      then map_option (\<lambda>(c2, m). (c2, ucast (printableChars ! nat symbol) # m)) (decodePackedASCII (length m) d)
      else None)"
  have "rc.codec (\<lambda>c. Some (encodePackedASCII m c))
     (\<lambda>d. map_option (\<lambda>(c2, m). (c2, x # m)) (decodePackedASCII (length m) d)) (x # m)"
    using Cons by (intro rc.codec_value_map) (simp add: packable_def)
  then have tail: "rc.codec (\<lambda>c. Some (encodePackedASCII m c)) (dec2 ?v) (x # m)"
    using v ok by (simp add: dec2_def)
  have "rc.codec (\<lambda>c. Some (range_encode_equiprobable c PRINTABLECHARCOUNT ?v))
     (\<lambda>d. Some (range_decode_equiprobable d PRINTABLECHARCOUNT)) ?v"
    using v ok(1) by (intro codec_equiprobable) simp_all
  from rc.codec_seq [OF this, where ?dec2.0 = dec2, OF tail]
  show ?case
  proof (rule rc.codec_enc_dec_cong)
    show "Some (encodePackedASCII (x # m) c) = Option.bind (Some (range_encode_equiprobable c PRINTABLECHARCOUNT ?v))
        (\<lambda>(c1, r). Some (encodePackedASCII m c1))" for c
      using v by (simp add: Let_def split: prod.split)
    show "decodePackedASCII (length (x # m)) d = Option.bind (Some (range_decode_equiprobable d PRINTABLECHARCOUNT))
        (\<lambda>(d', s). dec2 s d')" for d
      by (simp add: dec2_def split: prod.split)
  qed
qed

end
