(* ===== verification/Interpolative.thy ===== *)
theory Interpolative
  imports RangeStream "HOL-Library.Monad_Syntax"
begin

text \<open>
  \<^verbatim>\<open>forms/gsinterpolative.c\<close>: interpolative coding of an ascending list. The C file is compiled twice, once
  for each direction; both directions are written out here. The list is an array that the decoder
  fills in while it descends; an access outside the array is undefined behaviour and gives \<open>None\<close>.
\<close>

section \<open>Model\<close>

definition array_get :: "int list \<Rightarrow> int \<Rightarrow> int option" where
  "array_get xs i = (if 0 \<le> i \<and> i < int (length xs) then Some (xs ! nat i) else None)"

fun biggest_power_loop :: "nat \<Rightarrow> int \<Rightarrow> int" where
  "biggest_power_loop 0 v = 0"
| "biggest_power_loop (Suc b) v = (if 2 ^ b < v then 2 ^ b else biggest_power_loop b v)"

definition biggest_power_of_2 :: "int \<Rightarrow> int" where
  "biggest_power_of_2 v = biggest_power_loop 31 v"

definition binary_encode :: "int \<Rightarrow> int \<Rightarrow> int \<Rightarrow> range_coder \<Rightarrow> range_coder" where
  "binary_encode l p h c =
     (let range_minus_1 = h - l; range = range_minus_1 + 1; v = p - l
      in fst (range_encode_equiprobable c range v))"

definition binary_decode :: "int \<Rightarrow> int \<Rightarrow> range_coder \<Rightarrow> range_coder \<times> int" where
  "binary_decode l h c =
     (let range_minus_1 = h - l; range = range_minus_1 + 1; (c', v) = range_decode_equiprobable c range
      in (c', v + l))"

text \<open>The constraint on entry \<open>p\<close> between its known neighbours \<open>lo\<close> and \<open>hi\<close>.\<close>

definition ic_bounds :: "int list \<Rightarrow> int \<Rightarrow> int \<Rightarrow> int \<Rightarrow> int \<Rightarrow> int \<Rightarrow> (int \<times> int) option" where
  "ic_bounds xs list_length max_value lo p hi = do {
     doc_low \<leftarrow> (if lo > -1 then map_option (\<lambda>x. x + 1) (array_get xs lo) else Some 0);
     doc_high \<leftarrow> (if hi < list_length then map_option (\<lambda>x. x - 1) (array_get xs hi)
                   else Some (max_value + (hi - list_length)));
     Some (doc_low + (p - lo - 1), doc_high - (hi - p - 1)) }"

function ic_encode_recursive_r ::
    "int list \<Rightarrow> int \<Rightarrow> int \<Rightarrow> int \<Rightarrow> int \<Rightarrow> int \<Rightarrow> int \<Rightarrow> range_coder \<Rightarrow> (range_coder \<times> int) option" where
  "ic_encode_recursive_r xs list_length max_value lo p hi step c =
     (if lo \<ge> list_length then Some (c, 0)
      else do {
        c1 \<leftarrow> (if p < list_length
               then do {
                 doc_number \<leftarrow> array_get xs p;
                 (doc_low, doc_high) \<leftarrow> ic_bounds xs list_length max_value lo p hi;
                 Some (binary_encode doc_low doc_number doc_high c) }
               else Some c);
        (if step > 1
         then do {
           (c2, _) \<leftarrow> ic_encode_recursive_r xs list_length max_value lo (p - step div 2) p (step div 2) c1;
           (c3, _) \<leftarrow> ic_encode_recursive_r xs list_length max_value p (p + step div 2) hi (step div 2) c2;
           Some (c3, 0) }
         else Some (c1, 0)) })"
  by pat_completeness auto
termination
  by (relation "measure (\<lambda>(xs, n, m, lo, p, hi, step, c). nat step)") auto

declare ic_encode_recursive_r.simps [simp del]

function ic_decode_recursive_r ::
    "int list \<Rightarrow> int \<Rightarrow> int \<Rightarrow> int \<Rightarrow> int \<Rightarrow> int \<Rightarrow> int \<Rightarrow> range_coder \<Rightarrow> (range_coder \<times> int list) option" where
  "ic_decode_recursive_r xs list_length max_value lo p hi step c =
     (if lo \<ge> list_length then Some (c, xs)
      else do {
        (c1, xs1) \<leftarrow> (if p < list_length
               then do {
                 _ \<leftarrow> array_get xs p;
                 (doc_low, doc_high) \<leftarrow> ic_bounds xs list_length max_value lo p hi;
                 let (c', v) = binary_decode doc_low doc_high c;
                 Some (c', xs[nat p := v]) }
               else Some (c, xs));
        (if step > 1
         then do {
           (c2, xs2) \<leftarrow> ic_decode_recursive_r xs1 list_length max_value lo (p - step div 2) p (step div 2) c1;
           ic_decode_recursive_r xs2 list_length max_value p (p + step div 2) hi (step div 2) c2 }
         else Some (c1, xs1)) })"
  by pat_completeness auto
termination
  by (relation "measure (\<lambda>(xs, n, m, lo, p, hi, step, c). nat step)") auto

declare ic_decode_recursive_r.simps [simp del]

definition ic_encode_recursive :: "int list \<Rightarrow> int \<Rightarrow> int \<Rightarrow> range_coder \<Rightarrow> (range_coder \<times> int) option" where
  "ic_encode_recursive xs list_length max_value c =
     (let powerof2 = biggest_power_of_2 (list_length + 1)
      in map_option (\<lambda>(c', _). (c', 0))
           (ic_encode_recursive_r xs list_length max_value (-1) (powerof2 - 1) (list_length + 1) powerof2 c))"

definition ic_decode_recursive :: "int list \<Rightarrow> int \<Rightarrow> int \<Rightarrow> range_coder \<Rightarrow> (range_coder \<times> int list) option" where
  "ic_decode_recursive xs list_length max_value c =
     (let powerof2 = biggest_power_of_2 (list_length + 1)
      in ic_decode_recursive_r xs list_length max_value (-1) (powerof2 - 1) (list_length + 1) powerof2 c)"

section \<open>The starting point\<close>

lemma biggest_power_loop_eq:
  "biggest_power_loop b v = 0 \<and> v \<le> 1 \<or>
   (\<exists>k<b. biggest_power_loop b v = 2 ^ k \<and> 2 ^ k < v \<and> (v \<le> 2 ^ Suc k \<or> Suc k = b)) \<or> b = 0"
proof (induction b)
  case (Suc b)
  show ?case
  proof (cases "2 ^ b < v")
    case False
    then have "biggest_power_loop (Suc b) v = biggest_power_loop b v" by simp
    moreover have "v \<le> 2 ^ b" using False by simp
    ultimately show ?thesis using Suc by (cases b) (auto intro: less_SucI)
  qed auto
qed simp

lemma biggest_power_of_2:
  assumes "1 < v" "v < 2 ^ 31"
  obtains k where "biggest_power_of_2 v = 2 ^ k" "2 ^ k < v" "v \<le> 2 ^ Suc k"
proof -
  obtain k where "biggest_power_loop 31 v = 2 ^ k" "2 ^ k < v" "v \<le> 2 ^ Suc k \<or> Suc k = 31"
    using biggest_power_loop_eq [of 31 v] assms(1) by auto
  with assms(2) that show ?thesis unfolding biggest_power_of_2_def
    by (metis order_less_imp_le)
qed

section \<open>Every entry is inside its bounds\<close>

text \<open>The lists the coder is for: strictly ascending and within \<open>0..max_value\<close>.\<close>

definition ascending_to :: "int \<Rightarrow> int list \<Rightarrow> bool" where
  "ascending_to m xs \<longleftrightarrow> sorted_wrt (<) xs \<and> (\<forall>x \<in> set xs. 0 \<le> x \<and> x \<le> m)"

lemma ascending_spread:
  assumes "sorted_wrt (<) (xs :: int list)" "i + k < length xs"
  shows "xs ! i + int k \<le> xs ! (i + k)"
  using assms(2)
proof (induction k)
  case (Suc k)
  have "xs ! (i + k) < xs ! (i + Suc k)" using Suc.prems by (intro sorted_wrt_nth_less [OF assms(1)]) auto
  with Suc show ?case by simp
qed simp

lemma ascending_gap:
  assumes "ascending_to m xs" "0 \<le> i" "i \<le> j" "j < int (length xs)"
  shows "xs ! nat i + (j - i) \<le> xs ! nat j"
  using ascending_spread [of xs "nat i" "nat (j - i)"] assms
  by (simp add: ascending_to_def nat_add_distrib [symmetric])

lemma ascending_ends:
  assumes "ascending_to m xs" "0 \<le> i" "i < int (length xs)"
  shows "i \<le> xs ! nat i" "xs ! nat i \<le> m - (int (length xs) - 1 - i)"
proof -
  have mem: "0 \<le> xs ! nat j \<and> xs ! nat j \<le> m" if "0 \<le> j" "j < int (length xs)" for j
    using assms(1) nth_mem [of "nat j" xs] that by (auto simp: ascending_to_def)
  show "i \<le> xs ! nat i" using ascending_gap [OF assms(1), of 0 i] mem [of 0] assms by (cases "xs = []") auto
  show "xs ! nat i \<le> m - (int (length xs) - 1 - i)"
    using ascending_gap [OF assms(1), of i "int (length xs) - 1"] mem [of "int (length xs) - 1"] assms by (cases "xs = []") auto
qed

text \<open>\<open>known xs ys i\<close>: if \<open>i\<close> is an entry of the list, the decoder already has it.\<close>

definition known :: "int list \<Rightarrow> int list \<Rightarrow> int \<Rightarrow> bool" where
  "known xs ys i \<longleftrightarrow> (0 \<le> i \<and> i < int (length xs) \<longrightarrow> ys ! nat i = xs ! nat i)"

lemma ic_bounds_contain:
  assumes asc: "ascending_to m xs" and len: "length xs \<le> length ys"
    and pos: "-1 \<le> lo" "lo < p" "p < int (length xs)" "p < hi"
    and known: "known xs ys lo" "known xs ys hi"
  shows "\<exists>l h. ic_bounds ys (int (length xs)) m lo p hi = Some (l, h) \<and>
     l \<le> xs ! nat p \<and> xs ! nat p \<le> h \<and> 0 \<le> l \<and> h \<le> m"
proof -
  have p: "0 \<le> p" using pos by simp
  note ends = ascending_ends [OF asc p pos(3)]
  define l where "l = (if lo > -1 then xs ! nat lo + 1 else 0)"
  define h where "h = (if hi < int (length xs) then xs ! nat hi - 1 else m + (hi - int (length xs)))"
  have "ic_bounds ys (int (length xs)) m lo p hi = Some (l + (p - lo - 1), h - (hi - p - 1))"
    using pos known len by (auto simp: ic_bounds_def array_get_def known_def l_def h_def)
  moreover have "l + (p - lo - 1) \<le> xs ! nat p" "0 \<le> l + (p - lo - 1)"
    using ends(1) ascending_gap [OF asc, of lo p] ascending_ends(1) [OF asc, of lo] pos
    by (auto simp: l_def)
  moreover have "xs ! nat p \<le> h - (hi - p - 1)" "h - (hi - p - 1) \<le> m"
    using ends(2) ascending_gap [OF asc, of p hi] ascending_ends(2) [OF asc, of hi] pos p
    by (auto simp: h_def)
  ultimately show ?thesis by blast
qed

section \<open>The decoder fills in the list\<close>

definition patch :: "int list \<Rightarrow> int list \<Rightarrow> int \<Rightarrow> int \<Rightarrow> int list" where
  "patch xs ys a b = map (\<lambda>i. if a < int i \<and> int i < b \<and> i < length xs then xs ! i else ys ! i) [0..<length ys]"

lemma length_patch [simp]: "length (patch xs ys a b) = length ys"
  by (simp add: patch_def)

lemma nth_patch: "i < length ys \<Longrightarrow>
    patch xs ys a b ! i = (if a < int i \<and> int i < b \<and> i < length xs then xs ! i else ys ! i)"
  by (simp add: patch_def)

lemma patch_empty: "int (length xs) \<le> a + 1 \<Longrightarrow> patch xs ys a b = ys"
  by (rule nth_equalityI) (auto simp: nth_patch)

lemma patch_whole:
  "length xs \<le> length ys \<Longrightarrow> int (length xs) \<le> b \<Longrightarrow> patch xs ys (-1) b = xs @ drop (length xs) ys"
  by (rule nth_equalityI) (auto simp: nth_patch nth_append)

lemma known_patch: "length xs \<le> length ys \<Longrightarrow> known xs ys i \<Longrightarrow> known xs (patch xs ys a b) i"
  by (auto simp: known_def nth_patch)

lemma patch_join:
  assumes "-1 \<le> a" "a < p" "p < b"
    and ys1: "ys1 = (if p < int (length xs) then ys[nat p := xs ! nat p] else ys)"
  shows "patch xs (patch xs ys1 a p) p b = patch xs ys a b"
proof (rule nth_equalityI)
  fix i assume "i < length (patch xs (patch xs ys1 a p) p b)"
  with assms(1-3) show "patch xs (patch xs ys1 a p) p b ! i = patch xs ys a b ! i"
    by (cases "int i = p") (auto simp: ys1 nth_patch nth_list_update)
qed (simp add: ys1)

lemma patch_single:
  assumes "-1 \<le> a" "p = a + 1"
    and ys1: "ys1 = (if p < int (length xs) then ys[nat p := xs ! nat p] else ys)"
  shows "patch xs ys a (a + 2) = ys1"
proof (rule nth_equalityI)
  fix i assume "i < length (patch xs ys a (a + 2))"
  with assms(1,2) show "patch xs ys a (a + 2) ! i = ys1 ! i"
    by (cases "int i = p") (auto simp: ys1 nth_patch nth_list_update)
qed (simp add: ys1)

text \<open>One entry.\<close>

definition ic_encode_entry :: "int list \<Rightarrow> int \<Rightarrow> int \<Rightarrow> int \<Rightarrow> int \<Rightarrow> int \<Rightarrow> range_coder \<Rightarrow> (range_coder \<times> int) option" where
  "ic_encode_entry xs n m lo p hi c =
     (if p < n
      then do { x \<leftarrow> array_get xs p; (l, h) \<leftarrow> ic_bounds xs n m lo p hi; Some (binary_encode l x h c, 0) }
      else Some (c, 0))"

definition ic_decode_entry :: "int list \<Rightarrow> int \<Rightarrow> int \<Rightarrow> int \<Rightarrow> int \<Rightarrow> int \<Rightarrow> range_coder \<Rightarrow> (range_coder \<times> int list) option" where
  "ic_decode_entry xs n m lo p hi c =
     (if p < n
      then do { _ \<leftarrow> array_get xs p; (l, h) \<leftarrow> ic_bounds xs n m lo p hi;
                let (c', v) = binary_decode l h c; Some (c', xs[nat p := v]) }
      else Some (c, xs))"

lemma ic_encode_recursive_r_eq:
  assumes "lo < n"
  shows "ic_encode_recursive_r xs n m lo p hi step c =
    Option.bind (ic_encode_entry xs n m lo p hi c) (\<lambda>(c1, _).
      if step > 1
      then Option.bind (ic_encode_recursive_r xs n m lo (p - step div 2) p (step div 2) c1) (\<lambda>(c2, _).
        map_option (\<lambda>(c', _). (c', 0)) (ic_encode_recursive_r xs n m p (p + step div 2) hi (step div 2) c2))
      else Some (c1, 0))"
  using assms
  by (subst ic_encode_recursive_r.simps)
    (auto simp: ic_encode_entry_def Let_def map_conv_bind_option case_prod_unfold split: Option.bind_split)

lemma ic_decode_recursive_r_eq:
  assumes "lo < n"
  shows "ic_decode_recursive_r xs n m lo p hi step c =
    Option.bind (ic_decode_entry xs n m lo p hi c) (\<lambda>(c1, xs1).
      if step > 1
      then Option.bind (ic_decode_recursive_r xs1 n m lo (p - step div 2) p (step div 2) c1) (\<lambda>(c2, xs2).
        ic_decode_recursive_r xs2 n m p (p + step div 2) hi (step div 2) c2)
      else Some (c1, xs1))"
  using assms by (subst ic_decode_recursive_r.simps) (auto simp: ic_decode_entry_def)

lemma codec_entry:
  assumes asc: "ascending_to m xs" and m: "m < 2 ^ 31 - 1" and len: "length xs \<le> length ys"
    and pos: "-1 \<le> lo" "lo < p" "p < int (length xs) \<longrightarrow> p < hi"
    and known: "known xs ys lo" "known xs ys hi"
  shows "rc.codec (ic_encode_entry xs (int (length xs)) m lo p hi) (ic_decode_entry ys (int (length xs)) m lo p hi)
     (if p < int (length xs) then ys[nat p := xs ! nat p] else ys)"
proof (cases "p < int (length xs)")
  case False
  then have "ic_encode_entry xs (int (length xs)) m lo p hi = (\<lambda>c. Some (c, 0))"
    "ic_decode_entry ys (int (length xs)) m lo p hi = (\<lambda>d. Some (d, ys))"
    by (auto simp: ic_encode_entry_def ic_decode_entry_def)
  with False show ?thesis using rc.codec_return by simp
next
  case True
  let ?x = "xs ! nat p"
  obtain l h where b: "ic_bounds ys (int (length xs)) m lo p hi = Some (l, h)" "l \<le> ?x" "?x \<le> h" "0 \<le> l" "h \<le> m"
    using ic_bounds_contain [OF asc len pos(1,2) True _ known] pos(3) True by blast
  have "ic_bounds xs (int (length xs)) m lo p hi = ic_bounds ys (int (length xs)) m lo p hi"
    using known len pos True by (auto simp: ic_bounds_def array_get_def known_def)
  then have bx: "ic_bounds xs (int (length xs)) m lo p hi = Some (l, h)" using b(1) by simp
  have "rc.codec (\<lambda>c. Some (range_encode_equiprobable c (h - l + 1) (?x - l)))
      (\<lambda>d. Some (range_decode_equiprobable d (h - l + 1))) (?x - l)"
    using b m by (intro codec_equiprobable) auto
  from rc.codec_code [OF rc.codec_value_map [OF this, where g = "\<lambda>v. ys[nat p := v + l]"], where f = "\<lambda>_. 0"]
  have "rc.codec (\<lambda>c. map_option (\<lambda>(c', r). (c', 0)) (Some (range_encode_equiprobable c (h - l + 1) (?x - l))))
      (\<lambda>d. map_option (\<lambda>(d', v). (d', ys[nat p := v + l])) (Some (range_decode_equiprobable d (h - l + 1))))
      (ys[nat p := ?x])" by simp
  then have "rc.codec (ic_encode_entry xs (int (length xs)) m lo p hi) (ic_decode_entry ys (int (length xs)) m lo p hi)
      (ys[nat p := ?x])"
    by (rule rc.codec_enc_dec_cong)
      (use True b(1) bx len pos in \<open>auto simp: ic_encode_entry_def ic_decode_entry_def array_get_def
        binary_encode_def binary_decode_def Let_def split: prod.split\<close>)
  with True show ?thesis by simp
qed

lemma half_power: "(2 :: int) ^ Suc j div 2 = 2 ^ j"
  by simp

lemma codec_ic_recursive_r:
  assumes asc: "ascending_to m xs" and m: "m < 2 ^ 31 - 1"
  shows "length xs \<le> length ys \<Longrightarrow> -1 \<le> lo \<Longrightarrow>
     hi = lo + 2 ^ Suc j \<or> hi = int (length xs) + 1 \<and> int (length xs) \<le> lo + 2 ^ Suc j \<Longrightarrow>
     known xs ys lo \<Longrightarrow> known xs ys hi \<Longrightarrow>
     rc.codec (ic_encode_recursive_r xs (int (length xs)) m lo (lo + 2 ^ j) hi (2 ^ j))
       (ic_decode_recursive_r ys (int (length xs)) m lo (lo + 2 ^ j) hi (2 ^ j)) (patch xs ys lo (lo + 2 ^ Suc j))"
proof (induction j arbitrary: lo hi ys)
  case (0 lo hi ys)
  let ?n = "int (length xs)"
  show ?case
  proof (cases "lo < ?n")
    case False
    then have "ic_encode_recursive_r xs ?n m lo (lo + 2 ^ 0) hi (2 ^ 0) = (\<lambda>c. Some (c, 0))"
      "ic_decode_recursive_r ys ?n m lo (lo + 2 ^ 0) hi (2 ^ 0) = (\<lambda>d. Some (d, ys))"
      by (auto simp: fun_eq_iff ic_encode_recursive_r.simps ic_decode_recursive_r.simps)
    with False show ?thesis using rc.codec_return by (simp add: patch_empty)
  next
    case True
    let ?ys1 = "if lo + 1 < ?n then ys[nat (lo + 1) := xs ! nat (lo + 1)] else ys"
    have "rc.codec (ic_encode_entry xs ?n m lo (lo + 1) hi) (ic_decode_entry ys ?n m lo (lo + 1) hi) ?ys1"
      using 0 by (intro codec_entry [OF asc m]) auto
    from rc.codec_code [OF this, where f = "\<lambda>_. 0", OF refl]
    have "rc.codec (ic_encode_recursive_r xs ?n m lo (lo + 2 ^ 0) hi (2 ^ 0))
       (ic_decode_recursive_r ys ?n m lo (lo + 2 ^ 0) hi (2 ^ 0)) ?ys1"
      by (rule rc.codec_enc_dec_cong)
        (use True in \<open>simp_all add: ic_encode_recursive_r_eq ic_decode_recursive_r_eq map_conv_bind_option
          case_prod_unfold comp_def split: Option.bind_split\<close>)
    moreover have "patch xs ys lo (lo + 2) = ?ys1" using 0 by (intro patch_single) auto
    ultimately show ?thesis by simp
  qed
next
  case (Suc j lo hi ys)
  let ?n = "int (length xs)" and ?p = "lo + 2 ^ Suc j"
  show ?case
  proof (cases "lo < ?n")
    case False
    then have "ic_encode_recursive_r xs ?n m lo ?p hi (2 ^ Suc j) = (\<lambda>c. Some (c, 0))"
      "ic_decode_recursive_r ys ?n m lo ?p hi (2 ^ Suc j) = (\<lambda>d. Some (d, ys))"
      by (auto simp: fun_eq_iff ic_encode_recursive_r.simps ic_decode_recursive_r.simps)
    with False show ?thesis using rc.codec_return by (simp add: patch_empty)
  next
    case True
    define ys1 where "ys1 = (if ?p < ?n then ys[nat ?p := xs ! nat ?p] else ys)"
    define ys2 where "ys2 = patch xs ys1 lo ?p"
    have "(1 :: int) \<le> 2 ^ Suc j" by (rule one_le_power) simp
    then have pos: "lo < ?p" "0 \<le> ?p" using Suc.prems(2) by linarith+
    have lens: "length xs \<le> length ys1" "length xs \<le> length ys2" using Suc.prems(1) by (simp_all add: ys1_def ys2_def)
    have entry: "rc.codec (ic_encode_entry xs ?n m lo ?p hi) (ic_decode_entry ys ?n m lo ?p hi) ys1"
      unfolding ys1_def using Suc.prems pos by (intro codec_entry [OF asc m]) auto
    have k1: "known xs ys1 lo" "known xs ys1 ?p"
      using Suc.prems pos by (auto simp: known_def ys1_def nth_list_update)
    have "known xs ys1 hi" using Suc.prems pos by (auto simp: known_def ys1_def nth_list_update)
    then have k2: "known xs ys2 ?p" "known xs ys2 hi"
      unfolding ys2_def using k1(2) lens(1) by (blast intro: known_patch)+
    have left: "rc.codec (ic_encode_recursive_r xs ?n m lo (lo + 2 ^ j) ?p (2 ^ j))
        (ic_decode_recursive_r ys1 ?n m lo (lo + 2 ^ j) ?p (2 ^ j)) ys2"
      unfolding ys2_def using Suc.prems(2) k1 lens by (intro Suc.IH) auto
    have right: "rc.codec (ic_encode_recursive_r xs ?n m ?p (?p + 2 ^ j) hi (2 ^ j))
        (ic_decode_recursive_r ys2 ?n m ?p (?p + 2 ^ j) hi (2 ^ j)) (patch xs ys2 ?p (?p + 2 ^ Suc j))"
      using Suc.prems pos k2 lens by (intro Suc.IH) auto
    have "patch xs ys2 ?p (?p + 2 ^ Suc j) = patch xs ys lo (lo + 2 ^ Suc (Suc j))"
      unfolding ys2_def using Suc.prems(2) pos by (subst patch_join [where ys = ys]) (auto simp: ys1_def add.commute)
    with rc.codec_code [OF right, where f = "\<lambda>_. 0"]
    have right': "rc.codec (\<lambda>c. map_option (\<lambda>(c', _). (c', 0)) (ic_encode_recursive_r xs ?n m ?p (?p + 2 ^ j) hi (2 ^ j) c))
        (ic_decode_recursive_r ys2 ?n m ?p (?p + 2 ^ j) hi (2 ^ j)) (patch xs ys lo (lo + 2 ^ Suc (Suc j)))" by simp
    note children = rc.codec_seq [OF left, where ?dec2.0 = "\<lambda>ys2. ic_decode_recursive_r ys2 ?n m ?p (?p + 2 ^ j) hi (2 ^ j)",
        OF right']
    note all = rc.codec_seq [OF entry, where ?dec2.0 = "\<lambda>ys1 d. Option.bind (ic_decode_recursive_r ys1 ?n m lo (lo + 2 ^ j) ?p (2 ^ j) d)
        (\<lambda>(d2, ys2). ic_decode_recursive_r ys2 ?n m ?p (?p + 2 ^ j) hi (2 ^ j) d2)", OF children]
    have gt: "(1 :: int) < 2 ^ Suc j" by (rule power_gt1) simp
    have half: "?p - 2 ^ j = lo + 2 ^ j" by simp
    show ?thesis
      by (rule rc.codec_enc_dec_cong [OF all])
        (simp_all only: ic_encode_recursive_r_eq [OF True, where p = ?p and hi = hi and step = "2 ^ Suc j"]
          ic_decode_recursive_r_eq [OF True, where p = ?p and hi = hi and step = "2 ^ Suc j"] half half_power gt if_True
          simp_thms)
  qed
qed

lemma codec_ic_recursive:
  assumes asc: "ascending_to m xs" and m: "m < 2 ^ 31 - 1" and ne: "xs \<noteq> []" "length xs < 2 ^ 31 - 1"
    and len: "length xs \<le> length ys"
  shows "rc.codec (ic_encode_recursive xs (int (length xs)) m) (ic_decode_recursive ys (int (length xs)) m)
     (xs @ drop (length xs) ys)"
proof -
  let ?n = "int (length xs)"
  obtain k where k: "biggest_power_of_2 (?n + 1) = 2 ^ k" "2 ^ k < ?n + 1" "?n + 1 \<le> 2 ^ Suc k"
    using ne by (elim biggest_power_of_2 [of "?n + 1", rotated 2]) auto
  have "rc.codec (ic_encode_recursive_r xs ?n m (-1) (-1 + 2 ^ k) (?n + 1) (2 ^ k))
       (ic_decode_recursive_r ys ?n m (-1) (-1 + 2 ^ k) (?n + 1) (2 ^ k)) (patch xs ys (-1) (-1 + 2 ^ Suc k))"
    using k len by (intro codec_ic_recursive_r [OF asc m]) (auto simp: known_def)
  moreover have "patch xs ys (-1) (-1 + 2 ^ Suc k) = xs @ drop (length xs) ys" using len k(3) by (intro patch_whole) auto
  ultimately have "rc.codec (\<lambda>c. map_option (\<lambda>(c', r). (c', 0)) (ic_encode_recursive_r xs ?n m (-1) (-1 + 2 ^ k) (?n + 1) (2 ^ k) c))
       (ic_decode_recursive_r ys ?n m (-1) (-1 + 2 ^ k) (?n + 1) (2 ^ k)) (xs @ drop (length xs) ys)"
    using rc.codec_code [where f = "\<lambda>_. 0"] by simp
  then show ?thesis
    by (rule rc.codec_enc_dec_cong)
      (simp_all add: ic_encode_recursive_def ic_decode_recursive_def Let_def k(1))
qed

end
