(* ===== verification/PackedStats.thy ===== *)
theory PackedStats
  imports Charset Interpolative
begin

text \<open>
  \<^verbatim>\<open>forms/packed_stats.c\<close>: the statistics file behind the text model. The file is a list of bytes (mapped or
  loaded by the C code; bytes read past its end are taken to be 0). Its header holds the case and length
  statistics, the rest a tree of letter counts whose nodes are themselves range coded. \<open>None\<close> stands for
  a null pointer, an \<^verbatim>\<open>exit\<close> or an access outside an array.

  The Unicode page statistics (\<^verbatim>\<open>getUnicodeStatistics\<close>, rescaled in floating point) are not modelled, nor
  are the reports and the freeing of memory. \<^verbatim>\<open>dummyOffset\<close> is 0 for every handle the program makes.
\<close>

section \<open>State\<close>

datatype node = Node (node_count: int) (node_counts: "u32 list") (node_children: "node option list")

record stats_handle =
  file_bytes :: "u8 list"
  rootNodeAddress :: u32
  totalCount :: u32
  unicodeAddress :: u32
  maximumOrder :: u32
  casestartofmessage :: u32
  casestartofword2 :: "u32 list"
  casestartofword3 :: "u32 list list"
  caseposn1 :: "u32 list"
  caseposn2 :: "u32 list list"
  messagelengths :: "u32 list"
  tree :: "node option"

definition fileLength :: "stats_handle \<Rightarrow> int" where
  "fileLength h = int (length (file_bytes h))"

text \<open>The memory at the returned address; callers read a fixed number of bytes from it.\<close>

definition getCompressedBytes :: "stats_handle \<Rightarrow> int \<Rightarrow> nat \<Rightarrow> u8 list option" where
  "getCompressedBytes h start count =
     (if start < 0 \<or> start \<ge> fileLength h then None
      else Some (take count (drop (nat start) (file_bytes h) @ replicate count 0)))"

section \<open>Header\<close>

fun read_bytes :: "nat \<Rightarrow> u32 \<Rightarrow> u8 list \<Rightarrow> u32 \<times> u8 list" where
  "read_bytes 0 v ptr = (v, ptr)"
| "read_bytes (Suc n) v ptr = read_bytes n (push_bit 8 v OR ucast (hd ptr)) (tl ptr)"

definition read24bits :: "u8 list \<Rightarrow> u32 \<times> u8 list" where
  "read24bits ptr = read_bytes 3 0 ptr"

text \<open>\<^verbatim>\<open>CHECK(X)\<close>.\<close>

definition checked_24 :: "u32 \<Rightarrow> bool" where
  "checked_24 x \<longleftrightarrow> \<not> (x = 0 \<or> x > 0xfffffe)"

fun read24s :: "nat \<Rightarrow> u8 list \<Rightarrow> u32 list \<times> u8 list" where
  "read24s 0 ptr = ([], ptr)"
| "read24s (Suc n) ptr = (let (x, p1) = read24bits ptr; (xs, p2) = read24s n p1 in (x # xs, p2))"

text \<open>The decoder of a piece of the file: a coder whose buffer is that piece.\<close>

definition file_coder :: "u8 list \<Rightarrow> nat \<Rightarrow> range_coder" where
  "file_coder bs n = range_decode_prefetch
     ((range_new_coder (\<lambda>_. 0) 0)\<lparr>bit_stream := bs, bit_stream_length := n * 8\<rparr>)"

text \<open>The message length statistics, scaled to 24 bits. The C code scales in double precision: the product is
  below \<open>2 ^ 48\<close> and the quotient of two integers below \<open>2 ^ 48\<close> and \<open>2 ^ 24\<close> is too far from the next
  integer for rounding to reach it, so truncation gives the integer quotient.\<close>

definition load_lengths :: "u32 \<Rightarrow> u8 list \<Rightarrow> u32 list option" where
  "load_lengths tally ptr = do {
     (c, lengths) \<leftarrow> ic_decode_recursive (replicate 1024 0) 1024 (uint tally) (file_coder (take 4096 ptr) 4096);
     Some (map (\<lambda>x. word_of_int (c_div (x * 0xffffff) (uint tally))) lengths) }"

text \<open>\<^verbatim>\<open>load_headers\<close>. The single-value CHECK of \<open>caseposn1\<close> always tests its first entry; the second-order table
  is stored position by position and its position 0 stays 0.\<close>

definition load_headers :: "u8 list \<Rightarrow> stats_handle option" where
  "load_headers bs = do {
     let n = (3 * 4) + 1 + (1 + 2 + 4 + 80 + 160 + 1) * 3 + 4096;
     ptr \<leftarrow> (if 4 \<ge> length bs then None else Some (take n (drop 4 bs @ replicate n 0)));
     let (root, ptr) = read_bytes 4 0 ptr;
     let (tot, ptr) = read_bytes 4 0 ptr;
     let (uni, ptr) = read_bytes 4 0 ptr;
     let (order, ptr) = read_bytes 1 0 ptr;
     let (som, ptr) = read24bits ptr;
     let (sow2, ptr) = read24s 2 ptr;
     let (sow3, ptr) = read24s 4 ptr;
     let (posn1, ptr) = read24s 80 ptr;
     let (posn2, ptr) = read24s 158 ptr;
     (if \<not> (checked_24 som \<and> list_all checked_24 sow2 \<and> list_all checked_24 sow3
            \<and> checked_24 (hd posn1) \<and> list_all checked_24 posn2) then None
      else do {
        let (tally, ptr) = read24bits ptr;
        lengths \<leftarrow> load_lengths tally ptr;
        Some \<lparr>file_bytes = bs, rootNodeAddress = root, totalCount = tot, unicodeAddress = uni,
              maximumOrder = order, casestartofmessage = som, casestartofword2 = sow2,
              casestartofword3 = [take 2 sow3, drop 2 sow3], caseposn1 = posn1,
              caseposn2 = map (\<lambda>j. 0 # map (\<lambda>i. posn2 ! (2 * i + j)) [0..<79]) [0, 1],
              messagelengths = lengths, tree = None\<rparr> }) }"

definition stats_mapped_file :: "u8 list \<Rightarrow> stats_handle option" where
  "stats_mapped_file bs = load_headers bs"

section \<open>Nodes\<close>

text \<open>\<^verbatim>\<open>(CHARCOUNT-i-n)*0xffffff/(CHARCOUNT-i)\<close> as an unsigned frequency.\<close>

definition remaining_frequency :: "int \<Rightarrow> int \<Rightarrow> u32" where
  "remaining_frequency i n = word_of_int (c_div ((CHARCOUNT - i - n) * 0xffffff) (CHARCOUNT - i))"

text \<open>The first loop: the counts of the 65 letters from letter \<open>i\<close> on.\<close>

fun extract_counts :: "nat \<Rightarrow> int \<Rightarrow> int \<Rightarrow> u32 \<Rightarrow> u32 \<Rightarrow> range_coder \<Rightarrow> range_coder \<times> u32 list \<times> u32" where
  "extract_counts 0 i children tot progressive c = (c, [], progressive)"
| "extract_counts (Suc n) i children tot progressive c =
     (let (c1, countPresent) = range_decode_symbol c [remaining_frequency i children] 2
      in if countPresent \<noteq> 0
         then let (c2, v) = range_decode_equiprobable c1 (sint (tot - progressive + 1));
                  thisCount = word_of_int v;
                  (c3, xs, p) = extract_counts n (i + 1) (children - 1) tot (progressive + thisCount) c2
              in (c3, thisCount # xs, p)
         else let (c3, xs, p) = extract_counts n (i + 1) children tot progressive c1
              in (c3, 0 # xs, p))"

text \<open>The second loop: the addresses of the stored children, \<open>None\<close> where there is none.\<close>

fun extract_addresses :: "nat \<Rightarrow> int \<Rightarrow> int \<Rightarrow> u32 \<Rightarrow> u32 \<Rightarrow> range_coder \<Rightarrow> u32 option list" where
  "extract_addresses 0 i stored lowAddr highAddr c = []"
| "extract_addresses (Suc n) i stored lowAddr highAddr c =
     (let (c1, addrP) = range_decode_symbol c [remaining_frequency i stored] 2
      in if addrP \<noteq> 0
         then let (c2, v) = range_decode_equiprobable c1 (sint (highAddr - lowAddr + 1));
                  childAddress = lowAddr + word_of_int v
              in Some childAddress # extract_addresses n (i + 1) (stored - 1) childAddress highAddr c2
         else None # extract_addresses n (i + 1) stored lowAddr highAddr c1)"

text \<open>Reading a node; the recursion is into the child for the last letter of the context, or into all
  children. Decoding the addresses does not depend on the recursion, so the loop that interleaves the two
  in the C code is written as decoding followed by recursion.\<close>

function extractNodeAt :: "u16 list \<Rightarrow> int \<Rightarrow> u32 \<Rightarrow> u32 \<Rightarrow> stats_handle \<Rightarrow> bool \<Rightarrow> node option" where
  "extractNodeAt s len nodeAddress count h extractAllP =
     (if len < - uint (maximumOrder h) then None
      else if nodeAddress < 700 then None
      else case getCompressedBytes h (sint nodeAddress) 1024 of
        None \<Rightarrow> None
      | Some bs \<Rightarrow>
          (let c = file_coder bs 1024;
               (c1, tot) = range_decode_equiprobable c (sint (count + 1));
               (c2, children) = range_decode_equiprobable c1 (CHARCOUNT + 1);
               (c3, storedChildren) = range_decode_equiprobable c2 (CHARCOUNT + 1);
               (c4, counts, progressive) = extract_counts 65 0 children (word_of_int tot) 0 c3;
               addresses = extract_addresses 65 0 storedChildren 0 nodeAddress c4;
               kids = map (\<lambda>i. case addresses ! i of
                          None \<Rightarrow> None
                        | Some a \<Rightarrow>
                            if extractAllP \<or> len > 0 \<and> chars ! i = s ! nat (len - 1)
                            then extractNodeAt s (len - 1) a progressive h extractAllP
                            else None) [0..<65];
               n = Node (uint (word_of_int tot :: u32)) counts kids
           in if extractAllP then Some n
              else case filter (\<lambda>k. k \<noteq> None) kids of [] \<Rightarrow> Some n | k # ks \<Rightarrow> last (k # ks)))"
  by pat_completeness auto
termination
  by (relation "measure (\<lambda>(s, len, a, c, h, e). nat (len + uint (maximumOrder h) + 1))") auto

declare extractNodeAt.simps [simp del]

definition stats_load_tree :: "stats_handle \<Rightarrow> stats_handle" where
  "stats_load_tree h =
     (case tree h of
        None \<Rightarrow> h\<lparr>tree := extractNodeAt [] 0 (rootNodeAddress h) (totalCount h) h True\<rparr>
      | Some n \<Rightarrow> h)"

text \<open>The walk down a loaded tree, last letter of the context first.\<close>

fun walk_tree :: "node \<Rightarrow> u16 list \<Rightarrow> node option" where
  "walk_tree n [] = Some n"
| "walk_tree n (x # xs) =
     (if charIdx x < 0 then None
      else case node_children n ! nat (charIdx x) of None \<Rightarrow> Some n | Some k \<Rightarrow> walk_tree k xs)"

definition extractNode :: "u16 list \<Rightarrow> stats_handle \<Rightarrow> node option" where
  "extractNode s h =
     (case tree h of
        Some n \<Rightarrow> walk_tree n (rev s)
      | None \<Rightarrow> extractNodeAt s (int (length s)) (rootNodeAddress h) (totalCount h) h False)"

section \<open>Vectors\<close>

fun cumulate :: "int \<Rightarrow> u32 \<Rightarrow> u32 list \<Rightarrow> u32 list" where
  "cumulate scale cumulative [] = []"
| "cumulate scale cumulative (x # xs) =
     (let v = cumulative + (x + 1) * word_of_int scale in v # cumulate scale v xs)"

definition node_vector :: "node \<Rightarrow> u32 list option" where
  "node_vector n =
     (let scale = 0xffffff div (node_count n + CHARCOUNT)
      in if scale = 0 then None else Some (cumulate scale 0 (take 65 (node_counts n))))"

definition extractVector :: "u16 list \<Rightarrow> stats_handle \<Rightarrow> u32 list option" where
  "extractVector s h = Option.bind (extractNode s h) node_vector"

section \<open>A consistent node gives a usable table\<close>

text \<open>A node whose 65 counts add up to no more than its total, which is small enough to be scaled.\<close>

definition node_ok :: "node \<Rightarrow> bool" where
  "node_ok n \<longleftrightarrow> length (node_counts n) = 65 \<and>
     int (sum_list (map unat (node_counts n))) \<le> node_count n \<and> node_count n + CHARCOUNT \<le> 0xffffff"

lemma cumulate_bounds:
  assumes "0 < k" "k \<le> 16777215" "unat a + k * sum_list (map (\<lambda>x. unat x + 1) xs) \<le> 16777215"
  shows "sorted_wrt (<) (cumulate (int k) a xs) \<and>
     (\<forall>v \<in> set (cumulate (int k) a xs). unat a < unat v \<and> unat v \<le> 16777215)"
  using assms(3)
proof (induction xs arbitrary: a)
  case (Cons x xs)
  let ?v = "a + (x + 1) * word_of_int (int k)"
  have small: "k * (unat x + 1) \<le> 16777215" "unat x + 1 \<le> 16777215"
  proof -
    show k: "k * (unat x + 1) \<le> 16777215" using Cons.prems by (simp add: algebra_simps)
    have "unat x + 1 \<le> k * (unat x + 1)" using assms(1) by (cases k) simp_all
    from this k show "unat x + 1 \<le> 16777215" by (rule order_trans)
  qed
  have "unat (x + 1) = unat x + 1" using small(2) by (simp add: unat_word_ariths)
  moreover have "unat (word_of_int (int k) :: u32) = k"
    using assms(2) by (simp add: unsigned_of_nat take_bit_eq_mod)
  ultimately have "unat ((x + 1) * word_of_int (int k)) = k * (unat x + 1)"
    using small(1) by (simp add: unat_word_ariths mult.commute)
  moreover have sum: "unat a + k * (unat x + 1) + k * sum_list (map (\<lambda>x. unat x + 1) xs) \<le> 16777215"
    using Cons.prems by (simp add: algebra_simps)
  then have "unat a + k * (unat x + 1) < 4294967296" by linarith
  ultimately have v: "unat ?v = unat a + k * (unat x + 1)"
    by (simp only: unat_word_ariths(1)) simp
  with sum have "unat ?v + k * sum_list (map (\<lambda>x. unat x + 1) xs) \<le> 16777215" by (simp only:)
  note ih = Cons.IH [OF this]
  have a: "unat a < unat ?v" "unat ?v \<le> 16777215" using assms(1) sum unfolding v by simp_all
  have "?v < w \<and> unat a < unat w \<and> unat w \<le> 16777215" if "w \<in> set (cumulate (int k) ?v xs)" for w
    using ih a(1) that unfolding word_less_nat_alt by (meson less_trans)
  with ih a show ?case by (simp add: Let_def)
qed simp

lemma length_cumulate [simp]: "length (cumulate k a xs) = length xs"
  by (induction xs arbitrary: a) (auto simp: Let_def)

text \<open>Any strictly ascending table with entries inside the scale codes every symbol.\<close>

lemma table_ok_ascending:
  assumes "sorted_wrt (<) v" "\<forall>x \<in> set v. 0 < x \<and> x < MAXVALUEPLUS1" "A \<le> int (length v) + 1" "0 \<le> k" "k < A"
  shows "table_ok v A k"
proof -
  have "sorted v" using assms(1) by (auto simp: sorted_wrt_iff_nth_less sorted_iff_nth_mono_less intro: order_less_imp_le)
  then have "sorted (take (nat (A - 1)) v)" by (rule sorted_wrt_take)
  moreover have "v ! nat (k - 1) < v ! nat k" if "0 < k" "k < A - 1"
    using assms that by (intro sorted_wrt_nth_less [OF assms(1)]) auto
  moreover have "0 < v ! nat i \<and> v ! nat i < MAXVALUEPLUS1" if "0 \<le> i" "i < A - 1" for i
    using assms(2,3) that by (auto intro!: nth_mem)
  note this [of k] this [of "k - 1"]
  ultimately show ?thesis using assms(3-5)
    by (auto simp: table_ok_def table_low_def table_high_def)
qed

lemma sum_list_plus_1: "sum_list (map (\<lambda>x. unat x + 1) xs) = sum_list (map unat xs) + length xs"
  by (induction xs) auto

lemma node_vector_ok:
  assumes "node_ok n"
  shows "\<exists>v. node_vector n = Some v \<and> (\<forall>k. 0 \<le> k \<and> k < CHARCOUNT \<longrightarrow> table_ok v CHARCOUNT k)"
proof -
  let ?xs = "node_counts n"
  define k where "k = nat (0xffffff div (node_count n + CHARCOUNT))"
  have c: "0 \<le> node_count n" "length ?xs = 65" using assms by (auto simp: node_ok_def)
  have s: "0xffffff div (node_count n + CHARCOUNT) = int k" and k0: "0 < k"
    using assms c(1) pos_imp_zdiv_pos_iff [of "node_count n + CHARCOUNT" "0xffffff"]
    by (auto simp: k_def node_ok_def)
  have "int (sum_list (map (\<lambda>x. unat x + 1) ?xs)) \<le> node_count n + CHARCOUNT"
    using assms unfolding sum_list_plus_1 by (simp add: node_ok_def)
  then have "int k * int (sum_list (map (\<lambda>x. unat x + 1) ?xs)) \<le> int k * (node_count n + CHARCOUNT)"
    by (intro mult_left_mono) simp_all
  also have "\<dots> \<le> 0xffffff"
    unfolding s [symmetric] using c(1) div_mult_mod_eq [of "0xffffff" "node_count n + CHARCOUNT"]
      pos_mod_sign [of "node_count n + CHARCOUNT" "0xffffff"] by linarith
  finally have sum: "unat (0 :: u32) + k * sum_list (map (\<lambda>x. unat x + 1) ?xs) \<le> 16777215"
    by (simp flip: of_nat_mult)
  moreover have "k \<le> 16777215"
  proof -
    have "k * 1 \<le> k * sum_list (map (\<lambda>x. unat x + 1) ?xs)"
      using c(2) by (intro mult_le_mono2) (cases ?xs, auto)
    also have "\<dots> \<le> 16777215" using sum by simp
    finally show ?thesis by simp
  qed
  ultimately have "sorted_wrt (<) (cumulate (int k) 0 ?xs)"
    "\<forall>v \<in> set (cumulate (int k) 0 ?xs). 0 < v \<and> v < MAXVALUEPLUS1"
    using cumulate_bounds [OF k0, of 0 ?xs] by (auto simp: word_less_nat_alt)
  then have "table_ok (cumulate (int k) 0 ?xs) CHARCOUNT i" if "0 \<le> i \<and> i < CHARCOUNT" for i
    using that c(2) by (intro table_ok_ascending) auto
  moreover have "node_vector n = Some (cumulate (int k) 0 ?xs)"
    using c(2) k0 by (simp add: node_vector_def s)
  ultimately show ?thesis by blast
qed

end
