(* ===== verification/CaseModel.thy ===== *)
theory CaseModel
  imports PackedStats
begin

text \<open>
  \<^verbatim>\<open>forms/case.c\<close>: the case of the letters is coded apart from the letters, each decision with a probability
  that depends on the position in the word and the case of earlier letters. The file is compiled twice, for
  encoding and for decoding; both directions share the context computation here as they do there.
  \<^verbatim>\<open>isupper\<close> is used as the symbol 0 or 1, as the C library of the target platform returns it. The
  classification functions are called on units above 0xff by \<^verbatim>\<open>mungeCase\<close>; no such unit is a letter here.
\<close>

section \<open>Model\<close>

definition stripCase :: "u16 list \<Rightarrow> u16 list" where
  "stripCase inp = map (\<lambda>x. if x < 0x80 then c_tolower x else x) inp"

text \<open>One round of the loop of \<^verbatim>\<open>mungeCase\<close>.\<close>

definition munge_at :: "nat \<Rightarrow> u16 list \<Rightarrow> u16 list" where
  "munge_at i m =
     (if m ! i < 0x80 \<and> c_tolower (m ! i) = 0x69 \<and> \<not> c_isalpha (m ! (i - 1)) \<and> \<not> c_isalpha (m ! (i + 1))
      then m[i := m ! i XOR 0x20] else m)"

definition mungeCase :: "u16 list \<Rightarrow> u16 list" where
  "mungeCase m = fold munge_at [1..<length m - 1] m"

record case_state =
  wordNumber :: int
  wordPosn :: int
  lastWordInitialCase :: nat
  lastWordInitialCase2 :: nat
  lastCase :: nat

definition case_start :: case_state where
  "case_start = \<lparr>wordNumber = 0, wordPosn = -1, lastWordInitialCase = 0, lastWordInitialCase2 = 0, lastCase = 0\<rparr>"

fun caseposn2_search :: "u32 list \<Rightarrow> nat \<Rightarrow> nat" where
  "caseposn2_search f 0 = 0"
| "caseposn2_search f (Suc p) = (if f ! Suc p = 0 then caseposn2_search f p else Suc p)"

text \<open>What happens before the case of the character at index \<open>i\<close> is coded: the new state, and the
  probability of lower case if the character is a letter.\<close>

definition case_context :: "stats_handle \<Rightarrow> nat \<Rightarrow> u16 \<Rightarrow> case_state \<Rightarrow> case_state \<times> u32 option" where
  "case_context h i x st =
     (if \<not> charInWord x then (st\<lparr>wordPosn := -1, lastCase := 0\<rparr>, None)
      else if \<not> c_isalpha x then (st, None)
      else let st = (if wordPosn st < 0 then st\<lparr>wordNumber := wordNumber st + 1\<rparr> else st);
               st = st\<lparr>wordPosn := wordPosn st + 1\<rparr>
           in if wordPosn st = 0
              then (st, Some (if i = 0 then casestartofmessage h
                      else if wordNumber st > 2
                      then casestartofword3 h ! lastWordInitialCase2 st ! lastWordInitialCase st
                      else if wordNumber st > 1 then casestartofword2 h ! lastWordInitialCase st
                      else caseposn1 h ! 0))
              else let st = (if wordPosn st > 79 then st\<lparr>wordPosn := 79\<rparr> else st);
                       f = caseposn2 h ! lastCase st
                   in (st, Some (f ! caseposn2_search f (nat (wordPosn st)))))"

text \<open>What happens after it: \<open>x\<close> is the character with its case settled.\<close>

definition case_after :: "u16 \<Rightarrow> case_state \<Rightarrow> case_state" where
  "case_after x st =
     (let st = st\<lparr>lastCase := (if c_isupper x then 1 else 0)\<rparr>
      in if wordPosn st = 0
         then st\<lparr>lastWordInitialCase2 := lastWordInitialCase st, lastWordInitialCase := lastCase st\<rparr>
         else st)"

fun encode_case :: "stats_handle \<Rightarrow> nat \<Rightarrow> case_state \<Rightarrow> u16 list \<Rightarrow> range_coder \<Rightarrow> (range_coder \<times> int) option" where
  "encode_case h i st [] c = Some (c, 0)"
| "encode_case h i st (x # line) c =
     (case case_context h i x st of
        (st1, None) \<Rightarrow> encode_case h (i + 1) st1 line c
      | (st1, Some f) \<Rightarrow> do {
          (c1, _) \<leftarrow> range_encode_symbol c [f] 2 (if c_isupper x then 1 else 0);
          encode_case h (i + 1) (case_after x st1) line c1 })"

definition encodeCaseModel1 :: "stats_handle \<Rightarrow> u16 list \<Rightarrow> range_coder \<Rightarrow> (range_coder \<times> int) option" where
  "encodeCaseModel1 h line c = encode_case h 0 case_start line c"

text \<open>A failed decoding of a letter that does not start a word ends the program.\<close>

fun decode_case :: "stats_handle \<Rightarrow> nat \<Rightarrow> case_state \<Rightarrow> u16 list \<Rightarrow> range_coder \<Rightarrow> (range_coder \<times> u16 list) option" where
  "decode_case h i st [] c = Some (c, [])"
| "decode_case h i st (x # line) c =
     (case case_context h i x st of
        (st1, None) \<Rightarrow> map_option (\<lambda>(c', l). (c', x # l)) (decode_case h (i + 1) st1 line c)
      | (st1, Some f) \<Rightarrow>
          (let (c1, upper) = range_decode_symbol c [f] 2;
               y = (if upper = 1 then c_toupper x else x)
           in if upper = -1 \<and> wordPosn st1 \<noteq> 0 then None
              else map_option (\<lambda>(c', l). (c', y # l)) (decode_case h (i + 1) (case_after y st1) line c1)))"

definition decodeCaseModel1 :: "stats_handle \<Rightarrow> u16 list \<Rightarrow> range_coder \<Rightarrow> (range_coder \<times> u16 list) option" where
  "decodeCaseModel1 h line c = decode_case h 0 case_start line c"

section \<open>Letters\<close>

definition fold_case :: "u16 \<Rightarrow> u16" where
  "fold_case x = (if x < 0x80 then c_tolower x else x)"

lemma stripCase_eq: "stripCase m = map fold_case m"
  by (simp add: stripCase_def fold_case_def)

lemma isupper_range: "c_isupper x \<longleftrightarrow> 65 \<le> unat x \<and> unat x \<le> 90"
  by (simp add: c_isupper_def word_le_nat_alt)

lemma islower_range: "c_islower x \<longleftrightarrow> 97 \<le> unat x \<and> unat x \<le> 122"
  by (simp add: c_islower_def word_le_nat_alt)

lemma unat_tolower: "unat (c_tolower x) = (if c_isupper x then unat x + 32 else unat x)"
  by (simp add: c_tolower_def isupper_range unat_word_ariths)

lemma fold_case_eq: "fold_case x = (if c_isupper x then x + 0x20 else x)"
  by (auto simp: fold_case_def c_tolower_def isupper_range word_less_nat_alt)

lemma fold_case_class:
  "c_isalpha (fold_case x) = c_isalpha x" "charInWord (fold_case x) = charInWord x" "\<not> c_isupper (fold_case x)"
proof -
  have u: "unat (fold_case x) = (if c_isupper x then unat x + 32 else unat x)"
    by (simp add: fold_case_eq isupper_range unat_word_ariths)
  show up: "\<not> c_isupper (fold_case x)" using u by (auto simp: isupper_range split: if_splits)
  show "c_isalpha (fold_case x) = c_isalpha x"
    using u by (auto simp: c_isalpha_def isupper_range islower_range split: if_splits)
  have "c_tolower (fold_case x) = c_tolower x"
    using up by (auto simp: c_tolower_def fold_case_eq)
  moreover have "fold_case x < 0x80 \<longleftrightarrow> x < 0x80"
    using u by (auto simp: word_less_nat_alt isupper_range split: if_splits)
  ultimately show "charInWord (fold_case x) = charInWord x" by (simp add: charInWord_def)
qed

text \<open>Capitalising the folded letter gives the letter back.\<close>

lemma refold: "c_isupper x \<Longrightarrow> c_toupper (fold_case x) = x"
  by (simp add: c_toupper_def fold_case_eq islower_range isupper_range unat_word_ariths)

lemma fold_case_lower [simp]: "\<not> c_isupper x \<Longrightarrow> fold_case x = x"
  by (simp add: fold_case_eq)

lemma letter_in_word: "c_isupper x \<Longrightarrow> charInWord x"
proof -
  assume "c_isupper x"
  then have r: "65 \<le> unat x" "unat x \<le> 90" by (simp_all add: isupper_range)
  then have "c_tolower x = of_nat (unat x + 32)"
    by (simp add: c_tolower_def isupper_range)
  moreover have "unat x + 32 \<in> {0x61..<0x7b}" using r by simp
  ultimately have "c_tolower x \<in> of_nat ` {0x61..<0x7b}" by (rule image_eqI)
  then have "c_tolower x \<in> set wordChars"
    by (simp only: wordChars_def lower_letters_def set_append list.set_map set_upt Un_iff simp_thms)
  with r show ?thesis by (simp add: charInWord_def word_less_nat_alt)
qed

section \<open>Round trip of the case model\<close>

definition prob_ok :: "u32 \<Rightarrow> bool" where "prob_ok f \<longleftrightarrow> 0 < f \<and> f < MAXVALUEPLUS1"

definition case_stats_ok :: "stats_handle \<Rightarrow> bool" where
  "case_stats_ok h \<longleftrightarrow> prob_ok (casestartofmessage h) \<and>
     (\<forall>a < 2. prob_ok (casestartofword2 h ! a)) \<and>
     (\<forall>a < 2. \<forall>b < 2. prob_ok (casestartofword3 h ! a ! b)) \<and> prob_ok (caseposn1 h ! 0) \<and>
     (\<forall>a < 2. \<forall>p. 1 \<le> p \<and> p < 80 \<longrightarrow> prob_ok (caseposn2 h ! a ! p))"

definition case_state_ok :: "case_state \<Rightarrow> bool" where
  "case_state_ok st \<longleftrightarrow> -1 \<le> wordPosn st \<and> lastWordInitialCase st < 2 \<and> lastWordInitialCase2 st < 2 \<and> lastCase st < 2"

lemma caseposn2_search_hit: "f ! p \<noteq> 0 \<Longrightarrow> caseposn2_search f p = p"
  by (cases p) auto

lemma case_context_ok:
  assumes "case_stats_ok h" "case_state_ok st" "case_context h i x st = (st1, r)"
  shows "case_state_ok st1" "r = Some f \<Longrightarrow> prob_ok f"
proof -
  show "case_state_ok st1"
    using assms(2,3) by (auto simp: case_context_def case_state_ok_def Let_def split: if_splits)
  have pos: "prob_ok (g ! caseposn2_search g (nat p))"
    if "0 < p" "p \<le> 79" "g = caseposn2 h ! a" "a < 2" for g p a
  proof -
    have "1 \<le> nat p \<and> nat p < 80" using that by linarith
    then have "prob_ok (g ! nat p)" using assms(1) that(3,4) by (simp add: case_stats_ok_def)
    moreover from this have "g ! nat p \<noteq> 0" by (auto simp: prob_ok_def)
    ultimately show ?thesis by (simp add: caseposn2_search_hit)
  qed
  show "prob_ok f" if "r = Some f"
    using assms that pos pos [of 79 "caseposn2 h ! lastCase st" "lastCase st"]
    by (auto simp: case_context_def case_state_ok_def case_stats_ok_def Let_def split: if_splits)
qed

lemma case_after_ok: "case_state_ok st \<Longrightarrow> case_state_ok (case_after x st)"
  by (auto simp: case_after_def case_state_ok_def Let_def)

lemma case_context_fold: "case_context h i (fold_case x) st = case_context h i x st"
  by (simp add: case_context_def fold_case_class)

lemma case_context_silent: "case_context h i x st = (st1, None) \<Longrightarrow> \<not> c_isupper x"
  using letter_in_word [of x] by (auto simp: case_context_def Let_def c_isalpha_def split: if_splits)

lemma codec_case:
  assumes "case_stats_ok h"
  shows "case_state_ok st \<Longrightarrow>
    rc.codec (encode_case h i st line) (decode_case h i st (map fold_case line)) line"
proof (induction line arbitrary: i st)
  case Nil
  have "encode_case h i st [] = (\<lambda>c. Some (c, 0))" "decode_case h i st [] = (\<lambda>d. Some (d, []))" by auto
  then show ?case using rc.codec_return by simp
next
  case (Cons x line)
  obtain st1 r where ctx: "case_context h i x st = (st1, r)" by fastforce
  note ok = case_context_ok [OF assms Cons.prems ctx]
  show ?case
  proof (cases r)
    case None
    then have "\<not> c_isupper x" using ctx case_context_silent by blast
    then show ?thesis
      by (intro rc.codec_enc_dec_cong [OF rc.codec_value_map [OF Cons.IH [OF ok(1), of "i + 1"], of "\<lambda>l. x # l"]])
        (simp_all add: ctx None case_context_fold)
  next
    case (Some f)
    let ?s = "if c_isupper x then 1 else 0 :: int"
    define dec2 where "dec2 = (\<lambda>upper d1. let y = (if upper = (1 :: int) then c_toupper (fold_case x) else fold_case x)
        in if upper = -1 \<and> wordPosn st1 \<noteq> 0 then None
           else map_option (\<lambda>(c', l). (c', y # l))
             (decode_case h (i + 1) (case_after y st1) (map fold_case line) d1))"
    have sym: "rc.codec (\<lambda>c. range_encode_symbol c [f] 2 ?s) (\<lambda>d. Some (range_decode_symbol d [f] 2)) ?s"
      using ok(2) [OF Some] by (intro codec_symbol) (auto simp: prob_ok_def table_ok_def table_low_def table_high_def)
    have "rc.codec (encode_case h (i + 1) (case_after x st1) line)
        (\<lambda>d. map_option (\<lambda>(c', l). (c', x # l)) (decode_case h (i + 1) (case_after x st1) (map fold_case line) d))
        (x # line)"
      by (rule rc.codec_value_map [OF Cons.IH [OF case_after_ok [OF ok(1)]]])
    moreover have "dec2 ?s = (\<lambda>d. map_option (\<lambda>(c', l). (c', x # l))
        (decode_case h (i + 1) (case_after x st1) (map fold_case line) d))"
      by (auto simp: dec2_def refold)
    ultimately have rest: "rc.codec (encode_case h (i + 1) (case_after x st1) line) (dec2 ?s) (x # line)" by simp
    show ?thesis
      by (rule rc.codec_enc_dec_cong [OF rc.codec_seq [OF sym, where ?dec2.0 = dec2, OF rest]])
        (simp_all add: ctx Some case_context_fold dec2_def Let_def split: prod.split)
  qed
qed

section \<open>\<open>mungeCase\<close> undoes itself\<close>

definition isolated_i :: "u16 list \<Rightarrow> nat \<Rightarrow> bool" where
  "isolated_i m i \<longleftrightarrow> m ! i < 0x80 \<and> c_tolower (m ! i) = 0x69 \<and> \<not> c_isalpha (m ! (i - 1)) \<and> \<not> c_isalpha (m ! (i + 1))"

definition munged :: "u16 list \<Rightarrow> nat set \<Rightarrow> u16 list" where
  "munged m I = map (\<lambda>i. if i \<in> I \<and> isolated_i m i then m ! i XOR 0x20 else m ! i) [0..<length m]"

lemma the_i:
  assumes "c_tolower x = 0x69"
  shows "x = 0x49 \<or> x = 0x69"
proof -
  have "unat (c_tolower x) = 105" using assms by simp
  then show ?thesis by (auto simp: unat_tolower word_unat_eq_iff split: if_splits)
qed

lemma toggled_i: "c_tolower x = 0x69 \<Longrightarrow> c_tolower (x XOR 0x20) = 0x69 \<and> x XOR 0x20 < 0x80 \<and> c_isalpha (x XOR 0x20)"
  by (drule the_i) (auto simp: c_tolower_def c_isupper_def c_islower_def c_isalpha_def)

lemma i_alpha: "c_tolower x = 0x69 \<Longrightarrow> c_isalpha x"
  by (drule the_i) (auto simp: c_isupper_def c_islower_def c_isalpha_def)

lemma munged_alpha: "j < length m \<Longrightarrow> c_isalpha (munged m I ! j) = c_isalpha (m ! j)"
  by (auto simp: munged_def isolated_i_def toggled_i i_alpha)

lemma munged_isolated:
  assumes "1 \<le> i" "i < length m - 1"
  shows "isolated_i (munged m I) i = isolated_i m i"
proof -
  have "c_isalpha (munged m I ! (i - 1)) = c_isalpha (m ! (i - 1))"
    "c_isalpha (munged m I ! (i + 1)) = c_isalpha (m ! (i + 1))"
    using assms by (intro munged_alpha; simp)+
  moreover have "munged m I ! i = (if i \<in> I \<and> isolated_i m i then m ! i XOR 0x20 else m ! i)"
    using assms by (simp add: munged_def)
  ultimately show ?thesis by (auto simp: isolated_i_def toggled_i)
qed

lemma munge_at_munged:
  assumes "1 \<le> i" "i < length m - 1" "i \<notin> I"
  shows "munge_at i (munged m I) = munged m (insert i I)"
proof (rule nth_equalityI)
  show "length (munge_at i (munged m I)) = length (munged m (insert i I))"
    by (simp add: munge_at_def munged_def)
  fix j assume "j < length (munge_at i (munged m I))"
  then have j: "j < length m" by (simp add: munge_at_def munged_def split: if_splits)
  have at: "munge_at i (munged m I) = (if isolated_i m i then (munged m I)[i := m ! i XOR 0x20] else munged m I)"
    using munged_isolated [OF assms(1,2), of I] assms by (simp add: munge_at_def isolated_i_def munged_def)
  show "munge_at i (munged m I) ! j = munged m (insert i I) ! j"
    unfolding at using j assms by (auto simp: munged_def nth_list_update)
qed

lemma fold_munge:
  assumes "n \<le> length m - 1"
  shows "fold munge_at [1..<n] m = munged m {1..<n}"
  using assms
proof (induction n)
  case 0
  then show ?case by (simp add: munged_def map_nth)
next
  case (Suc n)
  show ?case
  proof (cases "1 \<le> n")
    case True
    then have "fold munge_at [1..<Suc n] m = munge_at n (munged m {1..<n})" using Suc by simp
    also have "\<dots> = munged m (insert n {1..<n})" using True Suc.prems by (intro munge_at_munged) auto
    also have "insert n {1..<n} = {1..<Suc n}" using True by auto
    finally show ?thesis .
  qed (simp add: munged_def map_nth)
qed

lemma mungeCase_eq: "mungeCase m = munged m {1..<length m - 1}"
  unfolding mungeCase_def by (rule fold_munge) simp

lemma length_mungeCase [simp]: "length (mungeCase m) = length m"
  by (simp add: mungeCase_eq munged_def)

lemma mungeCase_twice: "mungeCase (mungeCase m) = m"
proof (rule nth_equalityI)
  fix i assume "i < length (mungeCase (mungeCase m))"
  then have i: "i < length m" by simp
  have inner: "mungeCase m ! i = (if i \<in> {1..<length m - 1} \<and> isolated_i m i then m ! i XOR 0x20 else m ! i)"
    using i by (simp add: mungeCase_eq munged_def)
  have same: "isolated_i (mungeCase m) i = isolated_i m i" if "i \<in> {1..<length m - 1}"
    using that munged_isolated [of i m] by (simp add: mungeCase_eq)
  have "mungeCase (mungeCase m) ! i = (if i \<in> {1..<length m - 1} \<and> isolated_i (mungeCase m) i
      then mungeCase m ! i XOR 0x20 else mungeCase m ! i)"
    using i by (subst mungeCase_eq) (simp add: munged_def)
  then show "mungeCase (mungeCase m) ! i = m ! i" using inner same by (auto simp: xor.assoc)
qed simp

text \<open>It leaves the folded text alone.\<close>

lemma fold_case_munged: "map fold_case (mungeCase m) = map fold_case m"
proof (rule nth_equalityI)
  fix i assume "i < length (map fold_case (mungeCase m))"
  then have i: "i < length m" by simp
  have "fold_case (x XOR 0x20) = fold_case x" if "c_tolower x = 0x69" for x
    using the_i [OF that] by (auto simp: fold_case_eq c_isupper_def)
  with i show "map fold_case (mungeCase m) ! i = map fold_case m ! i"
    by (simp add: mungeCase_eq munged_def isolated_i_def)
qed simp

end
