(* ===== verification/NonAlpha.thy ===== *)
theory NonAlpha
  imports Charset Interpolative
begin

text \<open>
  \<^verbatim>\<open>forms/nonalpha.c\<close>: the characters outside the model's alphabet are taken out of the message and coded
  apart, their positions with the interpolative coder and their values as bytes. Arrays of the C
  code have 1024 entries; a write past them is undefined behaviour and gives \<open>None\<close>.
\<close>

section \<open>Model\<close>

definition stripNonAlpha :: "u16 list \<Rightarrow> u16 list" where
  "stripNonAlpha inp = filter (\<lambda>x. x > 0x80 \<or> charIdx (c_tolower x) \<ge> 0) inp"

text \<open>\<^verbatim>\<open>0.95*0xffffff\<close>, truncated.\<close>

definition probNoNonAlpha :: u32 where "probNoNonAlpha = 15938354"

text \<open>The scan of the message: positions and values of the characters to be coded apart.\<close>

fun nonAlpha_scan :: "u16 list \<Rightarrow> int \<Rightarrow> (int \<times> u8) list" where
  "nonAlpha_scan [] i = []"
| "nonAlpha_scan (x # m) i =
     (if x < 0x80 \<and> \<not> charIdx (c_tolower x) \<ge> 0 then (i, ucast x) # nonAlpha_scan m (i + 1)
      else nonAlpha_scan m (i + 1))"

primrec encode_values :: "u8 list \<Rightarrow> range_coder \<Rightarrow> range_coder" where
  "encode_values [] c = c"
| "encode_values (v # vs) c = encode_values vs (fst (range_encode_equiprobable c 256 (uint v)))"

definition encodeNonAlpha :: "u16 list \<Rightarrow> range_coder \<Rightarrow> (range_coder \<times> int) option" where
  "encodeNonAlpha m c =
     (let hits = nonAlpha_scan m 0; count = int (length hits); messageLength = int (length m)
      in if count > 1024 then None
         else if count = 0
         then map_option (\<lambda>(c1, _). (c1, 0)) (range_encode_symbol c [probNoNonAlpha] 2 0)
         else do {
           (c1, _) \<leftarrow> range_encode_symbol c [probNoNonAlpha] 2 1;
           let c2 = fst (range_encode_equiprobable c1 (messageLength + 1) count);
           (c3, _) \<leftarrow> ic_encode_recursive (map fst hits) count messageLength c2;
           Some (encode_values (map snd hits) c3, 0) })"

text \<open>A decoded value is stored in an \<^verbatim>\<open>unsigned char\<close>.\<close>

fun decode_values :: "nat \<Rightarrow> range_coder \<Rightarrow> range_coder \<times> u8 list" where
  "decode_values 0 c = (c, [])"
| "decode_values (Suc n) c =
     (let (c1, v) = range_decode_equiprobable c 256; (c2, vs) = decode_values n c1
      in (c2, word_of_int v # vs))"

text \<open>The result is the content of the two arrays and the count. \<open>positions\<close> and \<open>vals\<close> are the arrays of
  the caller. Any symbol but 0 counts as a message with such characters.\<close>

definition decodeNonAlpha_chars ::
    "int list \<Rightarrow> u8 list \<Rightarrow> int \<Rightarrow> int \<Rightarrow> range_coder \<Rightarrow> (range_coder \<times> int list \<times> u8 list \<times> int) option" where
  "decodeNonAlpha_chars positions vals messageLength count c2 = do {
     (c3, positions') \<leftarrow> ic_decode_recursive positions count messageLength c2;
     let (c4, vs) = decode_values (nat count) c3;
     (if count > int (length vals) then None
      else Some (c4, positions', vs @ drop (nat count) vals, count)) }"

definition decodeNonAlpha ::
    "int list \<Rightarrow> u8 list \<Rightarrow> int \<Rightarrow> range_coder \<Rightarrow> (range_coder \<times> int list \<times> u8 list \<times> int) option" where
  "decodeNonAlpha positions vals messageLength c =
     (let (c1, containsNonAlpha) = range_decode_symbol c [probNoNonAlpha] 2
      in if containsNonAlpha \<noteq> 0
         then let (c2, count) = range_decode_equiprobable c1 (messageLength + 1)
              in decodeNonAlpha_chars positions vals messageLength count c2
         else Some (c1, positions, vals, 0))"

section \<open>The scan\<close>

definition is_special :: "u16 \<Rightarrow> bool" where
  "is_special x \<longleftrightarrow> x < 0x80 \<and> charIdx (c_tolower x) < 0"

lemma unit_0x80: "(x :: u16) < 0x80 \<or> x > 0x80 \<or> x = 0x80" by auto

lemma charIdx_0x80: "0 \<le> charIdx (c_tolower 0x80)"
  by code_simp

text \<open>The two tests of the C code, one per direction, agree: a character is either kept or coded apart.\<close>

lemma strip_complement: "(x > 0x80 \<or> charIdx (c_tolower x) \<ge> 0) \<longleftrightarrow> \<not> is_special x"
  using unit_0x80 [of x] charIdx_0x80 by (auto simp: is_special_def not_less)

lemma stripNonAlpha_eq: "stripNonAlpha m = filter (\<lambda>x. \<not> is_special x) m"
  unfolding stripNonAlpha_def strip_complement ..

lemma nonAlpha_scan_Cons:
  "nonAlpha_scan (x # m) i = (if is_special x then [(i, ucast x)] else []) @ nonAlpha_scan m (i + 1)"
  by (auto simp: is_special_def)

declare nonAlpha_scan.simps(2) [simp del]

lemma nonAlpha_scan_bounds: "(p, v) \<in> set (nonAlpha_scan m i) \<Longrightarrow> i \<le> p \<and> p < i + int (length m)"
proof (induction m arbitrary: i)
  case (Cons x m)
  then have "p = i \<or> (p, v) \<in> set (nonAlpha_scan m (i + 1))" by (auto simp: nonAlpha_scan_Cons split: if_splits)
  with Cons.IH [of "i + 1"] show ?case by auto
qed simp

lemma nonAlpha_scan_sorted: "sorted_wrt (<) (map fst (nonAlpha_scan m i))"
proof (induction m arbitrary: i)
  case (Cons x m)
  have "i < p" if "p \<in> set (map fst (nonAlpha_scan m (i + 1)))" for p
    using nonAlpha_scan_bounds [of p _ m "i + 1"] that by force
  with Cons show ?case by (simp add: nonAlpha_scan_Cons)
qed simp

lemma nonAlpha_scan_ascending: "ascending_to (int (length m)) (map fst (nonAlpha_scan m 0))"
  unfolding ascending_to_def using nonAlpha_scan_sorted nonAlpha_scan_bounds [of _ _ m 0] by fastforce

lemma length_nonAlpha_scan: "length (nonAlpha_scan m i) + length (stripNonAlpha m) = length m"
  unfolding stripNonAlpha_eq by (induction m arbitrary: i) (auto simp: nonAlpha_scan_Cons)

section \<open>Round trip\<close>

lemma codec_values: "rc.codec (\<lambda>c. Some (encode_values vs c, 0)) (\<lambda>d. Some (decode_values (length vs) d)) vs"
proof (induction vs)
  case Nil
  then show ?case using rc.codec_return by simp
next
  case (Cons v vs)
  define dec2 where "dec2 = (\<lambda>s d. map_option (\<lambda>(d', vs). (d', word_of_int s # vs)) (Some (decode_values (length vs) d)))"
  have v: "rc.codec (\<lambda>c. Some (range_encode_equiprobable c 256 (uint v)))
      (\<lambda>d. Some (range_decode_equiprobable d 256)) (uint v)"
    using uint_lt2p [of v] by (intro codec_equiprobable) simp_all
  have tail: "rc.codec (\<lambda>c. Some (encode_values vs c, 0)) (dec2 (uint v)) (v # vs)"
    using rc.codec_value_map [OF Cons, of "\<lambda>vs. v # vs"] by (simp add: dec2_def)
  show ?case
    by (rule rc.codec_enc_dec_cong [OF rc.codec_seq [OF v, where ?dec2.0 = dec2, OF tail]])
      (simp_all add: dec2_def Let_def split: prod.split)
qed

lemma table_ok_flag: "k = 0 \<or> k = 1 \<Longrightarrow> 0 < p \<Longrightarrow> p < MAXVALUEPLUS1 \<Longrightarrow> table_ok [p] 2 k"
  by (auto simp: table_ok_def table_low_def table_high_def)

text \<open>What the decoder leaves in its arrays.\<close>

definition nonAlpha_result :: "int list \<Rightarrow> u8 list \<Rightarrow> u16 list \<Rightarrow> int list \<times> u8 list \<times> int" where
  "nonAlpha_result positions vals m =
     (let hits = nonAlpha_scan m 0; n = length hits
      in (map fst hits @ drop n positions, map snd hits @ drop n vals, int n))"

lemma codec_nonAlpha_none:
  assumes "nonAlpha_scan m 0 = []"
  shows "rc.codec (encodeNonAlpha m) (decodeNonAlpha positions vals L) (nonAlpha_result positions vals m)"
proof -
  have "rc.codec (\<lambda>c. map_option (\<lambda>(c', r). (c', 0)) (range_encode_symbol c [probNoNonAlpha] 2 0))
      (\<lambda>d. Some (range_decode_symbol d [probNoNonAlpha] 2)) 0"
    by (intro rc.codec_code codec_symbol table_ok_flag) (auto simp: probNoNonAlpha_def)
  then have "rc.codec (\<lambda>c. map_option (\<lambda>(c', r). (c', 0)) (range_encode_symbol c [probNoNonAlpha] 2 0))
      (decodeNonAlpha positions vals L) (positions, vals, 0)"
    by (rule rc.codec_dec_mono) (auto simp: decodeNonAlpha_def)
  moreover have "nonAlpha_result positions vals m = (positions, vals, 0)"
    using assms by (simp add: nonAlpha_result_def)
  ultimately show ?thesis
    by (simp only:) (erule rc.codec_enc_dec_cong, simp_all add: encodeNonAlpha_def assms)
qed

lemma codec_nonAlpha_chars:
  assumes len: "length m \<le> 1024" and arrays: "1024 \<le> length positions" "1024 \<le> length vals"
    and ne: "nonAlpha_scan m 0 \<noteq> []"
  defines "n \<equiv> length (nonAlpha_scan m 0)"
  shows "rc.codec (\<lambda>c. Option.bind (ic_encode_recursive (map fst (nonAlpha_scan m 0)) (int n) (int (length m)) c)
      (\<lambda>(c1, r). Some (encode_values (map snd (nonAlpha_scan m 0)) c1, 0)))
    (decodeNonAlpha_chars positions vals (int (length m)) (int n)) (nonAlpha_result positions vals m)"
proof -
  let ?h = "nonAlpha_scan m 0" and ?L = "int (length m)"
  have n: "n \<le> length m" unfolding n_def using length_nonAlpha_scan [of m 0] by linarith
  define dec3 where "dec3 = (\<lambda>(positions' :: int list) d3. map_option (\<lambda>(c4, vs). (c4, positions', vs @ drop n vals, int n))
     (Some (decode_values n d3)))"
  have pos: "rc.codec (ic_encode_recursive (map fst ?h) (int n) ?L) (ic_decode_recursive positions (int n) ?L)
      (map fst ?h @ drop n positions)"
    using codec_ic_recursive [OF nonAlpha_scan_ascending, of m positions] ne n len arrays by (simp add: n_def)
  have vals: "rc.codec (\<lambda>c. Some (encode_values (map snd ?h) c, 0)) (dec3 (map fst ?h @ drop n positions))
      (nonAlpha_result positions vals m)"
    using rc.codec_value_map [OF codec_values [of "map snd ?h"],
        of "\<lambda>vs. (map fst ?h @ drop n positions, vs @ drop n vals, int n)"]
    by (simp add: dec3_def nonAlpha_result_def Let_def n_def)
  have "int n \<le> int (length vals)" using n len arrays by simp
  then show ?thesis
    by (intro rc.codec_enc_dec_cong [OF rc.codec_seq [OF pos, where ?dec2.0 = dec3, OF vals]])
      (simp_all add: decodeNonAlpha_chars_def dec3_def case_prod_unfold Let_def)
qed

lemma codec_nonAlpha:
  assumes len: "length m \<le> 1024" and arrays: "1024 \<le> length positions" "1024 \<le> length vals"
  shows "rc.codec (encodeNonAlpha m) (decodeNonAlpha positions vals (int (length m)))
     (nonAlpha_result positions vals m)"
proof (cases "nonAlpha_scan m 0 = []")
  case True
  then show ?thesis by (rule codec_nonAlpha_none)
next
  case False
  let ?h = "nonAlpha_scan m 0"
  let ?n = "length ?h" and ?L = "int (length m)"
  have n: "?n \<le> length m" using length_nonAlpha_scan [of m 0] by linarith
  define dec1 where "dec1 = (\<lambda>flag d1. if flag \<noteq> (0 :: int)
      then Option.bind (Some (range_decode_equiprobable d1 (?L + 1)))
        (\<lambda>(c2, count). decodeNonAlpha_chars positions vals ?L count c2)
      else Some (d1, positions, vals, 0))"
  have flag: "rc.codec (\<lambda>c. range_encode_symbol c [probNoNonAlpha] 2 1)
      (\<lambda>d. Some (range_decode_symbol d [probNoNonAlpha] 2)) 1"
    by (intro codec_symbol table_ok_flag) (auto simp: probNoNonAlpha_def)
  have count: "rc.codec (\<lambda>c. Some (range_encode_equiprobable c (?L + 1) (int ?n)))
      (\<lambda>d. Some (range_decode_equiprobable d (?L + 1))) (int ?n)"
    using n len by (intro codec_equiprobable) auto
  note chars = codec_nonAlpha_chars [OF len arrays False]
  have after: "rc.codec (\<lambda>c. Option.bind (Some (range_encode_equiprobable c (?L + 1) (int ?n)))
      (\<lambda>(c1, r). Option.bind (ic_encode_recursive (map fst ?h) (int ?n) ?L c1)
      (\<lambda>(c1, r). Some (encode_values (map snd ?h) c1, 0)))) (dec1 1) (nonAlpha_result positions vals m)"
    by (rule rc.codec_enc_dec_cong [OF rc.codec_seq [OF count,
          where ?dec2.0 = "\<lambda>count. decodeNonAlpha_chars positions vals ?L count", OF chars]])
      (simp_all add: dec1_def)
  show ?thesis
    by (rule rc.codec_enc_dec_cong [OF rc.codec_seq [OF flag, where ?dec2.0 = dec1, OF after]])
      (use False n len in \<open>simp_all add: encodeNonAlpha_def decodeNonAlpha_def dec1_def Let_def case_prod_unfold\<close>)
qed

end
