(* ===== verification/Unicode.thy ===== *)
theory Unicode
  imports Prelude
begin

text \<open>
  \<^verbatim>\<open>forms/unicode.c\<close>: conversion between UTF-8 bytes and the 16-bit units the text models work on, and the
  removal of backslash escapes. A converter returns the C return code with the output it has produced;
  \<open>None\<close> is a read past the end of the input.
\<close>

section \<open>Model\<close>

fun utf16toutf8 :: "u16 list \<Rightarrow> u8 list \<Rightarrow> int \<times> u8 list" where
  "utf16toutf8 [] out = (0, out)"
| "utf16toutf8 (u # rest) out =
     (if u < 0x80 then
        if length out > 1023 then (-1, out) else utf16toutf8 rest (out @ [ucast u])
      else if u < 0x0800 then
        if length out > 1022 then (-1, out)
        else utf16toutf8 rest (out @ [0xc0 + ucast (drop_bit 6 u), 0x80 + ucast (u AND 0x3f)])
      else
        if length out > 1021 then (-1, out)
        else utf16toutf8 rest (out @ [0xe0 + ucast (drop_bit 12 u), 0x80 + ucast (drop_bit 6 u AND 0x3f),
                                      0x80 + ucast (u AND 0x3f)]))"

text \<open>The test \<^verbatim>\<open>in_len-i<1\<close> before a two-byte sequence never holds, \<^verbatim>\<open>in_len-i<2\<close> before a three-byte
  sequence holds only on the last byte.\<close>

fun utf8toutf16 :: "u8 list \<Rightarrow> u16 list \<Rightarrow> (int \<times> u16 list) option" where
  "utf8toutf16 [] out = Some (0, out)"
| "utf8toutf16 (b # rest) out =
     (if b AND 0xc0 = 0x80 then Some (-1, out)
      else if b AND 0xc0 < 0x80 then utf8toutf16 rest (out @ [ucast b])
      else if b < 0xe0 then
        (case rest of
           [] \<Rightarrow> None
         | b1 # rest' \<Rightarrow>
             utf8toutf16 rest' (out @ [push_bit 6 (ucast (b AND 0x1f)) OR ucast (b1 AND 0x3f)]))
      else if b < 0xf8 then
        (case rest of
           [] \<Rightarrow> Some (-1, out)
         | [b1] \<Rightarrow> None
         | b1 # b2 # rest' \<Rightarrow>
             utf8toutf16 rest' (out @ [(push_bit 12 (ucast (b AND 0x0f)) OR push_bit 6 (ucast (b1 AND 0x3f)))
                                       OR ucast (b2 AND 0x3f)]))
      else Some (-1, out))"

text \<open>The argument of \<open>ascii2utf16\<close> is what comes before the terminating NUL; chars are unsigned, as on ARM.\<close>

definition ascii2utf16 :: "u8 list \<Rightarrow> u16 list" where
  "ascii2utf16 inp = map ucast (take 1024 inp)"

text \<open>\<^verbatim>\<open>unEscape\<close> works in place on a NUL-terminated buffer; the list holds the bytes before the NUL.\<close>

fun unEscape :: "u8 list \<Rightarrow> u8 list" where
  "unEscape [] = []"
| "unEscape (x # rest) =
     (if x = 0x5c then
        (case rest of
           [] \<Rightarrow> 0x5c # unEscape rest
         | y # rest' \<Rightarrow>
             if y = 0x72 then 0x0d # unEscape rest'
             else if y = 0x6e then 0x0a # unEscape rest'
             else if y = 0x5c then 0x5c # unEscape rest'
             else if y = 0x27 then 0x27 # unEscape rest
             else 0x5c # unEscape rest)
      else x # unEscape rest)"

section \<open>UTF-8\<close>

text \<open>The encoding of one unit.\<close>

definition utf8_unit :: "u16 \<Rightarrow> u8 list" where
  "utf8_unit u =
     (if u < 0x80 then [ucast u]
      else if u < 0x0800 then [0xc0 + ucast (drop_bit 6 u), 0x80 + ucast (u AND 0x3f)]
      else [0xe0 + ucast (drop_bit 12 u), 0x80 + ucast (drop_bit 6 u AND 0x3f), 0x80 + ucast (u AND 0x3f)])"

lemma utf16toutf8_fits:
  assumes "length out + length (concat (map utf8_unit us)) \<le> 1024"
  shows "utf16toutf8 us out = (0, out @ concat (map utf8_unit us))"
  using assms by (induction us arbitrary: out) (auto simp: utf8_unit_def split: if_splits)

lemma utf16toutf8_rejects:
  assumes "length out \<le> 1024" "1024 < length out + length (concat (map utf8_unit us))"
  shows "fst (utf16toutf8 us out) = -1"
  using assms by (induction us arbitrary: out) (auto simp: utf8_unit_def split: if_splits)

text \<open>The masks of the converters as arithmetic.\<close>

lemma unat_and_c0: "unat ((b :: u8) AND 0xc0) = unat b div 64 * 64"
proof -
  have m: "(0xc0 :: u8) = push_bit 6 (mask 2)" by (simp add: mask_eq_decr_exp push_bit_eq_mult)
  have "b AND 0xc0 = push_bit 6 (drop_bit 6 b)"
    unfolding m by (rule bit_word_eqI) (simp only: bit_simps, auto)
  moreover have "unat b div 64 * 64 < 256" by (rule le_less_trans [of _ "unat b"]) simp_all
  ultimately show ?thesis
    by (simp only: unsigned_push_bit_eq unat_drop_bit_nat) (simp add: push_bit_eq_mult take_bit_eq_mod)
qed

lemma unat_low_bits:
  "unat ((b :: u8) AND 0x3f) = unat b mod 64" "unat (b AND 0x1f) = unat b mod 32" "unat (b AND 0x0f) = unat b mod 16"
  "unat ((u :: u16) AND 0x3f) = unat u mod 64"
proof -
  have "(0x3f :: u8) = mask 6" "(0x1f :: u8) = mask 5" "(0x0f :: u8) = mask 4" "(0x3f :: u16) = mask 6"
    by (simp_all add: mask_eq_decr_exp)
  then show "unat ((b :: u8) AND 0x3f) = unat b mod 64" "unat (b AND 0x1f) = unat b mod 32"
    "unat (b AND 0x0f) = unat b mod 16" "unat ((u :: u16) AND 0x3f) = unat u mod 64"
    by (simp_all only: unat_and_mask) simp_all
qed

lemma unat_join6:
  assumes "unat (x :: u16) < 1024" "unat (y :: u16) < 64"
  shows "unat (push_bit 6 x OR y) = unat x * 64 + unat y"
proof -
  have "\<not> bit y n" if "6 \<le> n" for n
  proof -
    have "(64 :: nat) = 2 ^ 6" by simp
    also have "\<dots> \<le> 2 ^ n" using that by (intro power_increasing) simp_all
    finally have "unat y div 2 ^ n = 0" using assms(2) by (simp add: div_eq_0_iff)
    then show ?thesis by (simp add: bit_word_nat)
  qed
  then have "push_bit 6 x AND y = 0" by (intro bit_word_eqI) (auto simp: bit_simps)
  then have "push_bit 6 x OR y = push_bit 6 x + y" by (rule disjunctive_add_eq_or [symmetric])
  moreover have "unat (push_bit 6 x) = unat x * 64"
    using assms by (simp only: unsigned_push_bit_eq) (simp add: push_bit_eq_mult take_bit_eq_mod)
  ultimately show ?thesis using assms by (simp add: unat_word_ariths)
qed

lemma unat_byte_of: "unat (ucast (u :: u16) :: u8) = unat u mod 256" "unat (ucast (b :: u8) :: u16) = unat b"
proof -
  show "unat (ucast u :: u8) = unat u mod 256" by (simp only: unsigned_ucast_eq take_bit_eq_mod) simp
  have "unat b < 2 ^ 16" by (rule less_trans [OF unat_lt_8]) simp
  then show "unat (ucast b :: u16) = unat b" by (simp only: unsigned_ucast_eq) (simp add: take_bit_eq_mod)
qed

text \<open>Reading back one unit.\<close>

lemma drop_lead:
  "(192 + x) mod 32 = x mod 32" "(128 + x) mod 64 = x mod 64" "(224 + x) mod 16 = x mod (16 :: nat)"
  using mod_mult_self1 [of x 6 32] mod_mult_self1 [of x 2 64] mod_mult_self1 [of x 14 16]
  by (simp_all add: add.commute)

lemma utf8toutf16_unit: "utf8toutf16 (utf8_unit u @ rest) out = utf8toutf16 rest (out @ [u])"
proof -
  let ?u = "unat u"
  consider (1) "?u < 128" | (2) "128 \<le> ?u" "?u < 2048" | (3) "2048 \<le> ?u" by linarith
  then show ?thesis
  proof cases
    case 1
    then have "unat (ucast u :: u8) = ?u" by (simp add: unat_byte_of)
    then have "unat (ucast u AND 0xc0 :: u8) < 128" using 1 by (simp add: unat_and_c0)
    then have "ucast u AND 0xc0 < (0x80 :: u8)" by (simp add: word_less_nat_alt)
    moreover have "(ucast (ucast u :: u8) :: u16) = u"
      using 1 by (simp add: word_unat_eq_iff unat_byte_of)
    moreover have "u < 0x80" using 1 by (simp add: word_less_nat_alt)
    ultimately show ?thesis by (auto simp: utf8_unit_def)
  next
    case 2
    define b where "b = 0xc0 + (ucast (drop_bit 6 u) :: u8)"
    define b1 where "b1 = 0x80 + (ucast (u AND 0x3f) :: u8)"
    have b: "unat b = 192 + ?u div 64"
      using 2 unfolding b_def by (simp add: unat_word_ariths unat_byte_of unat_drop_bit_nat)
    have b1: "unat b1 = 128 + ?u mod 64"
      unfolding b1_def by (simp add: unat_word_ariths unat_byte_of unat_low_bits)
    have "unat (push_bit 6 (ucast (b AND 0x1f)) OR ucast (b1 AND 0x3f) :: u16) = ?u div 64 mod 32 * 64 + ?u mod 64"
      by (subst unat_join6) (simp_all add: unat_byte_of unat_low_bits b b1 drop_lead)
    also have "\<dots> = ?u" using 2 by simp
    finally have "push_bit 6 (ucast (b AND 0x1f)) OR ucast (b1 AND 0x3f) = u" by (simp only: word_unat_eq_iff)
    moreover have "b AND 0xc0 = 0xc0" "b < 0xe0" "\<not> u < 0x80" "u < 0x800"
      using 2 by (simp_all add: word_unat_eq_iff unat_and_c0 b word_less_nat_alt)
    ultimately show ?thesis
      by (simp add: utf8_unit_def b_def [symmetric] b1_def [symmetric])
  next
    case 3
    define b where "b = 0xe0 + (ucast (drop_bit 12 u) :: u8)"
    define b1 where "b1 = 0x80 + (ucast (drop_bit 6 u AND 0x3f) :: u8)"
    define b2 where "b2 = 0x80 + (ucast (u AND 0x3f) :: u8)"
    have d: "?u div 4096 < 16" using unat_lt_16 [of u] by linarith
    have b: "unat b = 224 + ?u div 4096"
      using d unfolding b_def by (simp add: unat_word_ariths unat_byte_of unat_drop_bit_nat)
    have b1: "unat b1 = 128 + ?u div 64 mod 64"
      unfolding b1_def by (simp add: unat_word_ariths unat_byte_of unat_low_bits unat_drop_bit_nat)
    have b2: "unat b2 = 128 + ?u mod 64"
      unfolding b2_def by (simp add: unat_word_ariths unat_byte_of unat_low_bits)
    have top: "push_bit 12 x OR push_bit 6 y = push_bit 6 (push_bit 6 x OR (y :: u16))" for x y
      by (rule bit_word_eqI) (simp only: bit_simps, auto)
    have hi: "unat (push_bit 6 (ucast (b AND 0x0f)) OR ucast (b1 AND 0x3f) :: u16) = ?u div 4096 * 64 + ?u div 64 mod 64"
      using d by (subst unat_join6) (simp_all add: unat_byte_of unat_low_bits b b1 drop_lead)
    have "unat (push_bit 6 (push_bit 6 (ucast (b AND 0x0f)) OR ucast (b1 AND 0x3f)) OR ucast (b2 AND 0x3f) :: u16)
        = (?u div 4096 * 64 + ?u div 64 mod 64) * 64 + ?u mod 64"
      using d by (subst unat_join6) (simp_all add: hi unat_byte_of unat_low_bits b2 drop_lead)
    also have "?u div 4096 * 64 + ?u div 64 mod 64 = ?u div 64"
      using div_mult_mod_eq [of "?u div 64" 64] by (simp add: div_mult2_eq [symmetric])
    also have "?u div 64 * 64 + ?u mod 64 = ?u" by (rule div_mult_mod_eq)
    finally have "(push_bit 12 (ucast (b AND 0x0f)) OR push_bit 6 (ucast (b1 AND 0x3f))) OR ucast (b2 AND 0x3f) = u"
      unfolding top by (simp only: word_unat_eq_iff)
    moreover have "b AND 0xc0 = 0xc0" "\<not> b < 0xe0" "b < 0xf8" "\<not> u < 0x80" "\<not> u < 0x800"
      using d 3 by (simp_all add: word_unat_eq_iff unat_and_c0 b word_less_nat_alt)
    ultimately show ?thesis
      by (simp add: utf8_unit_def b_def [symmetric] b1_def [symmetric] b2_def [symmetric])
  qed
qed

lemma utf8toutf16_units: "utf8toutf16 (concat (map utf8_unit us) @ rest) out = utf8toutf16 rest (out @ us)"
  by (induction us arbitrary: out) (simp_all add: utf8toutf16_unit)

end
