(* ===== verification/LowerAlpha.thy ===== *)
theory LowerAlpha
  imports CaseModel NonAlpha Unicode
begin

text \<open>
  \<^verbatim>\<open>forms/lowercasealpha.c\<close>: the folded text, letter by letter, each with the frequency vector that the letters
  before it select. A digit is coded as a place holder followed by its value, a unit above 0x7f as a place
  holder followed by its code page, when that changes, and its position in the page.

  \<open>unicode\<close> stands for \<^verbatim>\<open>getUnicodeStatistics\<close> of the handle: the cumulative table of a code page, or \<open>None\<close>
  for the null pointer. A null table used, a letter the vector lookup gives up on and a symbol outside the
  character table give \<open>None\<close>.
\<close>

section \<open>Model\<close>

definition strncmp816 :: "u8 list \<Rightarrow> u16 list \<Rightarrow> nat \<Rightarrow> int" where
  "strncmp816 s1 s2 len =
     (case filter (\<lambda>d. d \<noteq> 0) (map (\<lambda>j. uint (s1 ! j) - uint (s2 ! j)) [0..<len]) of [] \<Rightarrow> 0 | d # _ \<Rightarrow> d)"

text \<open>The coder's view of the Unicode statistics: the code page of the last such character and whether there
  has been one.\<close>

record page_state =
  lastCodePage :: int
  firstUnicode :: bool

definition page_start :: page_state where
  "page_start = \<lparr>lastCodePage = 1, firstUnicode = True\<rparr>"

definition encode_unicode ::
    "(int \<Rightarrow> u32 list option) \<Rightarrow> page_state \<Rightarrow> u16 \<Rightarrow> range_coder \<Rightarrow> (range_coder \<times> page_state) option" where
  "encode_unicode unicode st x c =
     (let page = uint x div 0x80
      in do {
        (c1, switchedPage) \<leftarrow>
          (if firstUnicode st then Some (fst (range_encode_equiprobable c 511 (page - 1)), True)
           else if page \<noteq> lastCodePage st then do {
             counts \<leftarrow> unicode (lastCodePage st);
             (c', _) \<leftarrow> range_encode_symbol c counts (128 + 512) (128 + page);
             Some (c', True) }
           else Some (c, False));
        counts \<leftarrow> unicode page;
        (c2, _) \<leftarrow> range_encode_symbol c1 counts (if switchedPage then 128 else 128 + 512) (uint x mod 0x80);
        Some (c2, st\<lparr>lastCodePage := page, firstUnicode := False\<rparr>) })"

definition decode_unicode ::
    "(int \<Rightarrow> u32 list option) \<Rightarrow> page_state \<Rightarrow> range_coder \<Rightarrow> (range_coder \<times> page_state \<times> u16) option" where
  "decode_unicode unicode st c = do {
     (c1, page, symbol) \<leftarrow>
       (if firstUnicode st then
          let (c', p) = range_decode_equiprobable c 511
          in do { counts \<leftarrow> unicode (p + 1);
                  let (c'', s) = range_decode_symbol c' counts 128;
                  Some (c'', p + 1, s) }
        else do { counts \<leftarrow> unicode (lastCodePage st);
                  let (c', s) = range_decode_symbol c counts (128 + 512);
                  Some (c', lastCodePage st, s) });
     (c2, page, symbol) \<leftarrow>
       (if symbol > 127 then do {
          counts \<leftarrow> unicode (symbol - 128);
          let (c', s) = range_decode_symbol c1 counts 128;
          Some (c', symbol - 128, s) }
        else Some (c1, page, symbol));
     Some (c2, st\<lparr>lastCodePage := page, firstUnicode := False\<rparr>, word_of_int (page * 0x80 + symbol)) }"

text \<open>The character at the end of the context \<open>ctx\<close>.\<close>

definition encode_letter :: "stats_handle \<Rightarrow> (int \<Rightarrow> u32 list option) \<Rightarrow> u16 list \<Rightarrow> page_state \<Rightarrow> u16 \<Rightarrow>
    range_coder \<Rightarrow> (range_coder \<times> page_state) option" where
  "encode_letter h unicode ctx st x c = do {
     v \<leftarrow> extractVector ctx h;
     (c1, _) \<leftarrow> range_encode_symbol c v CHARCOUNT (charIdx x);
     (if 0x30 \<le> x \<and> x \<le> 0x39 then Some (fst (range_encode_equiprobable c1 10 (uint (x - 0x30))), st)
      else if x = 0x55 \<or> x > 0x7f then encode_unicode unicode st x c1
      else Some (c1, st)) }"

definition decode_letter :: "stats_handle \<Rightarrow> (int \<Rightarrow> u32 list option) \<Rightarrow> u16 list \<Rightarrow> page_state \<Rightarrow>
    range_coder \<Rightarrow> (range_coder \<times> page_state \<times> u16) option" where
  "decode_letter h unicode ctx st c = do {
     v \<leftarrow> extractVector ctx h;
     let (c1, symbol) = range_decode_symbol c v CHARCOUNT;
     (if symbol < 0 then None
      else let x = chars ! nat symbol
           in if 0x30 \<le> x \<and> x \<le> 0x39
              then let (c2, d) = range_decode_equiprobable c1 10 in Some (c2, st, 0x30 + word_of_int d)
              else if x = 0x55 \<or> x > 0x7f then decode_unicode unicode st c1
              else Some (c1, st, x)) }"

fun encode_letters :: "stats_handle \<Rightarrow> (int \<Rightarrow> u32 list option) \<Rightarrow> u16 list \<Rightarrow> page_state \<Rightarrow> u16 list \<Rightarrow>
    range_coder \<Rightarrow> (range_coder \<times> int) option" where
  "encode_letters h unicode ctx st [] c = Some (c, 0)"
| "encode_letters h unicode ctx st (x # s) c = do {
     (c1, st1) \<leftarrow> encode_letter h unicode ctx st x c;
     encode_letters h unicode (ctx @ [x]) st1 s c1 }"

definition encodeLCAlphaSpace :: "stats_handle \<Rightarrow> (int \<Rightarrow> u32 list option) \<Rightarrow> u16 list \<Rightarrow> range_coder \<Rightarrow>
    (range_coder \<times> int) option" where
  "encodeLCAlphaSpace h unicode s c = encode_letters h unicode [] page_start s c"

fun decode_letters :: "stats_handle \<Rightarrow> (int \<Rightarrow> u32 list option) \<Rightarrow> u16 list \<Rightarrow> page_state \<Rightarrow> nat \<Rightarrow>
    range_coder \<Rightarrow> (range_coder \<times> u16 list) option" where
  "decode_letters h unicode ctx st 0 c = Some (c, [])"
| "decode_letters h unicode ctx st (Suc n) c = do {
     (c1, st1, x) \<leftarrow> decode_letter h unicode ctx st c;
     map_option (\<lambda>(c2, s). (c2, x # s)) (decode_letters h unicode (ctx @ [x]) st1 n c1) }"

definition decodeLCAlphaSpace :: "stats_handle \<Rightarrow> (int \<Rightarrow> u32 list option) \<Rightarrow> nat \<Rightarrow> range_coder \<Rightarrow>
    (range_coder \<times> u16 list) option" where
  "decodeLCAlphaSpace h unicode n c = decode_letters h unicode [] page_start n c"

section \<open>Round trip\<close>

definition unicode_ok :: "(int \<Rightarrow> u32 list option) \<Rightarrow> bool" where
  "unicode_ok unicode \<longleftrightarrow> (\<forall>p. 1 \<le> p \<and> p \<le> 511 \<longrightarrow> (\<exists>t. unicode p = Some t \<and>
     (\<forall>k. 0 \<le> k \<and> k < 128 + 512 \<longrightarrow> table_ok t (128 + 512) k) \<and> (\<forall>k. 0 \<le> k \<and> k < 128 \<longrightarrow> table_ok t 128 k)))"

text \<open>Text the model has statistics for: every context of characters of the alphabet has a vector.\<close>

definition vectors_ok :: "stats_handle \<Rightarrow> bool" where
  "vectors_ok h \<longleftrightarrow> (\<forall>ctx. (\<forall>x \<in> set ctx. 0 \<le> charIdx x) \<longrightarrow> (\<exists>v. extractVector ctx h = Some v \<and>
     (\<forall>k. 0 \<le> k \<and> k < CHARCOUNT \<longrightarrow> table_ok v CHARCOUNT k)))"

definition page_ok :: "page_state \<Rightarrow> bool" where
  "page_ok st \<longleftrightarrow> 1 \<le> lastCodePage st \<and> lastCodePage st \<le> 511"

text \<open>The characters of the folded text: in the alphabet, and not the place holder itself.\<close>

definition codable :: "u16 \<Rightarrow> bool" where
  "codable x \<longleftrightarrow> 0 \<le> charIdx x \<and> x \<noteq> 0x55"

lemma page_of:
  assumes "x > (0x7f :: u16)"
  shows "1 \<le> uint x div 0x80" "uint x div 0x80 \<le> 511" "uint x = uint x div 0x80 * 0x80 + uint x mod 0x80"
proof -
  have "127 < uint x" using assms by (simp add: word_less_def)
  moreover have "uint x < 65536" using uint_lt2p [of x] by simp
  ultimately show "1 \<le> uint x div 0x80" "uint x div 0x80 \<le> 511" by linarith+
qed simp

text \<open>The encoders of this theory also return the page state, which does not depend on the coder.\<close>

definition codes_with :: "(range_coder \<Rightarrow> (range_coder \<times> 'p) option) \<Rightarrow> (range_coder \<Rightarrow> (range_coder \<times> 'v) option) \<Rightarrow>
    'p \<Rightarrow> 'v \<Rightarrow> bool" where
  "codes_with enc dec p v \<longleftrightarrow>
     (\<exists>E. (\<forall>c. enc c = map_option (\<lambda>(c', _). (c', p)) (E c)) \<and> rc.codec E dec v)"

lemma codes_withI:
  assumes "rc.codec E dec v" "\<And>c. enc c = map_option (\<lambda>(c', _). (c', p)) (E c)"
  shows "codes_with enc dec p v"
  using assms by (auto simp: codes_with_def)

lemma codec_symbol_then:
  assumes "table_ok t A k" "rc.codec E (dec k) y"
  shows "rc.codec (\<lambda>c. Option.bind (range_encode_symbol c t A k) (\<lambda>(c1, r). E c1))
     (\<lambda>d. Option.bind (Some (range_decode_symbol d t A)) (\<lambda>(d1, s). dec s d1)) y"
  by (rule rc.codec_seq [OF codec_symbol [OF assms(1)], where ?dec2.0 = dec, OF assms(2)])

lemma codec_equiprobable_then:
  assumes "0 \<le> k" "k < A" "A < 2 ^ 31" "rc.codec E (dec k) y"
  shows "rc.codec (\<lambda>c. Option.bind (Some (range_encode_equiprobable c A k)) (\<lambda>(c1, r). E c1))
     (\<lambda>d. Option.bind (Some (range_decode_equiprobable d A)) (\<lambda>(d1, s). dec s d1)) y"
  by (rule rc.codec_seq [OF codec_equiprobable [OF assms(1-3)], where ?dec2.0 = dec, OF assms(4)])

lemma codec_symbol_last:
  assumes "table_ok t A k"
  shows "rc.codec (\<lambda>c. range_encode_symbol c t A k) (\<lambda>d. Some (case range_decode_symbol d t A of (d', s) \<Rightarrow> (d', g s))) (g k)"
  using rc.codec_value_map [OF codec_symbol [OF assms], of g] by simp

text \<open>The decoder from the point where a symbol of the page table is known.\<close>

definition unicode_tail ::
    "(int \<Rightarrow> u32 list option) \<Rightarrow> page_state \<Rightarrow> int \<Rightarrow> int \<Rightarrow> range_coder \<Rightarrow> (range_coder \<times> page_state \<times> u16) option" where
  "unicode_tail unicode st page symbol c1 =
     (if symbol > 127
      then Option.bind (unicode (symbol - 128)) (\<lambda>counts. Some (case range_decode_symbol c1 counts 128 of (c', s) \<Rightarrow>
        (c', st\<lparr>lastCodePage := symbol - 128, firstUnicode := False\<rparr>, word_of_int ((symbol - 128) * 0x80 + s))))
      else Some (c1, st\<lparr>lastCodePage := page, firstUnicode := False\<rparr>, word_of_int (page * 0x80 + symbol)))"

lemma decode_unicode_eq:
  "decode_unicode unicode st c =
     (if firstUnicode st
      then Option.bind (Some (range_decode_equiprobable c 511)) (\<lambda>(c', p).
        Option.bind (unicode (p + 1)) (\<lambda>counts.
        Option.bind (Some (range_decode_symbol c' counts 128)) (\<lambda>(c'', s). unicode_tail unicode st (p + 1) s c'')))
      else Option.bind (unicode (lastCodePage st)) (\<lambda>counts.
        Option.bind (Some (range_decode_symbol c counts (128 + 512))) (\<lambda>(c', s).
          unicode_tail unicode st (lastCodePage st) s c')))"
  by (auto simp: decode_unicode_def unicode_tail_def Let_def case_prod_unfold split: Option.bind_split)

lemma codes_unicode:
  assumes uni: "unicode_ok unicode" and st: "page_ok st" and x: "x > 0x7f"
  defines "page \<equiv> uint x div 0x80" and "k \<equiv> uint x mod 0x80"
  defines "st1 \<equiv> st\<lparr>lastCodePage := page, firstUnicode := False\<rparr>"
  shows "codes_with (encode_unicode unicode st x) (decode_unicode unicode st) st1 (st1, x)" "page_ok st1"
proof -
  note pg = page_of [OF x, folded page_def k_def]
  show "page_ok st1" using pg by (simp add: page_ok_def st1_def)
  have k: "0 \<le> k" "k < 128" by (simp_all add: k_def)
  have xk: "word_of_int (page * 0x80 + k) = x" using pg(3) by (metis word_of_int_uint)
  obtain t where t: "unicode page = Some t" "table_ok t (128 + 512) k" "table_ok t 128 k"
    using uni pg k unfolding unicode_ok_def by fastforce
  have p: "0 \<le> page - 1" "page - 1 < 511" "0 \<le> 128 + page" "128 + page < 128 + 512" using pg by simp_all
  obtain t0 where t0: "unicode (lastCodePage st) = Some t0" "table_ok t0 (128 + 512) (128 + page)"
    using uni st p(3,4) unfolding unicode_ok_def page_ok_def by (metis (no_types, lifting))
  let ?tail = "unicode_tail unicode st"
  have "?tail page k = (\<lambda>d. Some (d, st1, x))" using k xk by (auto simp: unicode_tail_def st1_def)
  then have fin: "rc.codec (\<lambda>c. Some (c, 0)) (?tail page k) (st1, x)" using rc.codec_return by simp
  show "codes_with (encode_unicode unicode st x) (decode_unicode unicode st) st1 (st1, x)"
  proof (cases "firstUnicode st")
    case True
    let ?E = "\<lambda>c. Option.bind (range_encode_symbol c t 128 k) (\<lambda>(c1, r). Some (c1, 0))"
    have "rc.codec ?E (\<lambda>d. Option.bind (unicode (page - 1 + 1)) (\<lambda>counts.
        Option.bind (Some (range_decode_symbol d counts 128)) (\<lambda>(c'', s). ?tail (page - 1 + 1) s c''))) (st1, x)"
      using codec_symbol_then [where dec = "?tail page", OF t(3) fin] t(1) by simp
    note all = codec_equiprobable_then [where dec = "\<lambda>p d. Option.bind (unicode (p + 1)) (\<lambda>counts.
        Option.bind (Some (range_decode_symbol d counts 128)) (\<lambda>(c'', s). ?tail (p + 1) s c''))", OF p(1,2) _ this]
    show ?thesis
      by (rule codes_withI [OF rc.codec_enc_dec_cong [OF all refl]])
        (use True t(1) in \<open>simp_all add: decode_unicode_eq encode_unicode_def Let_def page_def [symmetric] k_def [symmetric]
          st1_def case_prod_unfold map_conv_bind_option comp_def\<close>)
  next
    case False
    show ?thesis
    proof (cases "page = lastCodePage st")
      case True
      note all = codec_symbol_then [where dec = "?tail page", OF t(2) fin]
      show ?thesis
        by (rule codes_withI [OF rc.codec_enc_dec_cong [OF all refl]])
          (use False True t(1) in \<open>simp_all add: decode_unicode_eq encode_unicode_def Let_def page_def [symmetric]
            k_def [symmetric] st1_def case_prod_unfold map_conv_bind_option comp_def\<close>)
    next
      case new: False
      have "rc.codec (\<lambda>c. range_encode_symbol c t 128 k) (?tail (lastCodePage st) (128 + page)) (st1, x)"
      proof -
        have "rc.codec (\<lambda>c. range_encode_symbol c t 128 k) (\<lambda>d. Some (case range_decode_symbol d t 128 of
            (d', s) \<Rightarrow> (d', st1, word_of_int (page * 0x80 + s)))) (st1, x)"
          using codec_symbol_last [OF t(3), of "\<lambda>s. (st1, word_of_int (page * 0x80 + s) :: u16)"] by (simp only: xk)
        then show ?thesis
          by (rule rc.codec_enc_dec_cong) (use t(1) pg(1) in \<open>simp_all add: unicode_tail_def st1_def\<close>)
      qed
      note all = codec_symbol_then [where dec = "?tail (lastCodePage st)", OF t0(2) this]
      show ?thesis
        by (rule codes_withI [OF rc.codec_enc_dec_cong [OF all refl]])
          (use False new t(1) t0(1) in \<open>simp_all add: decode_unicode_eq encode_unicode_def Let_def page_def [symmetric]
            k_def [symmetric] st1_def case_prod_unfold map_conv_bind_option comp_def\<close>)
    qed
  qed
qed

text \<open>The letters.\<close>

lemma charIdx_table:
  assumes "0 \<le> charIdx x"
  shows "chars ! nat (charIdx x) =
     (if x > 0x7f then 0x55 else if 0x31 \<le> x \<and> x \<le> 0x39 then 0x30 else x)"
proof -
  define y where "y = (if x > 0x7f then 0x55 else if 0x31 \<le> x \<and> x \<le> 0x39 then 0x30 else x)"
  have idx: "charIdx x = table_index y chars 0"
    by (simp add: charIdx_def Let_def y_def)
  have "table_index y chars 0 \<noteq> -1" using assms idx by linarith
  from table_index_nth [OF order_refl this] show ?thesis by (simp add: idx y_def)
qed

lemma digit_of:
  assumes "0x30 \<le> x" "x \<le> (0x39 :: u16)"
  shows "0 \<le> uint (x - 0x30)" "uint (x - 0x30) < 10" "0x30 + word_of_int (uint (x - 0x30)) = x"
proof -
  have "unat (x - 0x30) = unat x - 48" using assms(1) by (simp add: unat_sub)
  moreover have "unat x \<le> 57" using assms(2) by (simp add: word_le_nat_alt)
  ultimately have "unat (x - 0x30) < 10" by linarith
  moreover have "uint (x - 0x30) = int (unat (x - 0x30))" by simp
  ultimately show "uint (x - 0x30) < 10" by linarith
qed simp_all

definition letter_tail ::
    "(int \<Rightarrow> u32 list option) \<Rightarrow> page_state \<Rightarrow> int \<Rightarrow> range_coder \<Rightarrow> (range_coder \<times> page_state \<times> u16) option" where
  "letter_tail unicode st symbol c1 =
     (if symbol < 0 then None
      else let x = chars ! nat symbol
           in if 0x30 \<le> x \<and> x \<le> 0x39
              then Option.bind (Some (range_decode_equiprobable c1 10)) (\<lambda>(c2, d). Some (c2, st, 0x30 + word_of_int d))
              else if x = 0x55 \<or> x > 0x7f then decode_unicode unicode st c1
              else Some (c1, st, x))"

lemma decode_letter_eq:
  "decode_letter h unicode ctx st c = Option.bind (extractVector ctx h) (\<lambda>v.
     Option.bind (Some (range_decode_symbol c v CHARCOUNT)) (\<lambda>(c1, s). letter_tail unicode st s c1))"
  unfolding decode_letter_def letter_tail_def Let_def case_prod_unfold Option.bind.simps by simp

text \<open>After the symbol: the digit, the Unicode character or nothing.\<close>

lemma codes_letter_tail:
  assumes uni: "unicode_ok unicode" and st: "page_ok st" and x: "codable x"
  shows "\<exists>st1. page_ok st1 \<and> codes_with
    (\<lambda>c1. if 0x30 \<le> x \<and> x \<le> 0x39 then Some (fst (range_encode_equiprobable c1 10 (uint (x - 0x30))), st)
      else if x = 0x55 \<or> x > 0x7f then encode_unicode unicode st x c1 else Some (c1, st))
    (letter_tail unicode st (charIdx x)) st1 (st1, x)"
proof -
  have idx: "0 \<le> charIdx x" "x \<noteq> 0x55" using x by (auto simp: codable_def)
  note tab = charIdx_table [OF idx(1)]
  consider (digit) "0x30 \<le> x" "x \<le> 0x39" | (uni) "x > 0x7f" | (plain) "\<not> (0x30 \<le> x \<and> x \<le> 0x39)" "\<not> x > 0x7f"
    by blast
  then show ?thesis
  proof cases
    case digit
    then have c: "chars ! nat (charIdx x) = 0x30"
    proof -
      have "x = 0x30 \<or> 0x31 \<le> x" using digit(1) by (auto simp: word_le_nat_alt word_unat_eq_iff)
      moreover have "\<not> x > 0x7f" using digit(2) by (simp add: word_le_nat_alt word_less_nat_alt)
      ultimately show ?thesis using tab digit(2) by auto
    qed
    note d = digit_of [OF digit]
    have "rc.codec (\<lambda>c. Some (c, 0)) (\<lambda>d. Some (d, st, 0x30 + word_of_int (uint (x - 0x30)))) (st, x)"
      using d(3) rc.codec_return [of "(st, x)"] by simp
    note all = codec_equiprobable_then [where dec = "\<lambda>s d. Some (d, st, 0x30 + word_of_int s)", OF d(1,2) _ this]
    have "codes_with (\<lambda>c1. if 0x30 \<le> x \<and> x \<le> 0x39 then Some (fst (range_encode_equiprobable c1 10 (uint (x - 0x30))), st)
      else if x = 0x55 \<or> x > 0x7f then encode_unicode unicode st x c1 else Some (c1, st))
      (letter_tail unicode st (charIdx x)) st (st, x)"
      by (rule codes_withI [OF rc.codec_enc_dec_cong [OF all refl]])
        (use digit idx c in \<open>simp_all add: letter_tail_def case_prod_unfold\<close>)
    with st show ?thesis by blast
  next
    case uni
    then have c: "chars ! nat (charIdx x) = 0x55" "\<not> (0x30 \<le> x \<and> x \<le> 0x39)"
      using tab by (auto simp: word_le_nat_alt word_less_nat_alt)
    then have "letter_tail unicode st (charIdx x) = decode_unicode unicode st"
      using idx by (auto simp: letter_tail_def)
    with codes_unicode [OF assms(1,2) uni] c(2) uni show ?thesis by (simp only: if_False simp_thms) auto
  next
    case plain
    have "0x30 \<le> x" if "0x31 \<le> x" using that by (rule order_trans [rotated]) simp
    with plain have c: "chars ! nat (charIdx x) = x" using tab by auto
    have "codes_with (\<lambda>c1. Some (c1, st)) (letter_tail unicode st (charIdx x)) st (st, x)"
      by (rule codes_withI [OF rc.codec_enc_dec_cong [OF rc.codec_return refl]])
        (use plain idx c in \<open>auto simp: letter_tail_def\<close>)
    with st plain idx(2) show ?thesis by (auto simp del: disj_not1)
  qed
qed

lemma codes_letter:
  assumes h: "vectors_ok h" and uni: "unicode_ok unicode" and st: "page_ok st" and x: "codable x"
    and ctx: "\<forall>y \<in> set ctx. 0 \<le> charIdx y"
  shows "\<exists>st1. page_ok st1 \<and>
    codes_with (encode_letter h unicode ctx st x) (decode_letter h unicode ctx st) st1 (st1, x)"
proof -
  have "0 \<le> charIdx x" "charIdx x < CHARCOUNT" using x charIdx_range [of x] by (auto simp: codable_def)
  then obtain v where v: "extractVector ctx h = Some v" "table_ok v CHARCOUNT (charIdx x)"
    using h ctx unfolding vectors_ok_def by blast
  obtain st1 E where st1: "page_ok st1" and E: "\<And>c1. (if 0x30 \<le> x \<and> x \<le> 0x39
      then Some (fst (range_encode_equiprobable c1 10 (uint (x - 0x30))), st)
      else if x = 0x55 \<or> x > 0x7f then encode_unicode unicode st x c1 else Some (c1, st))
      = map_option (\<lambda>(c', _). (c', st1)) (E c1)" "rc.codec E (letter_tail unicode st (charIdx x)) (st1, x)"
    using codes_letter_tail [OF uni st x] unfolding codes_with_def by blast
  note all = codec_symbol_then [where dec = "letter_tail unicode st", OF v(2) E(2)]
  have "codes_with (encode_letter h unicode ctx st x) (decode_letter h unicode ctx st) st1 (st1, x)"
    by (rule codes_withI [OF rc.codec_enc_dec_cong [OF all refl]])
      (simp_all only: encode_letter_def decode_letter_eq v(1) Option.bind.simps E(1) map_option_bind
        case_prod_unfold comp_def)
  with st1 show ?thesis by blast
qed

lemma codec_letters:
  assumes h: "vectors_ok h" and uni: "unicode_ok unicode"
  shows "page_ok st \<Longrightarrow> \<forall>x \<in> set ctx. 0 \<le> charIdx x \<Longrightarrow> \<forall>x \<in> set s. codable x \<Longrightarrow>
    rc.codec (encode_letters h unicode ctx st s) (decode_letters h unicode ctx st (length s)) s"
proof (induction s arbitrary: ctx st)
  case Nil
  have "encode_letters h unicode ctx st [] = (\<lambda>c. Some (c, 0))"
    "decode_letters h unicode ctx st 0 = (\<lambda>d. Some (d, []))" by auto
  then show ?case using rc.codec_return by simp
next
  case (Cons x s)
  obtain st1 E where st1: "page_ok st1" and E: "\<And>c. encode_letter h unicode ctx st x c = map_option (\<lambda>(c', _). (c', st1)) (E c)"
    "rc.codec E (decode_letter h unicode ctx st) (st1, x)"
    using codes_letter [OF h uni Cons.prems(1) _ Cons.prems(2), of x] Cons.prems(3) unfolding codes_with_def by auto
  define dec2 where "dec2 = (\<lambda>(st1, x) d. map_option (\<lambda>(c2, s). (c2, x # s)) (decode_letters h unicode (ctx @ [x]) st1 (length s) d))"
  have "rc.codec (encode_letters h unicode (ctx @ [x]) st1 s) (decode_letters h unicode (ctx @ [x]) st1 (length s)) s"
    using Cons.prems st1 by (intro Cons.IH) (auto simp: codable_def)
  then have rest: "rc.codec (encode_letters h unicode (ctx @ [x]) st1 s) (dec2 (st1, x)) (x # s)"
    unfolding dec2_def using rc.codec_value_map [where g = "\<lambda>s. x # s"] by simp
  show ?case
    by (rule rc.codec_enc_dec_cong [OF rc.codec_seq [OF E(2), where ?dec2.0 = dec2, OF rest]])
      (simp_all add: E(1) dec2_def case_prod_unfold map_conv_bind_option)
qed

lemma codec_LCAlphaSpace:
  assumes "vectors_ok h" "unicode_ok unicode" "\<forall>x \<in> set s. codable x"
  shows "rc.codec (encodeLCAlphaSpace h unicode s) (decodeLCAlphaSpace h unicode (length s)) s"
proof -
  have "page_ok page_start" by (simp add: page_ok_def page_start_def)
  from codec_letters [OF assms(1,2) this, of "[]" s] assms(3) show ?thesis
    by (simp add: encodeLCAlphaSpace_def [abs_def] decodeLCAlphaSpace_def [abs_def])
qed

end
