(* ===== verification/Smac.thy ===== *)
theory Smac
  imports LowerAlpha
begin

text \<open>
  \<^verbatim>\<open>forms/smac.c\<close>: the compressor of short texts. Two models are tried on scratch coders, packed ASCII and the
  letter model, and the shorter one is used; the decompressor tells them apart by their first bits. Texts are
  the bytes before the terminating NUL. \<open>None\<close> is an abort, an \<^verbatim>\<open>exit\<close> or an access outside an array. The
  entropy totals kept in the handle are left out, no branch reads them. Chars are unsigned as on the
  target platform.
\<close>

section \<open>Model\<close>

text \<open>\<^verbatim>\<open>0.05*0xffffff\<close>, truncated.\<close>

definition probPackedASCII :: u32 where "probPackedASCII = 838860"

text \<open>Which model a stream uses: two bits 1 and 0, then the packed ASCII flag, then the length.\<close>

definition encode_preamble :: "stats_handle \<Rightarrow> int \<Rightarrow> nat \<Rightarrow> range_coder \<Rightarrow> (range_coder \<times> int) option" where
  "encode_preamble h flag len c =
     (let c1 = fst (range_encode_equiprobable c 2 1);
          c2 = fst (range_encode_equiprobable c1 2 0)
      in do {
        (c3, _) \<leftarrow> range_encode_symbol c2 [probPackedASCII] 2 flag;
        range_encode_symbol c3 (messagelengths h) 1024 (int len) })"

definition stats3_compress_radix_append :: "stats_handle \<Rightarrow> u8 list \<Rightarrow> range_coder \<Rightarrow> (range_coder \<times> int) option" where
  "stats3_compress_radix_append h m c = do {
     (c1, _) \<leftarrow> encode_preamble h 0 (length m) c;
     Some (encodePackedASCII m c1) }"

definition stats3_compress_model1_append ::
    "stats_handle \<Rightarrow> (int \<Rightarrow> u32 list option) \<Rightarrow> u8 list \<Rightarrow> range_coder \<Rightarrow> (range_coder \<times> int) option" where
  "stats3_compress_model1_append h unicode m c = do {
     (r, utf16) \<leftarrow> utf8toutf16 m [];
     (if length utf16 > 1024 then None
      else if r \<noteq> 0 then Some (c, -1)
      else do {
        (c1, _) \<leftarrow> encode_preamble h 1 (length utf16) c;
        (c2, _) \<leftarrow> encodeNonAlpha utf16 c1;
        let alpha = stripNonAlpha utf16;
        let lcalpha = stripCase alpha;
        (c3, _) \<leftarrow> encodeLCAlphaSpace h unicode lcalpha c2;
        let alpha = mungeCase alpha;
        (c4, _) \<leftarrow> encodeCaseModel1 h alpha c3;
        Some (c4, 0) }) }"

definition first_byte :: "u8 list \<Rightarrow> u8" where
  "first_byte m = (case m of [] \<Rightarrow> 0 | x # _ \<Rightarrow> x)"

definition stats3_compress_uncompressed_append :: "u8 list \<Rightarrow> range_coder \<Rightarrow> range_coder \<times> int" where
  "stats3_compress_uncompressed_append m c =
     (let c1 = fst (range_encode_equiprobable c 2 (uint (drop_bit 7 (first_byte m AND 0x80))));
          c2 = fst (range_encode_equiprobable c1 2 (uint (drop_bit 6 (first_byte m AND 0x40))));
          c3 = fst (range_encode_equiprobable c2 64 (uint (first_byte m AND 0x3f)));
          c4 = encode_values (tl m) c3;
          c5 = fst (range_encode_equiprobable c4 256 255)
      in (c5, 0))"

text \<open>The scratch buffers are fresh memory of 1 KB: \<open>junk\<close>.\<close>

definition stats3_compress_append ::
    "(nat \<Rightarrow> u8) \<Rightarrow> stats_handle \<Rightarrow> (int \<Rightarrow> u32 list option) \<Rightarrow> u8 list \<Rightarrow> range_coder \<Rightarrow> (range_coder \<times> int) option" where
  "stats3_compress_append junk h unicode m c = do {
     (t1, _) \<leftarrow> stats3_compress_model1_append h unicode m (range_new_coder junk 1024);
     let b1 = bits_used (fst (range_conclude t1));
     (t2, r2) \<leftarrow> stats3_compress_radix_append h m (range_new_coder junk 1024);
     let b2 = (if r2 \<noteq> 0 then 999999 else bits_used (fst (range_conclude t2)));
     let b3 = 999999;
     (if b1 < b2 \<and> b1 < b3 then stats3_compress_model1_append h unicode m c
      else if b2 < b3 \<or> first_byte m AND 0x80 \<noteq> 0 then stats3_compress_radix_append h m c
      else Some (stats3_compress_uncompressed_append m c)) }"

text \<open>The result of \<^verbatim>\<open>range_conclude\<close> is not looked at.\<close>

definition stats3_compress_bits ::
    "(nat \<Rightarrow> u8) \<Rightarrow> stats_handle \<Rightarrow> (int \<Rightarrow> u32 list option) \<Rightarrow> u8 list \<Rightarrow> range_coder \<Rightarrow> (range_coder \<times> int) option" where
  "stats3_compress_bits junk h unicode m c = do {
     (c1, r) \<leftarrow> stats3_compress_append junk h unicode m c;
     (if r \<noteq> 0 then Some (c1, -1) else Some (fst (range_conclude c1), 0)) }"

text \<open>\<open>Inl\<close> is the error return, \<open>Inr\<close> the bytes written to the caller's buffer.\<close>

definition stats3_compress ::
    "(nat \<Rightarrow> u8) \<Rightarrow> stats_handle \<Rightarrow> (int \<Rightarrow> u32 list option) \<Rightarrow> u8 list \<Rightarrow> (int + u8 list) option" where
  "stats3_compress junk h unicode inp = do {
     (c1, r) \<leftarrow> stats3_compress_bits junk h unicode inp (range_new_coder junk (length inp * 2));
     (if r \<noteq> 0 then Some (Inl (-1))
      else let c2 = fst (range_conclude c1);
               outlen = drop_bit 3 (bits_used c2) + (if bits_used c2 AND 7 \<noteq> 0 then 1 else 0)
           in Some (Inr (take outlen (bit_stream c2)))) }"

text \<open>Raw bytes: the loop ends at a NUL, at the end mark 255, after a failure or after 2048 bytes; the
  output array has 1025 entries. The length reported is one less than the index reached.\<close>

function decompress_raw :: "nat \<Rightarrow> u8 list \<Rightarrow> range_coder \<Rightarrow> (range_coder \<times> u8 list) option" where
  "decompress_raw i m c =
     (if last m \<noteq> 0 \<and> i < 2048
      then let (c1, r) = range_decode_equiprobable c 256
           in if r = -1 \<or> r = 0xff then (if i > 1024 then None else Some (c1, take (i - 1) m))
              else if i > 1024 then None
              else decompress_raw (i + 1) (m @ [word_of_int r]) c1
      else if i > 1024 then None else Some (c, take (i - 1) m))"
  by pat_completeness auto
termination
  by (relation "measure (\<lambda>(i, m, c). 2048 - i)") auto

declare decompress_raw.simps [simp del]

text \<open>The loop that puts the characters coded apart back in their places.\<close>

fun reintegrate :: "int \<Rightarrow> nat \<Rightarrow> (int \<times> u8) list \<Rightarrow> u16 list \<Rightarrow> u16 list option" where
  "reintegrate i 0 special alpha = Some []"
| "reintegrate i (Suc n) special alpha =
     (case special of
        (p, v) # special' \<Rightarrow>
          if p = i then map_option (\<lambda>m. ucast v # m) (reintegrate (i + 1) n special' alpha)
          else (case alpha of [] \<Rightarrow> None
                | x # alpha' \<Rightarrow> map_option (\<lambda>m. x # m) (reintegrate (i + 1) n special alpha'))
      | [] \<Rightarrow> (case alpha of [] \<Rightarrow> None
                | x # alpha' \<Rightarrow> map_option (\<lambda>m. x # m) (reintegrate (i + 1) n special alpha')))"

text \<open>The letter model; \<open>junkp\<close> and \<open>junkv\<close> are the uninitialised arrays of 1024 positions and values.\<close>

definition decompress_model1 ::
    "int list \<Rightarrow> u8 list \<Rightarrow> stats_handle \<Rightarrow> (int \<Rightarrow> u32 list option) \<Rightarrow> int \<Rightarrow> range_coder \<Rightarrow> (range_coder \<times> u8 list) option" where
  "decompress_model1 junkp junkv h unicode encodedLength c = do {
     (c1, nonAlphaPositions, nonAlphaValues, nonAlphaCount) \<leftarrow> decodeNonAlpha junkp junkv encodedLength c;
     let alphaCount = encodedLength - nonAlphaCount;
     (c2, lowerCaseAlphaChars) \<leftarrow> decodeLCAlphaSpace h unicode (nat alphaCount) c1;
     (c3, lowerCaseAlphaChars) \<leftarrow> decodeCaseModel1 h lowerCaseAlphaChars c2;
     let lowerCaseAlphaChars = mungeCase lowerCaseAlphaChars;
     m16 \<leftarrow> reintegrate 0 (nat (alphaCount + nonAlphaCount))
              (take (nat nonAlphaCount) (zip nonAlphaPositions nonAlphaValues)) lowerCaseAlphaChars;
     Some (c3, snd (utf16toutf8 m16 [])) }"

definition stats3_decompress_bits ::
    "int list \<Rightarrow> u8 list \<Rightarrow> stats_handle \<Rightarrow> (int \<Rightarrow> u32 list option) \<Rightarrow> range_coder \<Rightarrow> (range_coder \<times> u8 list) option" where
  "stats3_decompress_bits junkp junkv h unicode c =
     (let (c1, b7) = range_decode_equiprobable c 2;
          (c2, b6) = range_decode_equiprobable c1 2;
          notRawASCII = (b7 \<noteq> 0 \<and> b6 = 0)
      in if \<not> notRawASCII
         then let (c3, b) = range_decode_equiprobable c2 64;
                  b5to0 = (word_of_int b OR push_bit 6 (word_of_int b6)) OR push_bit 7 (word_of_int b7)
              in decompress_raw 1 [b5to0] c3
         else let (c3, notPackedASCII) = range_decode_symbol c2 [probPackedASCII] 2;
                  (c4, encodedLength) = range_decode_symbol c3 (messagelengths h) 1024
              in if notPackedASCII = 0 then decodePackedASCII (nat encodedLength) c4
                 else decompress_model1 junkp junkv h unicode encodedLength c4)"

text \<open>The coder of \<^verbatim>\<open>stats3_decompress\<close> has a buffer of twice the input; its second half is never read.\<close>

definition stats3_decompress ::
    "(nat \<Rightarrow> u8) \<Rightarrow> int list \<Rightarrow> u8 list \<Rightarrow> stats_handle \<Rightarrow> (int \<Rightarrow> u32 list option) \<Rightarrow> u8 list \<Rightarrow> u8 list option" where
  "stats3_decompress junk junkp junkv h unicode inp =
     (let c = range_new_coder junk (length inp * 2);
          c = c\<lparr>bit_stream := inp @ drop (length inp) (bit_stream c), bit_stream_length := length inp * 8,
                bits_used := 0, low := 0, high := 0xffffffff\<rparr>
      in map_option snd (stats3_decompress_bits junkp junkv h unicode (range_decode_prefetch c)))"

section \<open>Round trip of the two models\<close>

definition stream_body ::
    "int list \<Rightarrow> u8 list \<Rightarrow> stats_handle \<Rightarrow> (int \<Rightarrow> u32 list option) \<Rightarrow> int \<Rightarrow> int \<Rightarrow> range_coder \<Rightarrow> (range_coder \<times> u8 list) option" where
  "stream_body junkp junkv h unicode notPacked len c =
     (if notPacked = 0 then decodePackedASCII (nat len) c else decompress_model1 junkp junkv h unicode len c)"

definition model_choice ::
    "int list \<Rightarrow> u8 list \<Rightarrow> stats_handle \<Rightarrow> (int \<Rightarrow> u32 list option) \<Rightarrow> int \<Rightarrow> int \<Rightarrow> range_coder \<Rightarrow> (range_coder \<times> u8 list) option" where
  "model_choice junkp junkv h unicode b7 b6 c2 =
     (if \<not> (b7 \<noteq> 0 \<and> b6 = 0)
      then (case range_decode_equiprobable c2 64 of (c3, b) \<Rightarrow>
        decompress_raw 1 [(word_of_int b OR push_bit 6 (word_of_int b6)) OR push_bit 7 (word_of_int b7)] c3)
      else Option.bind (Some (range_decode_symbol c2 [probPackedASCII] 2)) (\<lambda>(c3, np).
        Option.bind (Some (range_decode_symbol c3 (messagelengths h) 1024)) (\<lambda>(c4, len).
          stream_body junkp junkv h unicode np len c4)))"

lemma decompress_bits_eq:
  "stats3_decompress_bits junkp junkv h unicode c =
     Option.bind (Some (range_decode_equiprobable c 2)) (\<lambda>(c1, b7).
       Option.bind (Some (range_decode_equiprobable c1 2)) (\<lambda>(c2, b6). model_choice junkp junkv h unicode b7 b6 c2))"
  unfolding stats3_decompress_bits_def model_choice_def stream_body_def Let_def case_prod_unfold Option.bind.simps by simp

lemma codec_stream:
  assumes flag: "flag = 0 \<or> flag = 1" and len: "table_ok (messagelengths h) 1024 (int len)"
    and body: "rc.codec E (stream_body junkp junkv h unicode flag (int len)) y"
  shows "rc.codec (\<lambda>c. Option.bind (encode_preamble h flag len c) (\<lambda>(c1, r). E c1))
     (stats3_decompress_bits junkp junkv h unicode) y"
proof -
  have "table_ok [probPackedASCII] 2 flag"
    using flag by (intro table_ok_flag) (auto simp: probPackedASCII_def)
  note a = codec_symbol_then [where dec = "\<lambda>np d. Option.bind (Some (range_decode_symbol d (messagelengths h) 1024))
      (\<lambda>(c4, len). stream_body junkp junkv h unicode np len c4)", OF this
      codec_symbol_then [where dec = "\<lambda>len. stream_body junkp junkv h unicode flag len", OF len body]]
  let ?E1 = "\<lambda>c. Option.bind (range_encode_symbol c [probPackedASCII] 2 flag) (\<lambda>(c1, r).
      Option.bind (range_encode_symbol c1 (messagelengths h) 1024 (int len)) (\<lambda>(c1, r). E c1))"
  have "model_choice junkp junkv h unicode 1 0 = (\<lambda>c2. Option.bind (Some (range_decode_symbol c2 [probPackedASCII] 2)) (\<lambda>(c3, np).
        Option.bind (Some (range_decode_symbol c3 (messagelengths h) 1024)) (\<lambda>(c4, len).
          stream_body junkp junkv h unicode np len c4)))" by (auto simp: model_choice_def)
  with a have "rc.codec ?E1 (model_choice junkp junkv h unicode 1 0) y" by (simp only:)
  note b = codec_equiprobable_then [where dec = "model_choice junkp junkv h unicode 1", OF _ _ _ this, of 2]
  have b': "rc.codec (\<lambda>c. Option.bind (Some (range_encode_equiprobable c 2 0)) (\<lambda>(c1, r). ?E1 c1))
      (\<lambda>d. Option.bind (Some (range_decode_equiprobable d 2)) (\<lambda>(d1, s). model_choice junkp junkv h unicode 1 s d1)) y"
    by (rule b) simp_all
  note c = codec_equiprobable_then [where dec = "\<lambda>b7 d. Option.bind (Some (range_decode_equiprobable d 2))
      (\<lambda>(d1, s). model_choice junkp junkv h unicode b7 s d1)", OF _ _ _ b', of 2]
  have c': "rc.codec (\<lambda>c. Option.bind (Some (range_encode_equiprobable c 2 1)) (\<lambda>(c1, r).
        Option.bind (Some (range_encode_equiprobable c1 2 0)) (\<lambda>(c1, r). ?E1 c1)))
      (\<lambda>d. Option.bind (Some (range_decode_equiprobable d 2)) (\<lambda>(d1, b7). Option.bind (Some (range_decode_equiprobable d1 2))
        (\<lambda>(d1, s). model_choice junkp junkv h unicode b7 s d1))) y"
    by (rule c) simp_all
  show ?thesis
    by (rule rc.codec_enc_dec_cong [OF c'])
      (simp_all only: decompress_bits_eq encode_preamble_def Let_def Option.bind.simps case_prod_unfold bind_assoc)
qed

lemma codec_radix:
  assumes "packable m" "table_ok (messagelengths h) 1024 (int (length m))"
  shows "rc.codec (stats3_compress_radix_append h m) (stats3_decompress_bits junkp junkv h unicode) m"
proof -
  have "stream_body junkp junkv h unicode 0 (int (length m)) = decodePackedASCII (length m)"
    by (auto simp: stream_body_def)
  with codec_packed_ascii [OF assms(1)]
  have "rc.codec (\<lambda>c. Some (encodePackedASCII m c)) (stream_body junkp junkv h unicode 0 (int (length m))) m" by simp
  from codec_stream [OF _ assms(2) this] show ?thesis
    unfolding stats3_compress_radix_append_def [abs_def] by simp
qed

text \<open>Taking the special characters out and putting them back.\<close>

lemma unit_of_byte: "x < (0x80 :: u16) \<Longrightarrow> (ucast (ucast x :: u8) :: u16) = x"
  by (simp add: word_unat_eq_iff unat_byte_of word_less_nat_alt)

lemma reintegrate_scan: "reintegrate i (length m) (nonAlpha_scan m i) (stripNonAlpha m) = Some m"
proof (induction m arbitrary: i)
  case (Cons x m)
  have later: "p \<noteq> i" if "nonAlpha_scan m (i + 1) = (p, v) # r" for p v r
    using nonAlpha_scan_bounds [of p v m "i + 1"] that by force
  show ?case
  proof (cases "is_special x")
    case True
    with Cons [of "i + 1"] show ?thesis
      by (simp add: stripNonAlpha_eq nonAlpha_scan_Cons unit_of_byte is_special_def)
  next
    case False
    with Cons [of "i + 1"] later show ?thesis
      by (auto simp: stripNonAlpha_eq nonAlpha_scan_Cons split: list.split)
  qed
qed (simp add: stripNonAlpha_def)

text \<open>What is left after taking them out is text the letter model can code.\<close>

lemma codable_folded:
  assumes "x \<in> set (stripCase (stripNonAlpha m))"
  shows "codable x"
proof -
  obtain y where y: "x = fold_case y" "\<not> is_special y"
    using assms by (auto simp: stripCase_eq stripNonAlpha_eq)
  have "x \<noteq> 0x55" using fold_case_class(3) [of y] y(1) by (auto simp: c_isupper_def)
  moreover have "0 \<le> charIdx x"
  proof (cases "y < 0x80")
    case True
    with y show ?thesis by (simp add: is_special_def fold_case_def)
  next
    case False
    then have "x > 0x7f" using y(1) by (auto simp: fold_case_def word_less_nat_alt)
    then have "charIdx x = charIdx 0x80" by (simp add: charIdx_def)
    with charIdx_0x80 show ?thesis by (simp add: c_tolower_def c_isupper_def)
  qed
  ultimately show ?thesis by (simp add: codable_def)
qed

text \<open>The decoder after the special characters, and after the letters.\<close>

definition model1_case ::
    "stats_handle \<Rightarrow> int \<Rightarrow> int list \<times> u8 list \<times> int \<Rightarrow> u16 list \<Rightarrow> range_coder \<Rightarrow> (range_coder \<times> u8 list) option" where
  "model1_case h len special l c2 = Option.bind (decodeCaseModel1 h l c2) (\<lambda>(c3, l).
     case special of (P, V, n) \<Rightarrow>
     Option.bind (reintegrate 0 (nat (len - n + n)) (take (nat n) (zip P V)) (mungeCase l))
       (\<lambda>m16. Some (c3, snd (utf16toutf8 m16 []))))"

definition model1_letters ::
    "stats_handle \<Rightarrow> (int \<Rightarrow> u32 list option) \<Rightarrow> int \<Rightarrow> int list \<times> u8 list \<times> int \<Rightarrow> range_coder \<Rightarrow> (range_coder \<times> u8 list) option" where
  "model1_letters h unicode len special c1 =
     Option.bind (decodeLCAlphaSpace h unicode (nat (len - snd (snd special))) c1) (\<lambda>(c2, l). model1_case h len special l c2)"

lemma decompress_model1_eq:
  "decompress_model1 junkp junkv h unicode len c =
     Option.bind (decodeNonAlpha junkp junkv len c) (\<lambda>(c1, special). model1_letters h unicode len special c1)"
  by (simp add: decompress_model1_def model1_letters_def model1_case_def case_prod_unfold)

definition smac_stats_ok :: "stats_handle \<Rightarrow> (int \<Rightarrow> u32 list option) \<Rightarrow> bool" where
  "smac_stats_ok h unicode \<longleftrightarrow> vectors_ok h \<and> unicode_ok unicode \<and> case_stats_ok h \<and>
     (\<forall>k. 0 \<le> k \<and> k < 1024 \<longrightarrow> table_ok (messagelengths h) 1024 k)"

lemma special_characters:
  assumes "1024 \<le> length junkp" "1024 \<le> length junkv"
  shows "nonAlpha_result junkp junkv us = (map fst (nonAlpha_scan us 0) @ drop (length (nonAlpha_scan us 0)) junkp,
    map snd (nonAlpha_scan us 0) @ drop (length (nonAlpha_scan us 0)) junkv, int (length (nonAlpha_scan us 0)))"
  by (simp_all add: nonAlpha_result_def Let_def zip_map_fst_snd)

lemma codec_model1_body:
  assumes stats: "smac_stats_ok h unicode" and junk: "1024 \<le> length junkp" "1024 \<le> length junkv"
    and len: "length us \<le> 1024" "length (concat (map utf8_unit us)) \<le> 1024"
  shows "rc.codec (\<lambda>c. Option.bind (encodeNonAlpha us c) (\<lambda>(c2, r).
      Option.bind (encodeLCAlphaSpace h unicode (stripCase (stripNonAlpha us)) c2) (\<lambda>(c3, r).
      Option.bind (encodeCaseModel1 h (mungeCase (stripNonAlpha us)) c3) (\<lambda>(c4, r). Some (c4, 0)))))
    (decompress_model1 junkp junkv h unicode (int (length us))) (concat (map utf8_unit us))"
proof -
  let ?alpha = "stripNonAlpha us" and ?sp = "nonAlpha_result junkp junkv us" and ?L = "int (length us)"
  let ?hits = "nonAlpha_scan us 0" and ?bytes = "concat (map utf8_unit us)"
  have ok: "vectors_ok h" "unicode_ok unicode" "case_stats_ok h" using stats by (simp_all add: smac_stats_ok_def)
  note sp = special_characters [OF junk, of us]
  have cnt: "nat (?L - int (length ?hits)) = length ?alpha" "nat (?L - int (length ?hits) + int (length ?hits)) = length us"
    using length_nonAlpha_scan [of us 0] by auto
  define fin where "fin = (\<lambda>l d. Option.bind (reintegrate 0 (length us) ?hits (mungeCase l))
     (\<lambda>m16. Some (d :: range_coder, snd (utf16toutf8 m16 []))))"
  have "fin (mungeCase ?alpha) = (\<lambda>d. Some (d, ?bytes))"
    using utf16toutf8_fits [of "[]" us] len(2)
    by (auto simp: fin_def mungeCase_twice reintegrate_scan)
  then have last: "rc.codec (\<lambda>c. Some (c, 0)) (fin (mungeCase ?alpha)) ?bytes" using rc.codec_return by simp
  have "case_state_ok case_start" by (simp add: case_state_ok_def case_start_def)
  from codec_case [OF ok(3) this, of 0 "mungeCase ?alpha"]
  have cs: "rc.codec (encodeCaseModel1 h (mungeCase ?alpha)) (decodeCaseModel1 h (stripCase ?alpha)) (mungeCase ?alpha)"
    by (simp add: encodeCaseModel1_def [abs_def] decodeCaseModel1_def [abs_def] fold_case_munged stripCase_eq)
  have "model1_case h ?L ?sp l d = Option.bind (decodeCaseModel1 h l d) (\<lambda>(c3, l). fin l c3)" for l d
    unfolding model1_case_def fin_def sp by (simp add: cnt case_prod_unfold zip_map_fst_snd)
  then have case_dec: "model1_case h ?L ?sp (stripCase ?alpha) =
      (\<lambda>d. Option.bind (decodeCaseModel1 h (stripCase ?alpha) d) (\<lambda>(c3, l). fin l c3))" by blast
  have c1: "rc.codec (\<lambda>c. Option.bind (encodeCaseModel1 h (mungeCase ?alpha) c) (\<lambda>(c1, r). Some (c1, 0)))
      (model1_case h ?L ?sp (stripCase ?alpha)) ?bytes"
    unfolding case_dec by (rule rc.codec_seq [OF cs, where ?dec2.0 = fin, OF last])
  have lc: "rc.codec (encodeLCAlphaSpace h unicode (stripCase ?alpha)) (decodeLCAlphaSpace h unicode (length ?alpha)) (stripCase ?alpha)"
    using codec_LCAlphaSpace [OF ok(1,2), of "stripCase ?alpha"] codable_folded [of _ us] by (simp add: stripCase_def)
  have "model1_letters h unicode ?L ?sp = (\<lambda>d. Option.bind (decodeLCAlphaSpace h unicode (length ?alpha) d) (\<lambda>(c2, l). model1_case h ?L ?sp l c2))"
    by (auto simp: model1_letters_def sp cnt)
  with rc.codec_seq [OF lc, where ?dec2.0 = "model1_case h ?L ?sp", OF c1]
  have c2: "rc.codec (\<lambda>c. Option.bind (encodeLCAlphaSpace h unicode (stripCase ?alpha) c) (\<lambda>(c3, r).
      Option.bind (encodeCaseModel1 h (mungeCase ?alpha) c3) (\<lambda>(c1, r). Some (c1, 0))))
      (model1_letters h unicode ?L ?sp) ?bytes" by simp
  show ?thesis
    by (rule rc.codec_enc_dec_cong [OF rc.codec_seq [OF codec_nonAlpha [OF len(1) junk],
          where ?dec2.0 = "model1_letters h unicode ?L", OF c2]]) (simp_all only: decompress_model1_eq)
qed

lemma codec_model1:
  assumes stats: "smac_stats_ok h unicode" and junk: "1024 \<le> length junkp" "1024 \<le> length junkv"
    and len: "length us < 1024" "length (concat (map utf8_unit us)) \<le> 1024"
  shows "rc.codec (stats3_compress_model1_append h unicode (concat (map utf8_unit us)))
    (stats3_decompress_bits junkp junkv h unicode) (concat (map utf8_unit us))"
proof -
  have utf: "utf8toutf16 (concat (map utf8_unit us)) [] = Some (0, us)"
    using utf8toutf16_units [of us "[]" "[]"] by simp
  have tab: "table_ok (messagelengths h) 1024 (int (length us))" using stats len by (simp add: smac_stats_ok_def)
  have "stream_body junkp junkv h unicode 1 (int (length us)) = decompress_model1 junkp junkv h unicode (int (length us))"
    by (auto simp: stream_body_def)
  with codec_model1_body [OF stats junk _ len(2)] len(1)
  have body: "rc.codec (\<lambda>c. Option.bind (encodeNonAlpha us c) (\<lambda>(c2, r).
      Option.bind (encodeLCAlphaSpace h unicode (stripCase (stripNonAlpha us)) c2) (\<lambda>(c3, r).
      Option.bind (encodeCaseModel1 h (mungeCase (stripNonAlpha us)) c3) (\<lambda>(c4, r). Some (c4, 0)))))
    (stream_body junkp junkv h unicode 1 (int (length us))) (concat (map utf8_unit us))" by simp
  show ?thesis
    by (rule rc.codec_enc_dec_cong [OF codec_stream [OF _ tab body]])
      (use len in \<open>simp_all add: stats3_compress_model1_append_def utf Let_def\<close>)
qed

section \<open>Round trip of the compressor\<close>

lemma encodePackedASCII_rejects: "\<not> packable m \<Longrightarrow> snd (encodePackedASCII m c) = -1"
  by (induction m arbitrary: c) (auto simp: packable_def Let_def)

lemma table_ok_total:
  assumes "table_ok f A k"
  shows "\<exists>p. range_encode_symbol c f A k = Some p"
  using rc.codec_total [OF codec_symbol [OF assms]] by blast

lemma encode_preamble_total:
  assumes "flag = 0 \<or> flag = 1" "table_ok (messagelengths h) 1024 (int len)"
  shows "\<exists>p. encode_preamble h flag len c = Some p"
proof -
  have "table_ok [probPackedASCII] 2 flag"
    using assms(1) by (intro table_ok_flag) (auto simp: probPackedASCII_def)
  note t = table_ok_total [OF this] table_ok_total [OF assms(2)]
  obtain c1 r1 where "range_encode_symbol (fst (range_encode_equiprobable (fst (range_encode_equiprobable c 2 1)) 2 0))
      [probPackedASCII] 2 flag = Some (c1, r1)" using t(1) by (metis surj_pair)
  with t(2) show ?thesis by (simp add: encode_preamble_def Let_def)
qed

text \<open>The size of a trial run is at most that of its scratch buffer, which is below the mark for a model that
  cannot code the text: such a model is never chosen.\<close>

lemma concluded_size:
  assumes "rc.codec enc dec x" "8 * bytes < 2 ^ 31" "enc (range_new_coder junk bytes) = Some (c1, r)"
  shows "bits_used (fst (range_conclude c1)) \<le> 8 * bytes"
  using concluded_wf [OF assms] by (simp add: wf_buf_def)

lemma compress_append_choice:
  fixes us junk
  defines "m \<equiv> concat (map utf8_unit us)"
  assumes stats: "smac_stats_ok h unicode" and len: "length us < 1024" "length m < 1024"
  obtains "stats3_compress_append junk h unicode m = stats3_compress_model1_append h unicode m"
  | "packable m" "stats3_compress_append junk h unicode m = stats3_compress_radix_append h m"
proof -
  let ?P = "replicate 1024 0" and ?V = "replicate 1024 0"
  have model1: "rc.codec (stats3_compress_model1_append h unicode m) (stats3_decompress_bits ?P ?V h unicode) m"
    using codec_model1 [OF stats, of ?P ?V us] len by (simp add: m_def)
  have tab: "table_ok (messagelengths h) 1024 (int (length m))" using stats len(2) by (simp add: smac_stats_ok_def)
  let ?c0 = "range_new_coder junk 1024"
  obtain t1 r1 where t1: "stats3_compress_model1_append h unicode m ?c0 = Some (t1, r1)"
    using rc.codec_total [OF model1] by blast
  have b1: "bits_used (fst (range_conclude t1)) \<le> 8192" using concluded_size [OF model1 _ t1] by simp
  obtain p where "encode_preamble h 0 (length m) ?c0 = Some p" using encode_preamble_total [OF _ tab] by blast
  then obtain t2 r2 where t2: "stats3_compress_radix_append h m ?c0 = Some (t2, r2)" and r2: "\<not> packable m \<Longrightarrow> r2 \<noteq> 0"
    using encodePackedASCII_rejects [of m "fst p"]
    by (cases "encodePackedASCII m (fst p)") (auto simp: stats3_compress_radix_append_def case_prod_unfold)
  show thesis
  proof (cases "bits_used (fst (range_conclude t1)) < (if r2 \<noteq> 0 then 999999 else bits_used (fst (range_conclude t2)))")
    case True
    with b1 t1 t2 show thesis
      by (intro that(1) ext) (simp add: stats3_compress_append_def Let_def split del: if_split)
  next
    case False
    with b1 have r: "r2 = 0" by (cases "r2 = 0") simp_all
    with r2 have ok: "packable m" by blast
    have "bits_used (fst (range_conclude t2)) \<le> 8192"
      using concluded_size [OF codec_radix [OF ok tab, of ?P ?V unicode] _ t2] by simp
    with False r t1 t2 show thesis
      by (intro that(2) ok ext) (simp add: stats3_compress_append_def Let_def)
  qed
qed

lemma codec_append:
  fixes us junk
  defines "m \<equiv> concat (map utf8_unit us)"
  assumes stats: "smac_stats_ok h unicode" and arrays: "1024 \<le> length junkp" "1024 \<le> length junkv"
    and len: "length us < 1024" "length m < 1024"
  shows "rc.codec (stats3_compress_append junk h unicode m) (stats3_decompress_bits junkp junkv h unicode) m"
proof (rule compress_append_choice [OF stats len [unfolded m_def], of junk, folded m_def])
  assume "stats3_compress_append junk h unicode m = stats3_compress_model1_append h unicode m"
  then show ?thesis using codec_model1 [OF stats arrays len(1)] len(2) by (simp add: m_def)
next
  assume "packable m" "stats3_compress_append junk h unicode m = stats3_compress_radix_append h m"
  then show ?thesis using codec_radix stats len(2) by (simp add: smac_stats_ok_def)
qed

text \<open>The compressor reports success although the output is too small (the result of
  \<^const>\<open>range_conclude\<close> is ignored); \<open>smac_fits\<close> is the test it leaves out.\<close>

definition smac_fits :: "(nat \<Rightarrow> u8) \<Rightarrow> stats_handle \<Rightarrow> (int \<Rightarrow> u32 list option) \<Rightarrow> u8 list \<Rightarrow> bool" where
  "smac_fits junk h unicode m \<longleftrightarrow>
     (case stats3_compress_append junk h unicode m (range_new_coder junk (length m * 2)) of
        None \<Rightarrow> False | Some (c, _) \<Rightarrow> snd (range_conclude c) = 0)"

lemma decoder_over_stream:
  assumes "wf_buf c" "i < bits_used c"
  shows "dec_bits (d\<lparr>bit_stream := stream_bytes c @ rest, bit_stream_length := length (stream_bytes c) * 8,
      bits_used := 0, low := l, high := u\<rparr>) i = stream_bit (bit_stream c) i"
proof -
  let ?bs = "stream_bytes c"
  have "stream_bit (?bs @ rest) i = stream_bit ?bs i" if "i < length ?bs * 8" 
    using that by (auto simp: stream_bit_def nth_append less_mult_imp_div_less)
  then have "dec_bits (d\<lparr>bit_stream := ?bs @ rest, bit_stream_length := length ?bs * 8,
      bits_used := 0, low := l, high := u\<rparr>) i = dec_bits (load_stream d ?bs) i"
    by (auto simp: dec_bits_def load_stream_def)
  with stream_bytes_bits [OF assms] show ?thesis by simp
qed

text \<open>A statistics tree whose nodes are all consistent provides every vector the letter model asks for.\<close>

inductive tree_ok :: "node \<Rightarrow> bool" where
  "node_ok n \<Longrightarrow> 65 \<le> length (node_children n) \<Longrightarrow>
     (\<And>k. Some k \<in> set (node_children n) \<Longrightarrow> tree_ok k) \<Longrightarrow> tree_ok n"

inductive_cases tree_okE: "tree_ok n"

lemma walk_tree_ok:
  assumes "tree_ok n" "\<forall>x \<in> set ctx. 0 \<le> charIdx x"
  shows "\<exists>k. walk_tree n ctx = Some k \<and> node_ok k"
  using assms
proof (induction n ctx rule: walk_tree.induct)
  case (2 n x xs)
  have i: "nat (charIdx x) < 65" "0 \<le> charIdx x" using 2(3) charIdx_range [of x] by auto
  with 2(2) have "node_children n ! nat (charIdx x) \<in> set (node_children n)" by (auto elim!: tree_okE)
  with 2 i show ?case by (auto elim!: tree_okE split: option.split)
qed (auto elim: tree_okE)

lemma vectors_ok_tree:
  assumes "tree h = Some n" "tree_ok n"
  shows "vectors_ok h"
  unfolding vectors_ok_def
proof (intro allI impI)
  fix ctx assume "\<forall>x \<in> set ctx. 0 \<le> charIdx x"
  then have "\<forall>x \<in> set (rev ctx). 0 \<le> charIdx x" by simp
  from walk_tree_ok [OF assms(2) this] obtain k where k: "extractNode ctx h = Some k" "node_ok k"
    by (auto simp: extractNode_def assms(1))
  with node_vector_ok [OF k(2)]
  show "\<exists>v. extractVector ctx h = Some v \<and> (\<forall>k. 0 \<le> k \<and> k < CHARCOUNT \<longrightarrow> table_ok v CHARCOUNT k)"
    by (simp add: extractVector_def)
qed

text \<open>Tables of equal steps.\<close>

definition multiples :: "int \<Rightarrow> int \<Rightarrow> u32 list" where
  "multiples m n = map (\<lambda>i. word_of_int (m * i)) [1..n]"

lemma ascending_multiples:
  assumes "0 < m" "m * n < 16777215"
  shows "sorted_wrt (<) (multiples m n)" "\<forall>x \<in> set (multiples m n). 0 < x \<and> x < MAXVALUEPLUS1"
proof -
  have un: "uint (word_of_int (m * i) :: u32) = m * i \<and> m * i < 16777215 \<and> 0 < m * i" if "i \<in> set [1..n]" for i
  proof -
    have "m * i \<le> m * n" using that assms(1) by (intro mult_left_mono) simp_all
    then have "m * i < 16777215" using assms(2) by (rule le_less_trans)
    moreover have "0 < m * i" using that assms(1) by simp
    ultimately show ?thesis by (simp only: unsigned_of_int take_bit_eq_mod) simp
  qed
  have "m * i < m * j" if "i < j" for i j using assms(1) that by simp
  with un show "sorted_wrt (<) (multiples m n)"
    unfolding multiples_def sorted_wrt_map word_less_def
    by (auto intro!: sorted_wrt_mono_rel [OF _ sorted_wrt_upto])
  show "\<forall>x \<in> set (multiples m n). 0 < x \<and> x < MAXVALUEPLUS1"
    using un by (force simp: multiples_def word_less_def)
qed

lemma length_multiples [simp]: "length (multiples m n) = nat n"
  by (simp add: multiples_def)

definition sample_handle :: stats_handle where
  "sample_handle = \<lparr>file_bytes = [], rootNodeAddress = 0, totalCount = 0, unicodeAddress = 0, maximumOrder = 5,
     casestartofmessage = 0x800000, casestartofword2 = replicate 2 0x800000,
     casestartofword3 = replicate 2 (replicate 2 0x800000), caseposn1 = replicate 80 0x800000,
     caseposn2 = replicate 2 (replicate 80 0x800000),
     messagelengths = multiples 0x3ff0 1024,
     tree = Some (Node 0 (replicate 65 0) (replicate 65 None))\<rparr>"

definition sample_unicode :: "int \<Rightarrow> u32 list option" where
  "sample_unicode p = Some (multiples 0x6000 640)"

definition sample_junk :: "nat \<Rightarrow> u8" where "sample_junk i = 0xa5"

lemma smac_stats_ok_sample: "smac_stats_ok sample_handle sample_unicode"
  unfolding smac_stats_ok_def
proof (intro conjI)
  have "node_ok (Node 0 (replicate 65 0) (replicate 65 None))" by (simp add: node_ok_def sum_list_replicate)
  then have "tree_ok (Node 0 (replicate 65 0) (replicate 65 None))" by (rule tree_ok.intros) simp_all
  then show "vectors_ok sample_handle" by (intro vectors_ok_tree) (simp_all add: sample_handle_def)
  show "unicode_ok sample_unicode"
    unfolding unicode_ok_def sample_unicode_def using ascending_multiples [of "0x6000" 640]
    by (auto intro!: table_ok_ascending)
  have two: "a < 2 \<Longrightarrow> a = 0 \<or> a = 1" for a :: nat by auto
  show "case_stats_ok sample_handle" by (auto simp: case_stats_ok_def sample_handle_def prob_ok_def dest!: two)
  show "\<forall>k. 0 \<le> k \<and> k < 1024 \<longrightarrow> table_ok (messagelengths sample_handle) 1024 k"
    using ascending_multiples [of "0x3ff0" 1024] by (auto simp: sample_handle_def intro!: table_ok_ascending)
qed

lemma smac_fits_sample: "smac_fits sample_junk sample_handle sample_unicode (concat (map utf8_unit [0x48, 0x69]))"
proof (rule compress_append_choice [OF smac_stats_ok_sample, of "[0x48, 0x69]" sample_junk])
  have m: "concat (map utf8_unit [0x48, 0x69]) = [0x48, 0x69]" by (simp add: utf8_unit_def)
  have "case stats3_compress_model1_append sample_handle sample_unicode [0x48, 0x69] (range_new_coder sample_junk 4) of
      None \<Rightarrow> False | Some (c, r) \<Rightarrow> snd (range_conclude c) = 0" by code_simp
  then show "stats3_compress_append sample_junk sample_handle sample_unicode (concat (map utf8_unit [0x48, 0x69])) =
      stats3_compress_model1_append sample_handle sample_unicode (concat (map utf8_unit [0x48, 0x69])) \<Longrightarrow> ?thesis"
    by (simp only: smac_fits_def m) simp
  have "case stats3_compress_radix_append sample_handle [0x48, 0x69] (range_new_coder sample_junk 4) of
      None \<Rightarrow> False | Some (c, r) \<Rightarrow> snd (range_conclude c) = 0" by code_simp
  then show "stats3_compress_append sample_junk sample_handle sample_unicode (concat (map utf8_unit [0x48, 0x69])) =
      stats3_compress_radix_append sample_handle (concat (map utf8_unit [0x48, 0x69])) \<Longrightarrow> ?thesis"
    by (simp only: smac_fits_def m) simp
qed (simp_all add: utf8_unit_def)

text \<open>(C2) Round trip of the text compressor: a text of fewer than 1024 bytes, the UTF-8 form of fewer than 1024
  16-bit units, is compressed by whichever of the two models is shorter and decompressed to the same text,
  for any usable statistics and whatever was in the scratch memory, provided the output fitted
  the coder's buffer.\<close>

theorem smac_round_trip:
  fixes us junk junk'
  defines "m \<equiv> concat (map utf8_unit us)"
  assumes stats: "smac_stats_ok h unicode" and arrays: "1024 \<le> length junkp" "1024 \<le> length junkv"
    and len: "length us < 1024" "length m < 1024" and fits: "smac_fits junk h unicode m"
  shows "\<exists>out. stats3_compress junk h unicode m = Some (Inr out) \<and>
    stats3_decompress junk' junkp junkv h unicode out = Some m"
proof -
  note codec = codec_append [OF stats arrays len [unfolded m_def], of junk, folded m_def]
  let ?c0 = "range_new_coder junk (length m * 2)"
  obtain c1 r c2 where c1: "stats3_compress_append junk h unicode m ?c0 = Some (c1, r)" and c2: "range_conclude c1 = (c2, 0)"
    using fits by (auto simp: smac_fits_def split: option.splits) (metis prod.collapse)
  have small: "8 * (length m * 2) < 2 ^ 31" using len(2) by simp
  have r: "r = 0"
    using rc.codecD [OF codec c1 range_new_coder_inv [OF small] range_conclude_room [OF c2]] by simp
  define c3 where "c3 = fst (range_conclude c2)"
  have kept: "buf_kept c2 c3" using buf_kept_conclude [of c2] by (simp add: c3_def)
  have wf: "wf_buf c3" using kept concluded_wf(1) [OF codec small c1] c2 by (simp add: buf_kept_def)
  have out: "stats3_compress junk h unicode m = Some (Inr (stream_bytes c3))"
    by (simp add: stats3_compress_def stats3_compress_bits_def c1 c2 r Let_def c3_def [symmetric] stream_bytes_def bits2bytes_def)
  let ?d0 = "range_new_coder junk' (length (stream_bytes c3) * 2)"
  define d where "d = ?d0\<lparr>bit_stream := stream_bytes c3 @ drop (length (stream_bytes c3)) (bit_stream ?d0),
    bit_stream_length := length (stream_bytes c3) * 8, bits_used := 0, low := 0, high := 0xffffffff\<rparr>"
  have "\<not> norescale d" "bits_used d = 0" by (simp_all add: d_def range_new_coder_def range_coder_reset_def)
  from codec_round_trip_bits [OF codec small c1 c2 kept this]
  have "\<exists>d'. stats3_decompress_bits junkp junkv h unicode (range_decode_prefetch d) = Some (d', m)"
    using decoder_over_stream [OF wf] by (simp add: d_def)
  then show ?thesis using out by (auto simp: stats3_decompress_def d_def)
qed


theorem smac_round_trip_witness:
  "\<exists>out. stats3_compress sample_junk sample_handle sample_unicode [0x48, 0x69] = Some (Inr out) \<and>
     stats3_decompress sample_junk (replicate 1024 0) (replicate 1024 0) sample_handle sample_unicode out = Some [0x48, 0x69]"
proof -
  have m: "concat (map utf8_unit [0x48, 0x69]) = [0x48, 0x69]" by (simp add: utf8_unit_def)
  from smac_round_trip [OF smac_stats_ok_sample, of "replicate 1024 0" "replicate 1024 0" "[0x48, 0x69]" sample_junk sample_junk]
  show ?thesis using smac_fits_sample unfolding m by simp
qed

end
