(* ===== verification/CoderProps.thy ===== *)
theory CoderProps
  imports RangeStream
begin

text \<open>
  Properties of the range coder beyond its round trip: the invariant of the encoder and the interval its
  states stand for, the confinement of all writes to the buffer, the number of bits that end a stream, the
  report of a full buffer, and the clash of two lengths in the length code.
\<close>

section \<open>Encoding a symbol\<close>

text \<open>(C25) The invariant of the encoder: coding a symbol with a non-empty sub-interval in a state with the invariant
  succeeds whenever the result leaves room in the buffer, re-establishes the invariant (registers
  normalised, no error counted, stream inside the buffer), and the bit streams the new state stands for are
  those in the symbol's sub-interval of the old one.\<close>

theorem range_encode_invariant:
  assumes "enc_inv c" "sym_ok p q" "room (fst (range_encode c p q))"
  shows "\<exists>c'. range_encode c p q = (c', 0) \<and> enc_inv c' \<and> (\<forall>X. code_in X c' \<longleftrightarrow> code_in X (narrow c p q))"
  using assms by (rule range_encode_ok)

theorem range_encode_invariant_witness:
  "\<exists>c'. range_encode (range_new_coder (\<lambda>_. 7) 4) 0x200000 0x900000 = (c', 0) \<and> enc_inv c' \<and>
     (\<forall>X. code_in X c' \<longleftrightarrow> code_in X (narrow (range_new_coder (\<lambda>_. 7) 4) 0x200000 0x900000))"
proof (rule range_encode_invariant)
  show "enc_inv (range_new_coder (\<lambda>_. 7) 4)" by (rule range_new_coder_inv) simp
  show "sym_ok 0x200000 0x900000" by (simp add: sym_ok_def)
  show "room (fst (range_encode (range_new_coder (\<lambda>_. 7) 4) 0x200000 0x900000))" by code_simp
qed

text \<open>(C26) Writes stay inside the buffer: whatever frequencies it is given, legal or not, an encoding call on
  a coder with a well-formed buffer leaves the buffer well-formed with the same capacity, moves the write
  position forward only and within the capacity, and changes none of the bits written before.\<close>

theorem range_encode_confined:
  assumes "wf_buf c" "\<not> decodingP c"
  shows "let c' = fst (range_encode c p q)
     in wf_buf c' \<and> bit_stream_length c' = bit_stream_length c \<and>
        bits_used c \<le> bits_used c' \<and> bits_used c' \<le> bit_stream_length c \<and>
        (\<forall>j < bits_used c. stream_bit (bit_stream c') j = stream_bit (bit_stream c) j)"
  using buf_kept_range_encode [OF assms(2), of p q] assms(1) by (auto simp: buf_kept_def wf_buf_def Let_def)

theorem range_encode_confined_witness:
  "let c' = fst (range_encode (range_new_coder (\<lambda>_. 7) 1) 5 6)
   in wf_buf c' \<and> bits_used c' = 8 \<and> bit_stream_length c' = 8 \<and> snd (range_encode (range_new_coder (\<lambda>_. 7) 1) 5 6) = -1"
proof -
  let ?c = "range_new_coder (\<lambda>_. 7) 1"
  have "wf_buf ?c" "\<not> decodingP ?c"
    using range_new_coder_inv [of 1 "\<lambda>_. 7"] by (simp_all add: enc_inv_def enc_core_def)
  from range_encode_confined [OF this, of 5 6]
  have "wf_buf (fst (range_encode ?c 5 6))" by (simp add: Let_def)
  moreover have "bits_used (fst (range_encode ?c 5 6)) = 8" "bit_stream_length (fst (range_encode ?c 5 6)) = 8"
    "snd (range_encode ?c 5 6) = -1" by code_simp+
  ultimately show ?thesis by (simp add: Let_def)
qed

section \<open>Ending the stream\<close>

text \<open>(C27) Ending a stream always works when 32 bits are left after the pending ones, and takes at least one and
  at most 32 bits, so that the search for the shortest ending value never gives up.\<close>

theorem range_conclude_bounded:
  assumes "enc_inv c" "enc_pos c + 32 \<le> bit_stream_length c"
  shows "\<exists>c'. range_conclude c = (c', 0) \<and> enc_pos c < bits_used c' \<and> bits_used c' \<le> enc_pos c + 32"
  using assms by (rule range_conclude_total)

theorem range_conclude_bounded_witness:
  "\<exists>c'. range_conclude (range_new_coder (\<lambda>_. 7) 4) = (c', 0) \<and> 0 < bits_used c' \<and> bits_used c' \<le> 32"
proof -
  let ?c = "range_new_coder (\<lambda>_. 7) 4"
  have "enc_inv ?c" by (rule range_new_coder_inv) simp
  moreover have p: "enc_pos ?c = 0" "bit_stream_length ?c = 32" by code_simp+
  ultimately show ?thesis using range_conclude_bounded [of ?c] by simp
qed

lemma range_emit_list_code: "snd (range_emit_list c bs) \<in> {0, -1}"
  by (induction bs arbitrary: c) (auto simp: Let_def split: prod.split)

lemma range_conclude_code: "snd (range_conclude c) \<in> {0, -1}"
  by (auto simp: range_conclude_def Let_def range_emit_list_code [simplified] split: prod.split option.split
      simp del: push_bit_Suc One_nat_def)

text \<open>A full buffer is reported: when the bits already settled or pending fill the buffer, ending the
  stream returns -1.\<close>

theorem range_conclude_reports_full:
  assumes "\<not> room c"
  shows "snd (range_conclude c) = -1"
proof -
  have "snd (range_conclude c) \<noteq> 0" using assms range_conclude_room [of c "fst (range_conclude c)"]
    by (metis prod.collapse)
  then show ?thesis using range_conclude_code [of c] by simp
qed

theorem range_conclude_reports_full_witness:
  "\<not> room (range_new_coder (\<lambda>_. 7) 0) \<and> snd (range_conclude (range_new_coder (\<lambda>_. 7) 0)) = -1"
proof -
  have "\<not> room (range_new_coder (\<lambda>_. 7) 0)" by code_simp
  then show ?thesis using range_conclude_reports_full by blast
qed

section \<open>The length code\<close>

text \<open>The variable-length code of lengths does not tell 0 and 1 apart: both lengths leave the same coder
  behind, in every state.\<close>

theorem range_encode_length_clash: "range_encode_length c 0 = range_encode_length c 1"
  by (simp add: range_encode_length_def encode_length_prefix.simps [of c 0] encode_length_prefix.simps [of c 1])

end
