(* ===== verification/TextProps.thy ===== *)
theory TextProps
  imports Smac CoderProps
begin

text \<open>
  Properties of the parts of the text compressor, each over the concluded byte stream of the part alone: round
  trips of the interpolative coder, the packed ASCII, special character, letter and case models, of UTF-8 and
  of the escapes; what a loaded statistics file guarantees its users; the texts the compressor refuses.
\<close>

section \<open>Through a finished stream\<close>

text \<open>What an encoder writes into a fresh buffer of any size and any content is read back by the decoder from
  the bytes of the concluded stream, unless concluding the stream reports that the buffer was too small.\<close>

definition transmits ::
    "(range_coder \<Rightarrow> (range_coder \<times> int) option) \<Rightarrow> (range_coder \<Rightarrow> (range_coder \<times> 'a) option) \<Rightarrow> 'a \<Rightarrow>
     (nat \<Rightarrow> u8) \<Rightarrow> nat \<Rightarrow> bool" where
  "transmits enc dec x junk bytes \<longleftrightarrow> (\<exists>c1 r. enc (range_new_coder junk bytes) = Some (c1, r) \<and>
     (snd (range_conclude c1) = 0 \<longrightarrow> (\<forall>d. \<not> norescale d \<longrightarrow>
        (\<exists>d'. dec (range_decode_prefetch (load_stream d (stream_bytes (fst (range_conclude c1))))) = Some (d', x)))))"

lemma codec_transmits:
  assumes "rc.codec enc dec x" "8 * bytes < 2 ^ 31"
  shows "transmits enc dec x junk bytes"
proof -
  obtain c1 r where c1: "enc (range_new_coder junk bytes) = Some (c1, r)"
    using rc.codec_total [OF assms(1)] by blast
  have "\<exists>d'. dec (range_decode_prefetch (load_stream d (stream_bytes (fst (range_conclude c1))))) = Some (d', x)"
    if "snd (range_conclude c1) = 0" "\<not> norescale d" for d
    using codec_round_trip [OF assms c1 _ that(2), of "fst (range_conclude c1)"] that(1) by (metis prod.collapse)
  with c1 show ?thesis unfolding transmits_def by blast
qed

text \<open>The bytes of a stream, and the use of \<^const>\<open>transmits\<close> on one that was concluded successfully.\<close>

definition stream_of :: "(range_coder \<Rightarrow> (range_coder \<times> int) option) \<Rightarrow> nat \<Rightarrow> u8 list option" where
  "stream_of enc bytes = do {
     (c1, _) \<leftarrow> enc (range_new_coder (\<lambda>_. 0xa5) bytes);
     (case range_conclude c1 of (c2, r) \<Rightarrow> if r = 0 then Some (stream_bytes c2) else None) }"

lemma transmits_stream:
  assumes "transmits enc dec x (\<lambda>_. 0xa5) bytes" "stream_of enc bytes \<noteq> None"
  shows "\<exists>bs d'. stream_of enc bytes = Some bs \<and>
     dec (range_decode_prefetch (load_stream (range_new_coder (\<lambda>_. 0) 0) bs)) = Some (d', x)"
proof -
  have "\<not> norescale (range_new_coder (\<lambda>_. 0) 0)" by (simp add: range_new_coder_def range_coder_reset_def)
  with assms show ?thesis
    by (auto simp: transmits_def stream_of_def split: prod.splits if_splits)
qed

section \<open>Interpolative coder\<close>

text \<open>(C31) Round trip of the interpolative coder: a non-empty strictly ascending list of values between 0 and a
  maximum is written without ever leaving the array and read back, the rest of the decoder's array untouched.\<close>

theorem ic_round_trip:
  assumes "ascending_to m xs" "m < 2 ^ 31 - 1" "xs \<noteq> []" "length xs < 2 ^ 31 - 1" "length xs \<le> length ys"
    and "8 * bytes < 2 ^ 31"
  shows "transmits (ic_encode_recursive xs (int (length xs)) m) (ic_decode_recursive ys (int (length xs)) m)
     (xs @ drop (length xs) ys) junk bytes"
  using codec_transmits [OF codec_ic_recursive [OF assms(1-5)] assms(6)] .

theorem ic_round_trip_witness:
  "\<exists>bs d'. stream_of (ic_encode_recursive [3, 7, 8, 20] 4 30) 8 = Some bs \<and>
     ic_decode_recursive [0, 0, 0, 0, 99] 4 30 (range_decode_prefetch (load_stream (range_new_coder (\<lambda>_. 0) 0) bs)) =
       Some (d', [3, 7, 8, 20, 99])"
proof -
  have "transmits (ic_encode_recursive [3, 7, 8, 20] 4 30) (ic_decode_recursive [0, 0, 0, 0, 99] 4 30)
      [3, 7, 8, 20, 99] (\<lambda>_. 0xa5) 8"
    using ic_round_trip [of 30 "[3, 7, 8, 20]" "[0, 0, 0, 0, 99]" 8] by (simp add: ascending_to_def)
  moreover have "stream_of (ic_encode_recursive [3, 7, 8, 20] 4 30) 8 \<noteq> None" by code_simp
  ultimately show ?thesis by (rule transmits_stream)
qed

text \<open>The decoder stays inside its array on every stream, also one that no encoder wrote.\<close>

lemma ic_decode_entry_total:
  assumes "n \<le> int (length xs)" "-1 \<le> lo" "lo < n" "0 \<le> p" "0 \<le> hi"
  shows "\<exists>c' xs'. ic_decode_entry xs n m lo p hi c = Some (c', xs') \<and> length xs' = length xs"
  using assms by (auto simp: ic_decode_entry_def ic_bounds_def array_get_def case_prod_unfold Let_def)

lemma ic_decode_recursive_r_total:
  assumes "n \<le> int (length xs)" "-1 \<le> lo" "0 \<le> hi"
  shows "\<exists>c' xs'. ic_decode_recursive_r xs n m lo (lo + 2 ^ j) hi (2 ^ j) c = Some (c', xs') \<and> length xs' = length xs"
  using assms
proof (induction j arbitrary: xs lo hi c)
  case 0
  show ?case
  proof (cases "lo < n")
    case True
    with 0 obtain c1 xs1 where "ic_decode_entry xs n m lo (lo + 1) hi c = Some (c1, xs1)" "length xs1 = length xs"
      using ic_decode_entry_total [of n xs lo "lo + 1" hi m c] by auto
    then show ?thesis by (simp add: ic_decode_recursive_r_eq [OF True])
  qed (simp add: ic_decode_recursive_r.simps)
next
  case (Suc j)
  let ?p = "lo + 2 ^ Suc j"
  have gt: "(1 :: int) < 2 ^ Suc j" by (rule power_gt1) simp
  then have p: "0 \<le> ?p" "-1 \<le> ?p" using Suc.prems(2) by linarith+
  show ?case
  proof (cases "lo < n")
    case True
    obtain c1 xs1 where e: "ic_decode_entry xs n m lo ?p hi c = Some (c1, xs1)" "length xs1 = length xs"
      using ic_decode_entry_total [OF Suc.prems(1,2) True p(1) Suc.prems(3)] by blast
    obtain c2 xs2 where l: "ic_decode_recursive_r xs1 n m lo (lo + 2 ^ j) ?p (2 ^ j) c1 = Some (c2, xs2)" "length xs2 = length xs"
      using Suc.IH [of xs1 lo ?p c1] Suc.prems e(2) p by auto
    obtain c3 xs3 where r: "ic_decode_recursive_r xs2 n m ?p (?p + 2 ^ j) hi (2 ^ j) c2 = Some (c3, xs3)" "length xs3 = length xs"
      using Suc.IH [of xs2 ?p hi c2] Suc.prems l(2) p by auto
    have half: "?p - 2 ^ j = lo + 2 ^ j" by simp
    show ?thesis
      using r(2) by (simp only: ic_decode_recursive_r_eq [OF True, where p = ?p and hi = hi and step = "2 ^ Suc j"]
          half half_power gt if_True e(1) l(1) r(1) Option.bind.simps prod.case) simp
  qed (simp add: ic_decode_recursive_r.simps)
qed

lemma ic_decode_total:
  assumes "0 < n" "n < 2 ^ 31 - 1" "n \<le> int (length xs)"
  shows "\<exists>c' xs'. ic_decode_recursive xs n m c = Some (c', xs') \<and> length xs' = length xs"
proof -
  obtain k where k: "biggest_power_of_2 (n + 1) = 2 ^ k"
    using biggest_power_of_2 [of "n + 1"] assms(1,2) by fastforce
  show ?thesis
    using ic_decode_recursive_r_total [OF assms(3), of "-1" "n + 1" m k c] assms(1)
    by (simp add: ic_decode_recursive_def k Let_def)
qed



text \<open>For no entries at all the coder starts its descent at position -1 and reads in front of the array: both
  directions are undefined.\<close>

theorem ic_empty_undefined: "ic_encode_recursive xs 0 m c = None \<and> ic_decode_recursive xs 0 m c = None"
  by (simp add: ic_encode_recursive_def ic_decode_recursive_def biggest_power_of_2_def numeral_eq_Suc
      ic_encode_recursive_r.simps ic_decode_recursive_r.simps array_get_def)

section \<open>Packed ASCII\<close>

text \<open>The packed ASCII model accepts exactly the texts of printable characters: those it writes and reads back,
  of any other it reports a failure.\<close>

theorem packed_ascii_round_trip:
  assumes "8 * bytes < 2 ^ 31"
  shows "if packable m then transmits (\<lambda>c. Some (encodePackedASCII m c)) (decodePackedASCII (length m)) m junk bytes
     else snd (encodePackedASCII m c) = -1"
  using codec_transmits [OF codec_packed_ascii assms] encodePackedASCII_rejects by simp

theorem packed_ascii_round_trip_witness:
  "(\<exists>bs d'. stream_of (\<lambda>c. Some (encodePackedASCII [0x48, 0x69, 0x21] c)) 8 = Some bs \<and>
     decodePackedASCII 3 (range_decode_prefetch (load_stream (range_new_coder (\<lambda>_. 0) 0) bs)) = Some (d', [0x48, 0x69, 0x21])) \<and>
   snd (encodePackedASCII [0x48, 0xc3] (range_new_coder (\<lambda>_. 0) 8)) = -1"
proof
  have "packable [0x48, 0x69, 0x21]" by code_simp
  with packed_ascii_round_trip [of 8 "[0x48, 0x69, 0x21]"]
  have "transmits (\<lambda>c. Some (encodePackedASCII [0x48, 0x69, 0x21] c)) (decodePackedASCII 3) [0x48, 0x69, 0x21] (\<lambda>_. 0xa5) 8"
    by (simp add: numeral_3_eq_3 del: encodePackedASCII.simps decodePackedASCII.simps)
  moreover have "stream_of (\<lambda>c. Some (encodePackedASCII [0x48, 0x69, 0x21] c)) 8 \<noteq> None"
    unfolding stream_of_def by code_simp
  ultimately show "\<exists>bs d'. stream_of (\<lambda>c. Some (encodePackedASCII [0x48, 0x69, 0x21] c)) 8 = Some bs \<and>
     decodePackedASCII 3 (range_decode_prefetch (load_stream (range_new_coder (\<lambda>_. 0) 0) bs)) = Some (d', [0x48, 0x69, 0x21])"
    by (rule transmits_stream)
  have "\<not> packable [0x48, 0xc3]" by code_simp
  then show "snd (encodePackedASCII [0x48, 0xc3] (range_new_coder (\<lambda>_. 0) 8)) = -1"
    using packed_ascii_round_trip [of 8 "[0x48, 0xc3]" _ "range_new_coder (\<lambda>_. 0) 8"]
    by (simp del: encodePackedASCII.simps)
qed

section \<open>Special characters\<close>

text \<open>(C30) Round trip of the special characters: their positions and values are written and read back into the
  decoder's arrays, and merging what was read with the stripped text restores the text.\<close>

theorem special_characters_round_trip:
  assumes "length m \<le> 1024" "1024 \<le> length positions" "1024 \<le> length vals" "8 * bytes < 2 ^ 31"
  shows "\<exists>P V n. transmits (encodeNonAlpha m) (decodeNonAlpha positions vals (int (length m))) (P, V, n) junk bytes \<and>
     reintegrate 0 (length m) (take (nat n) (zip P V)) (stripNonAlpha m) = Some m"
proof -
  let ?h = "nonAlpha_scan m 0"
  obtain P V n where r: "nonAlpha_result positions vals m = (P, V, n)" by (metis prod_cases3)
  have "take (nat n) (zip P V) = ?h"
    using r length_nonAlpha_scan [of m 0] assms(1-3)
    by (auto simp: nonAlpha_result_def Let_def take_zip zip_map_fst_snd)
  then show ?thesis
    using codec_transmits [OF codec_nonAlpha [OF assms(1-3)] assms(4)] reintegrate_scan [of 0 m] unfolding r by metis
qed

theorem special_characters_round_trip_witness:
  "\<exists>P V n bs d'. stream_of (encodeNonAlpha [0x61, 0x01, 0x62]) 12 = Some bs \<and>
     decodeNonAlpha (replicate 1024 0) (replicate 1024 0) 3 (range_decode_prefetch (load_stream (range_new_coder (\<lambda>_. 0) 0) bs)) =
       Some (d', P, V, n) \<and>
     reintegrate 0 3 (take (nat n) (zip P V)) (stripNonAlpha [0x61, 0x01, 0x62]) = Some [0x61, 0x01, 0x62]"
proof -
  let ?m = "[0x61, 0x01, 0x62] :: u16 list" and ?P = "replicate 1024 0 :: int list" and ?V = "replicate 1024 0 :: u8 list"
  obtain P V n where "transmits (encodeNonAlpha ?m) (decodeNonAlpha ?P ?V 3) (P, V, n) (\<lambda>_. 0xa5) 12"
    and merge: "reintegrate 0 3 (take (nat n) (zip P V)) (stripNonAlpha ?m) = Some ?m"
    using special_characters_round_trip [of ?m ?P ?V 12 "\<lambda>_. 0xa5"] by (auto simp: numeral_3_eq_3)
  note transmits_stream [OF this(1)]
  moreover have "stream_of (encodeNonAlpha ?m) 12 \<noteq> None" by code_simp
  ultimately show ?thesis using merge by blast
qed

section \<open>Letters and case\<close>

text \<open>(C28) Round trip of the letter model: with statistics that have a vector for every context, a folded text over
  the alphabet, digits and characters of other code pages included, is written and read back.\<close>

theorem letters_round_trip:
  assumes "vectors_ok h" "unicode_ok unicode" "\<forall>x \<in> set s. codable x" "8 * bytes < 2 ^ 31"
  shows "transmits (encodeLCAlphaSpace h unicode s) (decodeLCAlphaSpace h unicode (length s)) s junk bytes"
  by (rule codec_transmits [OF codec_LCAlphaSpace [OF assms(1-3)] assms(4)])

theorem letters_round_trip_witness:
  "\<exists>bs d'. stream_of (encodeLCAlphaSpace sample_handle sample_unicode [0x61, 0x37, 0xe9]) 16 = Some bs \<and>
     decodeLCAlphaSpace sample_handle sample_unicode 3
       (range_decode_prefetch (load_stream (range_new_coder (\<lambda>_. 0) 0) bs)) = Some (d', [0x61, 0x37, 0xe9])"
proof -
  have "vectors_ok sample_handle" "unicode_ok sample_unicode" using smac_stats_ok_sample by (simp_all add: smac_stats_ok_def)
  moreover have "\<forall>x \<in> set [0x61, 0x37, 0xe9]. codable x" by code_simp
  ultimately have "transmits (encodeLCAlphaSpace sample_handle sample_unicode [0x61, 0x37, 0xe9])
      (decodeLCAlphaSpace sample_handle sample_unicode 3) [0x61, 0x37, 0xe9] (\<lambda>_. 0xa5) 16"
    using letters_round_trip [of sample_handle sample_unicode "[0x61, 0x37, 0xe9]" 16] by (simp add: numeral_3_eq_3)
  moreover have "stream_of (encodeLCAlphaSpace sample_handle sample_unicode [0x61, 0x37, 0xe9]) 16 \<noteq> None" by code_simp
  ultimately show ?thesis by (rule transmits_stream)
qed

lemma codec_case_model:
  assumes "case_stats_ok h"
  shows "rc.codec (encodeCaseModel1 h line) (decodeCaseModel1 h (stripCase line)) line"
proof -
  have "case_state_ok case_start" by (simp add: case_state_ok_def case_start_def)
  from codec_case [OF assms this, of 0 line] show ?thesis
    by (simp add: encodeCaseModel1_def [abs_def] decodeCaseModel1_def [abs_def] stripCase_eq)
qed

text \<open>(C29) Round trip of the case model: the case of a text is written apart and put back onto the folded text.\<close>

theorem case_round_trip:
  assumes "case_stats_ok h" "8 * bytes < 2 ^ 31"
  shows "transmits (encodeCaseModel1 h line) (decodeCaseModel1 h (stripCase line)) line junk bytes"
  by (rule codec_transmits [OF codec_case_model [OF assms(1)] assms(2)])

theorem case_round_trip_witness:
  "\<exists>bs d'. stream_of (encodeCaseModel1 sample_handle [0x49, 0x20, 0x61, 0x4d]) 8 = Some bs \<and>
     decodeCaseModel1 sample_handle [0x69, 0x20, 0x61, 0x6d]
       (range_decode_prefetch (load_stream (range_new_coder (\<lambda>_. 0) 0) bs)) = Some (d', [0x49, 0x20, 0x61, 0x4d])"
proof -
  have strip: "stripCase [0x49, 0x20, 0x61, 0x4d] = [0x69, 0x20, 0x61, 0x6d]" by code_simp
  have "case_stats_ok sample_handle" using smac_stats_ok_sample by (simp add: smac_stats_ok_def)
  from case_round_trip [OF this, of 8 "[0x49, 0x20, 0x61, 0x4d]" "\<lambda>_. 0xa5", unfolded strip]
  have "transmits (encodeCaseModel1 sample_handle [0x49, 0x20, 0x61, 0x4d])
      (decodeCaseModel1 sample_handle [0x69, 0x20, 0x61, 0x6d]) [0x49, 0x20, 0x61, 0x4d] (\<lambda>_. 0xa5) 8" by simp
  moreover have "stream_of (encodeCaseModel1 sample_handle [0x49, 0x20, 0x61, 0x4d]) 8 \<noteq> None" by code_simp
  ultimately show ?thesis by (rule transmits_stream)
qed

text \<open>The treatment of the isolated letter i undoes itself and only ever changes case, so that the
  decompressor may apply the same routine as the compressor.\<close>

theorem mungeCase_involution: "mungeCase (mungeCase m) = m \<and> stripCase (mungeCase m) = stripCase m"
  by (simp add: mungeCase_twice stripCase_eq fold_case_munged)

section \<open>Unicode and escapes\<close>

text \<open>(C33) Conversion between 16-bit units and UTF-8: the units whose encoding fits 1024 bytes are converted and
  converted back, longer ones are refused.\<close>

theorem utf8_round_trip:
  "if length (concat (map utf8_unit us)) \<le> 1024
   then \<exists>bs. utf16toutf8 us [] = (0, bs) \<and> utf8toutf16 bs [] = Some (0, us)
   else fst (utf16toutf8 us []) = -1"
  using utf16toutf8_fits [of "[]" us] utf16toutf8_rejects [of "[]" us] utf8toutf16_units [of us "[]" "[]"] by simp

text \<open>Escaping as the recipes need it: backslash, carriage return and line feed.\<close>

definition escape :: "u8 \<Rightarrow> u8 list" where
  "escape x = (if x = 0x5c then [0x5c, 0x5c] else if x = 0x0d then [0x5c, 0x72] else if x = 0x0a then [0x5c, 0x6e] else [x])"

text \<open>Removing escapes inverts escaping on every text, while an escaped quote comes out as two.\<close>

theorem unEscape_inverse: "unEscape (concat (map escape m)) = m \<and> unEscape [0x5c, 0x27] = [0x27, 0x27]"
  by (induction m) (auto simp: escape_def)

end
