(* ===== verification/StatsProps.thy ===== *)
theory StatsProps
  imports TextProps
begin

text \<open>
  What the statistics file guarantees its users: the checks of its header make the case model usable, and loading
  its tree of letter counts gives nodes with an entry for every letter, whatever the bytes of the file.
  Also the texts the compressor refuses.
\<close>

section \<open>The statistics file\<close>

lemma length_read24s [simp]: "length (fst (read24s n ptr)) = n"
  by (induction n arbitrary: ptr) (auto simp: case_prod_unfold Let_def)

lemma load_lengths_total: "\<exists>l. load_lengths tally ptr = Some l \<and> length l = 1024"
  using ic_decode_total [of 1024 "replicate 1024 0" "uint tally" "file_coder (take 4096 ptr) 4096"]
  by (auto simp: load_lengths_def)

lemma checked_prob_ok: "checked_24 x \<Longrightarrow> prob_ok x"
  by (auto simp: checked_24_def prob_ok_def word_less_nat_alt unat_gt_0)

lemma case_table_entry:
  assumes "list_all checked_24 posn2" "length posn2 = 158" "a < 2" "1 \<le> p" "p < 80"
  shows "prob_ok ((0 # map (\<lambda>i. posn2 ! (2 * i + a)) [0..<79]) ! p)"
proof -
  obtain i where i: "p = Suc i" "i < 79" using assms(4,5) by (cases p) auto
  then have "2 * i + a < 158" using assms(3) by linarith
  with assms(1,2) have "checked_24 (posn2 ! (2 * i + a))" by (auto simp: list_all_length)
  with i show ?thesis by (simp add: checked_prob_ok)
qed

lemma case_stats_ok_checked:
  assumes "casestartofword3 h = [take 2 sow3, drop 2 sow3]"
    "caseposn2 h = map (\<lambda>j. 0 # map (\<lambda>i. posn2 ! (2 * i + j)) [0..<79]) [0, 1]"
    "checked_24 (casestartofmessage h)" "list_all checked_24 (casestartofword2 h)" "length (casestartofword2 h) = 2"
    "list_all checked_24 sow3" "length sow3 = 4" "checked_24 (hd (caseposn1 h))" "length (caseposn1 h) = 80"
    "list_all checked_24 posn2" "length posn2 = 158"
  shows "case_stats_ok h"
proof -
  have two: "a = 0 \<or> a = 1" if "a < 2" for a :: nat using that by auto
  have "prob_ok (casestartofword3 h ! a ! b)" if "a < 2" "b < 2" for a b
    using two [OF that(1)] two [OF that(2)] assms(1,6,7) by (auto simp: list_all_length intro!: checked_prob_ok)
  moreover have "caseposn1 h ! 0 = hd (caseposn1 h)" using assms(9) by (cases "caseposn1 h") auto
  moreover have "prob_ok (caseposn2 h ! a ! p)" if "a < 2" "1 \<le> p \<and> p < 80" for a p
    using two [OF that(1)] case_table_entry [OF assms(10,11) that(1), of p] that(2) unfolding assms(2) by auto
  ultimately show ?thesis
    using assms(3-5,8) unfolding case_stats_ok_def by (simp add: list_all_length checked_prob_ok)
qed

lemma length_read24sD: "read24s n ptr = (xs, p) \<Longrightarrow> length xs = n"
  using length_read24s [of n ptr] by simp

lemma load_headers_ok:
  assumes "load_headers bs = Some h"
  shows "case_stats_ok h" "length (messagelengths h) = 1024" "file_bytes h = bs" "tree h = None"
proof -
  have len: "length l = 1024" if "load_lengths t p = Some l" for t p l using load_lengths_total [of t p] that by auto
  show "length (messagelengths h) = 1024" "file_bytes h = bs" "tree h = None"
    using assms unfolding load_headers_def Let_def case_prod_unfold
    by (auto split: if_splits Option.bind_splits dest!: len)
  show "case_stats_ok h"
    using assms unfolding load_headers_def Let_def
    by (auto split: if_splits Option.bind_splits prod.splits dest!: length_read24sD intro!: case_stats_ok_checked)
qed

text \<open>(C35) What loading a statistics file guarantees: if the checks of the header pass, every probability the case model
  will use lies strictly between 0 and 1, so its symbols can be coded, and there are 1024 length frequencies.\<close>

theorem stats_file_usable:
  assumes "stats_mapped_file bs = Some h"
  shows "case_stats_ok h \<and> length (messagelengths h) = 1024 \<and> file_bytes h = bs \<and> tree h = None"
  using load_headers_ok [OF assms [unfolded stats_mapped_file_def]] by blast

lemma read_bytes_ones:
  "4 \<le> k \<Longrightarrow> read_bytes 4 0 (replicate k 1) = (0x01010101, replicate (k - 4) 1)"
  "3 \<le> k \<Longrightarrow> read24bits (replicate k 1) = (0x010101, replicate (k - 3) 1)"
  "1 \<le> k \<Longrightarrow> read_bytes 1 0 (replicate k 1) = (1, replicate (k - 1) 1)"
  by (auto simp: read24bits_def numeral_eq_Suc Suc_le_eq gr0_conv_Suc Suc_le_length_iff not_less_eq_eq
      dest!: le_Suc_ex)

lemma read24s_ones: "3 * n \<le> k \<Longrightarrow> read24s n (replicate k 1) = (replicate n 0x010101, replicate (k - 3 * n) 1)"
  by (induction n arbitrary: k) (auto simp: read_bytes_ones)

theorem stats_file_usable_witness:
  "\<exists>h. stats_mapped_file (replicate 4857 1) = Some h \<and> case_stats_ok h \<and> length (messagelengths h) = 1024"
proof -
  have "\<exists>h. stats_mapped_file (replicate 4857 1) = Some h"
    using load_lengths_total [of "0x010101" "replicate 4102 1"]
    by (auto simp: stats_mapped_file_def load_headers_def Let_def read_bytes_ones read24s_ones checked_24_def list_all_iff)
  then obtain h where h: "stats_mapped_file (replicate 4857 1) = Some h" ..
  then show ?thesis using stats_file_usable [OF h] by blast
qed

section \<open>The tree of letter counts\<close>

text \<open>Trees of at most \<open>d\<close> levels in which every node has the counts and the children of the whole alphabet.\<close>

inductive shaped :: "nat \<Rightarrow> node \<Rightarrow> bool" where
  "length counts = 65 \<Longrightarrow> length kids = 65 \<Longrightarrow> (\<And>k. Some k \<in> set kids \<Longrightarrow> shaped d k) \<Longrightarrow>
     shaped (Suc d) (Node t counts kids)"

inductive_cases shapedE: "shaped d n"

lemma length_extract_counts [simp]: "length (fst (snd (extract_counts n i ch tot p c))) = n"
  by (induction n arbitrary: i ch p c) (auto simp: Let_def case_prod_unfold)

lemma extractNodeAt_all_eq:
  assumes "extractNodeAt s len a count h True = Some n"
  obtains t counts kids where "n = Node t counts kids" "length counts = 65" "length kids = 65" "- uint (maximumOrder h) \<le> len"
    "\<And>k. Some k \<in> set kids \<Longrightarrow> \<exists>a' count'. extractNodeAt s (len - 1) a' count' h True = Some k"
proof -
  note eq = assms [unfolded extractNodeAt.simps [of s len a count h True] Let_def case_prod_unfold simp_thms if_True]
  have len: "- uint (maximumOrder h) \<le> len" and "\<not> a < 700" using eq by (auto split: if_split_asm)
  moreover from this obtain bs where "getCompressedBytes h (sint a) 1024 = Some bs" using eq by fastforce
  ultimately have "\<exists>t counts P addr. n = Node t counts (map (\<lambda>i. case addr i of None \<Rightarrow> None
      | Some a \<Rightarrow> extractNodeAt s (len - 1) a P h True) [0..<65]) \<and> length counts = 65"
    using eq by (intro exI conjI) (simp only: option.case not_less [symmetric] if_False option.inject, erule sym, simp)
  then obtain t counts P addr where n: "length counts = 65"
    "n = Node t counts (map (\<lambda>i. case addr i of None \<Rightarrow> None | Some a \<Rightarrow> extractNodeAt s (len - 1) a P h True) [0..<65])"
    by blast
  show thesis by (rule that [OF n(2,1)]) (use len in \<open>force split: option.split_asm dest!: sym [of "Some _"]\<close>)+
qed

lemma extractNodeAt_shaped:
  assumes "extractNodeAt s len a count h True = Some n"
  shows "shaped (Suc (nat (len + uint (maximumOrder h)))) n"
  using assms
proof (induction "nat (len + uint (maximumOrder h))" arbitrary: len a count n)
  case 0
  obtain t counts kids where n: "n = Node t counts kids" "length counts = 65" "length kids = 65" "- uint (maximumOrder h) \<le> len"
    and kids: "\<And>k. Some k \<in> set kids \<Longrightarrow> \<exists>a' count'. extractNodeAt s (len - 1) a' count' h True = Some k"
    using extractNodeAt_all_eq [OF 0(2)] by metis
  have "len - 1 < - uint (maximumOrder h)" using 0(1) n(4) by linarith
  then have "Some k \<notin> set kids" for k using kids [of k] by (auto simp: extractNodeAt.simps)
  with n show ?case by (auto intro!: shaped.intros)
next
  case (Suc j)
  obtain t counts kids where n: "n = Node t counts kids" "length counts = 65" "length kids = 65" "- uint (maximumOrder h) \<le> len"
    and kids: "\<And>k. Some k \<in> set kids \<Longrightarrow> \<exists>a' count'. extractNodeAt s (len - 1) a' count' h True = Some k"
    using extractNodeAt_all_eq [OF Suc.prems] by metis
  have j: "j = nat (len - 1 + uint (maximumOrder h))" using Suc.hyps(2) by linarith
  have "shaped (Suc j) k" if "Some k \<in> set kids" for k
    using kids [OF that] Suc.hyps(1) [OF j] j by auto
  with n Suc.hyps(2) show ?case by (metis shaped.intros)
qed



section \<open>Texts the compressor refuses\<close>

lemma utf8toutf16_ascii:
  "\<forall>b \<in> set m. b < 0x80 \<Longrightarrow> utf8toutf16 m out = Some (0, out @ map ucast m)"
proof (induction m arbitrary: out)
  case (Cons b m)
  have "unat b div 64 * 64 < 128" using Cons.prems by (auto simp: word_less_nat_alt)
  then have "b AND 0xc0 < 0x80" by (simp add: word_less_nat_alt unat_and_c0)
  with Cons show ?case by auto
qed simp

lemma packable_ascii: "packable m \<Longrightarrow> \<forall>b \<in> set m. b < 0x80"
proof
  fix b assume "packable m" "b \<in> set m"
  then have "0 \<le> printableCharIdx b" by (simp add: packable_def)
  then have "ucast b \<in> set printableChars"
    using table_index_miss [of 0 "ucast b" printableChars] by (auto simp: printableCharIdx_def)
  moreover have "\<forall>x \<in> set printableChars. x < 0x80" by code_simp
  ultimately have "(ucast b :: u16) < 0x80" by blast
  then show "b < 0x80" by (simp add: word_less_nat_alt unat_byte_of)
qed

lemma length_utf8toutf16: "utf8toutf16 m out = Some (r, us) \<Longrightarrow> length us \<le> length out + length m"
  by (induction m out rule: utf8toutf16.induct) (force split: if_splits list.splits)+

text \<open>A text that is not UTF-8 is refused: when the conversion of a text of fewer than 1024 bytes reports an error,
  the compressor returns -1 and no output, whatever its statistics make of the attempts.\<close>

theorem compress_refuses_invalid:
  assumes stats: "smac_stats_ok h unicode" and len: "length m < 1024" and bad: "utf8toutf16 m [] = Some (r, us)" "r \<noteq> 0"
  shows "stats3_compress junk h unicode m = Some (Inl (-1))"
proof -
  let ?c0 = "range_new_coder junk 1024"
  have np: "\<not> packable m"
    using packable_ascii [of m] utf8toutf16_ascii [of m "[]"] bad by auto
  have us: "length us \<le> 1024" using length_utf8toutf16 [OF bad(1)] len by simp
  then have model1: "stats3_compress_model1_append h unicode m c = Some (c, -1)" for c
    using bad by (simp add: stats3_compress_model1_append_def)
  have inv: "enc_inv ?c0" by (rule range_new_coder_inv) simp
  have pos: "enc_pos ?c0 = 0" "bit_stream_length ?c0 = 8192"
    by (simp_all add: enc_pos_def range_new_coder_def range_coder_reset_def)
  have b1: "bits_used (fst (range_conclude ?c0)) \<le> 32"
    using range_conclude_total [OF inv] pos by auto
  have "table_ok (messagelengths h) 1024 (int (length m))" using stats len by (simp add: smac_stats_ok_def)
  then obtain p where "encode_preamble h 0 (length m) ?c0 = Some p" using encode_preamble_total [of 0 h] by blast
  then obtain t2 r2 where "stats3_compress_radix_append h m ?c0 = Some (t2, r2)" "r2 \<noteq> 0"
    using encodePackedASCII_rejects [OF np, of "fst p"]
    by (cases "encodePackedASCII m (fst p)") (auto simp: stats3_compress_radix_append_def case_prod_unfold)
  then have "stats3_compress_append junk h unicode m c = Some (c, -1)" for c
    using b1 by (simp add: stats3_compress_append_def model1 Let_def)
  then show ?thesis by (simp add: stats3_compress_def stats3_compress_bits_def)
qed

theorem compress_refuses_invalid_witness:
  "stats3_compress sample_junk sample_handle sample_unicode [0x48, 0x80] = Some (Inl (-1))"
proof (rule compress_refuses_invalid [OF smac_stats_ok_sample])
  show "utf8toutf16 [0x48, 0x80] [] = Some (-1, [0x48])" by code_simp
qed simp_all
end
