(* ===== verification/CString.thy ===== *)
theory CString
  imports Prelude
begin

text \<open>
  The functions of the C library on strings that the form code calls. A C string is the list of its
  characters before the terminating NUL. Comparison without case is that of the C locale. The conversions of
  \<^verbatim>\<open>sscanf\<close> are functions from the input to the converted value and the rest of the input, \<open>None\<close> for a
  matching failure; numbers are converted with 64 bits and saturation and then stored in 32 bits, as the C
  library of the target platform does.
\<close>

section \<open>Strings\<close>

definition c_str :: "string \<Rightarrow> string" where
  "c_str s = takeWhile (\<lambda>c. c \<noteq> CHR 0x00) s"

definition lower :: "char \<Rightarrow> char" where
  "lower c = (let n = of_char c :: nat in if 65 \<le> n \<and> n \<le> 90 then char_of (n + 32) else c)"

text \<open>Whether the comparison functions return 0.\<close>

definition strcasecmp_0 :: "string \<Rightarrow> string \<Rightarrow> bool" where
  "strcasecmp_0 a b \<longleftrightarrow> map lower a = map lower b"

definition strncasecmp_0 :: "string \<Rightarrow> string \<Rightarrow> nat \<Rightarrow> bool" where
  "strncasecmp_0 a b n \<longleftrightarrow> map lower (take n a) = map lower (take n b)"

definition bytes_of :: "string \<Rightarrow> u8 list" where
  "bytes_of s = map of_char s"

section \<open>Numbers\<close>

definition is_space :: "char \<Rightarrow> bool" where
  "is_space c \<longleftrightarrow> (let n = of_char c :: nat in n = 32 \<or> 9 \<le> n \<and> n \<le> 13)"

definition is_digit :: "char \<Rightarrow> bool" where
  "is_digit c \<longleftrightarrow> (let n = of_char c :: nat in 48 \<le> n \<and> n \<le> 57)"

definition digit_value :: "char \<Rightarrow> int" where
  "digit_value c = of_char c - 48"

definition digits_value :: "string \<Rightarrow> int" where
  "digits_value s = foldl (\<lambda>v c. 10 * v + digit_value c) 0 s"

definition saturate64 :: "int \<Rightarrow> int" where
  "saturate64 v = max (- (2 ^ 63)) (min (2 ^ 63 - 1) v)"

text \<open>Conversion to \<^verbatim>\<open>int\<close>.\<close>

definition to_int32 :: "int \<Rightarrow> int" where
  "to_int32 v = (v + 2 ^ 31) mod 2 ^ 32 - 2 ^ 31"

text \<open>A number with optional white space and sign in front.\<close>

definition scan_number :: "string \<Rightarrow> (int \<times> string) option" where
  "scan_number s =
     (let s1 = dropWhile is_space s;
          neg = (s1 \<noteq> [] \<and> hd s1 = CHR ''-'');
          s2 = (if s1 \<noteq> [] \<and> (hd s1 = CHR ''-'' \<or> hd s1 = CHR ''+'') then tl s1 else s1);
          ds = takeWhile is_digit s2
      in if ds = [] then None
         else Some (saturate64 (if neg then - digits_value ds else digits_value ds), drop (length ds) s2))"

definition atoi :: "string \<Rightarrow> int" where
  "atoi s = (case scan_number s of None \<Rightarrow> 0 | Some (v, _) \<Rightarrow> to_int32 v)"

definition strtoll :: "string \<Rightarrow> int" where
  "strtoll s = (case scan_number s of None \<Rightarrow> 0 | Some (v, _) \<Rightarrow> v)"

section \<open>Conversions of \<open>sscanf\<close>\<close>

text \<open>\<^verbatim>\<open>%d\<close>, \<^verbatim>\<open>%[^x]\<close> and a literal character.\<close>

definition scan_d :: "string \<Rightarrow> (int \<times> string) option" where
  "scan_d s = map_option (\<lambda>(v, r). (to_int32 v, r)) (scan_number s)"

definition scan_not :: "char \<Rightarrow> string \<Rightarrow> (string \<times> string) option" where
  "scan_not x s =
     (let a = takeWhile (\<lambda>c. c \<noteq> x) s in if a = [] then None else Some (a, drop (length a) s))"

definition scan_lit :: "char \<Rightarrow> string \<Rightarrow> string option" where
  "scan_lit x s = (case s of [] \<Rightarrow> None | c # r \<Rightarrow> if c = x then Some r else None)"

text \<open>The numbers that a format of \<^verbatim>\<open>%d\<close> conversions reads, as many as match, given what stands between them: nothing, a
  literal character, or a blank, which matches any amount of white space, also none.\<close>

fun scan_sep :: "char option \<Rightarrow> string \<Rightarrow> string option" where
  "scan_sep None s = Some s"
| "scan_sep (Some x) s = (if x = CHR '' '' then Some (dropWhile is_space s) else scan_lit x s)"

fun scan_ints :: "char option list \<Rightarrow> string \<Rightarrow> int list" where
  "scan_ints [] s = (case scan_d s of None \<Rightarrow> [] | Some (v, r) \<Rightarrow> [v])"
| "scan_ints (x # seps) s =
     (case scan_d s of
        None \<Rightarrow> []
      | Some (v, r) \<Rightarrow> v # (case scan_sep x r of None \<Rightarrow> [] | Some r' \<Rightarrow> scan_ints seps r'))"

section \<open>Facts\<close>

lemma lower_idem [simp]: "lower (lower c) = lower c"
proof -
  have "(of_char (char_of (n + 32) :: char) :: nat) = n + 32" if "65 \<le> n" "n \<le> 90" for n :: nat
    using that by (simp add: of_char_of)
  then show ?thesis by (auto simp: lower_def Let_def)
qed

lemma strcasecmp_0_refl [simp]: "strcasecmp_0 s s"
  by (simp add: strcasecmp_0_def)

lemma to_int32_id: "- (2 ^ 31) \<le> v \<Longrightarrow> v < 2 ^ 31 \<Longrightarrow> to_int32 v = v"
  by (simp add: to_int32_def)

lemma to_int32_bounds: "- (2 ^ 31) \<le> to_int32 v \<and> to_int32 v < 2 ^ 31"
proof -
  have "0 \<le> (v + 2 ^ 31) mod 2 ^ 32" "(v + 2 ^ 31) mod 2 ^ 32 < 2 ^ 32" by (simp_all only: pos_mod_sign pos_mod_bound zero_less_power zero_less_numeral)
  then show ?thesis by (simp add: to_int32_def)
qed

lemma scan_not_Some:
  assumes "x \<notin> set a" "a \<noteq> []"
  shows "scan_not x (a @ x # r) = Some (a, x # r)" "scan_not x a = Some (a, [])"
proof -
  have t: "takeWhile (\<lambda>c. c \<noteq> x) (a @ x # r) = a" "takeWhile (\<lambda>c. c \<noteq> x) a = a"
    using assms(1) by (auto simp: takeWhile_append takeWhile_eq_all_conv)
  show "scan_not x (a @ x # r) = Some (a, x # r)" "scan_not x a = Some (a, [])"
    using assms(2) by (simp_all only: scan_not_def Let_def t) simp_all
qed

lemma scan_lit_Cons [simp]: "scan_lit x (x # r) = Some r"
  by (simp add: scan_lit_def)

lemma c_str_id: "CHR 0x00 \<notin> set s \<Longrightarrow> c_str s = s"
  by (auto simp: c_str_def takeWhile_eq_all_conv)

end
