(* ===== verification/BlockHash.thy ===== *)
theory BlockHash
  imports Prelude
begin

text \<open>
  What the two hash functions of the program have in common: they absorb their input in blocks of fixed size,
  keeping the bytes of an unfinished block in a buffer, and finish with a padded last block. The locale
  \<open>stream_hash\<close> is the contract of such an interface and shows that only the concatenation of
  the pieces matters.
\<close>

section \<open>Absorbing blocks\<close>

function absorb :: "nat \<Rightarrow> ('h \<Rightarrow> 'b list \<Rightarrow> 'h) \<Rightarrow> 'h \<Rightarrow> 'b list \<Rightarrow> 'h \<times> 'b list" where
  "absorb B step h m = (if B = 0 \<or> length m < B then (h, m) else absorb B step (step h (take B m)) (drop B m))"
  by pat_completeness auto
termination
  by (relation "measure (\<lambda>(B, step, h, m). length m)") auto

declare absorb.simps [simp del]

lemma absorb_short: "length m < B \<Longrightarrow> absorb B step h m = (h, m)"
  by (simp add: absorb.simps)

lemma absorb_block: "0 < B \<Longrightarrow> length b = B \<Longrightarrow> absorb B step h (b @ m) = absorb B step (step h b) m"
  by (subst absorb.simps) simp

lemma absorb_rest:
  assumes "0 < B"
  shows "length (snd (absorb B step h m)) = length m mod B"
proof (induction B step h m rule: absorb.induct)
  case (1 B step h m)
  show ?case
  proof (cases "B = 0 \<or> length m < B")
    case True
    then show ?thesis by (subst absorb.simps) auto
  next
    case False
    with 1 show ?thesis by (subst absorb.simps) (simp add: le_mod_geq)
  qed
qed

lemma absorb_append:
  "absorb B step h (m @ x) = (case absorb B step h m of (h1, r) \<Rightarrow> absorb B step h1 (r @ x))"
proof (induction B step h m rule: absorb.induct)
  case (1 B step h m)
  show ?case
  proof (cases "B = 0 \<or> length m < B")
    case True
    then show ?thesis by (subst (2) absorb.simps) auto
  next
    case False
    then have "absorb B step h (m @ x) = absorb B step (step h (take B m)) (drop B m @ x)"
      by (subst absorb.simps) simp
    with 1 False show ?thesis by (subst (2) absorb.simps) simp
  qed
qed

text \<open>An update: complete the unfinished block \<open>r\<close> if there is enough input, then absorb the rest.\<close>

lemma absorb_update:
  assumes "length r < B"
  shows "absorb B step h (r @ x) = (if length x < B - length r then (h, r @ x)
    else absorb B step (step h (r @ take (B - length r) x)) (drop (B - length r) x))"
proof (cases "length x < B - length r")
  case True
  then show ?thesis by (simp add: absorb_short)
next
  case False
  then show ?thesis using assms
    by (subst absorb.simps) auto
qed

text \<open>Writing into a buffer.\<close>

definition put :: "nat \<Rightarrow> 'b list \<Rightarrow> 'b list \<Rightarrow> 'b list" where
  "put i x buf = take i buf @ x @ drop (i + length x) buf"

lemma length_put: "i + length x \<le> length buf \<Longrightarrow> length (put i x buf) = length buf"
  by (simp add: put_def)

lemma take_put: "i \<le> length buf \<Longrightarrow> take (i + length x) (put i x buf) = take i buf @ x"
  by (simp add: put_def)

lemma put_put: "length buf = i + length y + length c \<Longrightarrow> put (i + length y) c (put i y buf) = take i buf @ y @ c"
  by (simp add: put_def)

lemma put_all: "length buf = i + length y \<Longrightarrow> put i y buf = take i buf @ y"
  by (simp add: put_def)

section \<open>The interface\<close>

locale stream_hash =
  fixes start :: 's
    and update :: "'s \<Rightarrow> 'b list \<Rightarrow> 's"
    and finish :: "'s \<Rightarrow> 'd"
    and holds :: "'s \<Rightarrow> 'b list \<Rightarrow> bool"
    and digest :: "'b list \<Rightarrow> 'd"
  assumes holds_start: "holds start []"
    and holds_update: "holds s m \<Longrightarrow> holds (update s x) (m @ x)"
    and finish_digest: "holds s m \<Longrightarrow> finish s = digest m"
begin

lemma holds_pieces: "holds s m \<Longrightarrow> holds (foldl update s xs) (m @ concat xs)"
proof (induction xs arbitrary: s m)
  case (Cons x xs)
  from Cons.IH [OF holds_update [OF Cons.prems, of x]] show ?case by simp
qed simp

lemma pieces_digest: "finish (foldl update start xs) = digest (concat xs)"
  using finish_digest [OF holds_pieces [OF holds_start, of xs]] by simp

lemma pieces_irrelevant: "concat xs = concat ys \<Longrightarrow> finish (foldl update start xs) = finish (foldl update start ys)"
  by (simp add: pieces_digest)

end

end
