(* ===== verification/Md5.thy ===== *)
theory Md5
  imports BlockHash
begin

unbundle bit_operations_syntax

text \<open>
  \<^verbatim>\<open>forms/md5.c\<close>: MD5 with an incremental interface, used to identify recipes. \<^verbatim>\<open>unsigned long\<close> is 64 bits
  wide. As for SHA-256, the digest only depends on the concatenation of the pieces.
\<close>

section \<open>Model\<close>

definition F :: "u32 \<Rightarrow> u32 \<Rightarrow> u32 \<Rightarrow> u32" where "F x y z = z XOR (x AND (y XOR z))"
definition G :: "u32 \<Rightarrow> u32 \<Rightarrow> u32 \<Rightarrow> u32" where "G x y z = y XOR (z AND (x XOR y))"
definition H :: "u32 \<Rightarrow> u32 \<Rightarrow> u32 \<Rightarrow> u32" where "H x y z = (x XOR y) XOR z"
definition H2 :: "u32 \<Rightarrow> u32 \<Rightarrow> u32 \<Rightarrow> u32" where "H2 x y z = x XOR (y XOR z)"
definition I :: "u32 \<Rightarrow> u32 \<Rightarrow> u32 \<Rightarrow> u32" where "I x y z = y XOR (x OR NOT z)"

type_synonym regs4 = "u32 \<times> u32 \<times> u32 \<times> u32"

text \<open>One step; the next step has the registers in the roles \<open>d, a, b, c\<close>.\<close>

fun STEP :: "(u32 \<Rightarrow> u32 \<Rightarrow> u32 \<Rightarrow> u32) \<Rightarrow> u32 \<Rightarrow> u32 \<Rightarrow> nat \<Rightarrow> regs4 \<Rightarrow> regs4" where
  "STEP f x t s (a, b, c, d) =
     (let a = a + (f b c d + x + t);
          a = push_bit s a OR drop_bit (32 - s) (a AND 0xffffffff);
          a = a + b
      in (d, a, b, c))"

text \<open>The words of a block are read in little-endian order.\<close>

definition SET :: "u8 list \<Rightarrow> nat \<Rightarrow> u32" where
  "SET ptr n = ((ucast (ptr ! (n * 4)) OR push_bit 8 (ucast (ptr ! (n * 4 + 1)))) OR push_bit 16 (ucast (ptr ! (n * 4 + 2))))
     OR push_bit 24 (ucast (ptr ! (n * 4 + 3)))"

text \<open>The sixteen steps of each round: word of the block, constant, rotation.\<close>

definition round1 :: "(nat \<times> u32 \<times> nat) list" where
  "round1 = [
    (0, 0xd76aa478, 7), (1, 0xe8c7b756, 12), (2, 0x242070db, 17), (3, 0xc1bdceee, 22),
    (4, 0xf57c0faf, 7), (5, 0x4787c62a, 12), (6, 0xa8304613, 17), (7, 0xfd469501, 22),
    (8, 0x698098d8, 7), (9, 0x8b44f7af, 12), (10, 0xffff5bb1, 17), (11, 0x895cd7be, 22),
    (12, 0x6b901122, 7), (13, 0xfd987193, 12), (14, 0xa679438e, 17), (15, 0x49b40821, 22)]"

definition round2 :: "(nat \<times> u32 \<times> nat) list" where
  "round2 = [
    (1, 0xf61e2562, 5), (6, 0xc040b340, 9), (11, 0x265e5a51, 14), (0, 0xe9b6c7aa, 20),
    (5, 0xd62f105d, 5), (10, 0x02441453, 9), (15, 0xd8a1e681, 14), (4, 0xe7d3fbc8, 20),
    (9, 0x21e1cde6, 5), (14, 0xc33707d6, 9), (3, 0xf4d50d87, 14), (8, 0x455a14ed, 20),
    (13, 0xa9e3e905, 5), (2, 0xfcefa3f8, 9), (7, 0x676f02d9, 14), (12, 0x8d2a4c8a, 20)]"

definition round3 :: "(nat \<times> u32 \<times> nat) list" where
  "round3 = [
    (5, 0xfffa3942, 4), (8, 0x8771f681, 11), (11, 0x6d9d6122, 16), (14, 0xfde5380c, 23),
    (1, 0xa4beea44, 4), (4, 0x4bdecfa9, 11), (7, 0xf6bb4b60, 16), (10, 0xbebfbc70, 23),
    (13, 0x289b7ec6, 4), (0, 0xeaa127fa, 11), (3, 0xd4ef3085, 16), (6, 0x04881d05, 23),
    (9, 0xd9d4d039, 4), (12, 0xe6db99e5, 11), (15, 0x1fa27cf8, 16), (2, 0xc4ac5665, 23)]"

definition round4 :: "(nat \<times> u32 \<times> nat) list" where
  "round4 = [
    (0, 0xf4292244, 6), (7, 0x432aff97, 10), (14, 0xab9423a7, 15), (5, 0xfc93a039, 21),
    (12, 0x655b59c3, 6), (3, 0x8f0ccc92, 10), (10, 0xffeff47d, 15), (1, 0x85845dd1, 21),
    (8, 0x6fa87e4f, 6), (15, 0xfe2ce6e0, 10), (6, 0xa3014314, 15), (13, 0x4e0811a1, 21),
    (4, 0xf7537e82, 6), (11, 0xbd3af235, 10), (2, 0x2ad7d2bb, 15), (9, 0xeb86d391, 21)]"

definition md5_round :: "(u32 \<Rightarrow> u32 \<Rightarrow> u32 \<Rightarrow> u32) \<Rightarrow> (nat \<times> u32 \<times> nat) list \<Rightarrow> u8 list \<Rightarrow> regs4 \<Rightarrow> regs4" where
  "md5_round f steps ptr r = fold (\<lambda>(n, t, s). STEP f (SET ptr n) t s) steps r"

text \<open>The third round uses \<open>H\<close> and \<open>H2\<close> in turn.\<close>

fun md5_round3 :: "(nat \<times> u32 \<times> nat) list \<Rightarrow> u8 list \<Rightarrow> regs4 \<Rightarrow> regs4" where
  "md5_round3 ((n, t, s) # (n', t', s') # steps) ptr r =
     md5_round3 steps ptr (STEP H2 (SET ptr n') t' s' (STEP H (SET ptr n) t s r))"
| "md5_round3 steps ptr r = r"

definition md5_block :: "regs4 \<Rightarrow> u8 list \<Rightarrow> regs4" where
  "md5_block saved ptr =
     (case md5_round I round4 ptr (md5_round3 round3 ptr (md5_round G round2 ptr (md5_round F round1 ptr saved))) of
        (a, b, c, d) \<Rightarrow> case saved of (a', b', c', d') \<Rightarrow> (a + a', b + b', c + c', d + d'))"

text \<open>One or more blocks; the size is a multiple of 64.\<close>

function body :: "regs4 \<Rightarrow> u8 list \<Rightarrow> regs4" where
  "body r data = (let r = md5_block r (take 64 data) in if length data \<le> 64 then r else body r (drop 64 data))"
  by pat_completeness auto
termination
  by (relation "measure (\<lambda>(r, data). length data)") auto

declare body.simps [simp del]

record md5_ctx =
  lo :: u32
  hi :: u32
  md5_regs :: regs4
  md5_buffer :: "u8 list"

definition MD5_Init :: "(nat \<Rightarrow> u8) \<Rightarrow> md5_ctx" where
  "MD5_Init junk = \<lparr>lo = 0, hi = 0, md5_regs = (0x67452301, 0xefcdab89, 0x98badcfe, 0x10325476), md5_buffer = map junk [0..<64]\<rparr>"

text \<open>\<^verbatim>\<open>MD5_Update\<close> in three parts: the count of bytes in \<open>lo\<close> (29 bits) and \<open>hi\<close>, the completion of an unfinished block,
  and the whole blocks with the copy of the rest.\<close>

definition MD5_count :: "md5_ctx \<Rightarrow> nat \<Rightarrow> md5_ctx" where
  "MD5_count ctx len =
     (let size = of_nat len :: u64;
          saved_lo = lo ctx;
          new_lo = ucast ((ucast saved_lo + size) AND 0x1fffffff);
          new_hi = (if new_lo < saved_lo then hi ctx + 1 else hi ctx)
      in ctx\<lparr>lo := new_lo, hi := new_hi + ucast (drop_bit 29 size)\<rparr>)"

definition MD5_fill :: "nat \<Rightarrow> md5_ctx \<Rightarrow> u8 list \<Rightarrow> md5_ctx \<times> u8 list" where
  "MD5_fill used ctx data =
     (let available = 64 - used;
          b = put used (take available data) (md5_buffer ctx)
      in (ctx\<lparr>md5_buffer := b, md5_regs := body (md5_regs ctx) b\<rparr>, drop available data))"

definition MD5_blocks :: "md5_ctx \<Rightarrow> u8 list \<Rightarrow> md5_ctx" where
  "MD5_blocks ctx data =
     (let whole = length data div 64 * 64;
          (ctx, data) = (if length data \<ge> 64 then (ctx\<lparr>md5_regs := body (md5_regs ctx) (take whole data)\<rparr>, drop whole data)
                         else (ctx, data))
      in ctx\<lparr>md5_buffer := put 0 data (md5_buffer ctx)\<rparr>)"

definition MD5_Update :: "md5_ctx \<Rightarrow> u8 list \<Rightarrow> md5_ctx" where
  "MD5_Update ctx data =
     (let used = unat (lo ctx AND 0x3f);
          ctx = MD5_count ctx (length data)
      in if used = 0 then MD5_blocks ctx data
         else if length data < 64 - used then ctx\<lparr>md5_buffer := put used data (md5_buffer ctx)\<rparr>
         else case MD5_fill used ctx data of (ctx, data) \<Rightarrow> MD5_blocks ctx data)"

definition store32_le :: "u32 \<Rightarrow> u8 list" where
  "store32_le w = [ucast w, ucast (drop_bit 8 w), ucast (drop_bit 16 w), ucast (drop_bit 24 w)]"

definition MD5_Final :: "md5_ctx \<Rightarrow> u8 list" where
  "MD5_Final ctx =
     (let used = unat (lo ctx AND 0x3f);
          ctx = ctx\<lparr>md5_buffer := (md5_buffer ctx)[used := 0x80]\<rparr>;
          used = used + 1;
          available = 64 - used;
          (ctx, used, available) = (if available < 8
            then (let b = put used (replicate available 0) (md5_buffer ctx)
                  in (ctx\<lparr>md5_buffer := b, md5_regs := body (md5_regs ctx) b\<rparr>, 0, 64))
            else (ctx, used, available));
          b = put used (replicate (available - 8) 0) (md5_buffer ctx);
          b = put 56 (store32_le (push_bit 3 (lo ctx)) @ store32_le (hi ctx)) b;
          (a, b, c, d) = body (md5_regs ctx) b
      in store32_le a @ store32_le b @ store32_le c @ store32_le d)"

section \<open>Blocks\<close>

lemma body_one: "length b = 64 \<Longrightarrow> body r b = md5_block r b"
  by (simp add: body.simps)

lemma absorb_body:
  assumes "0 < length data" "length data mod 64 = 0"
  shows "absorb 64 md5_block r data = (body r data, [])"
  using assms
proof (induction r data rule: body.induct)
  case (1 r data)
  then have long: "64 \<le> length data" using mod_less [of "length data" 64] by (cases "length data < 64") simp_all
  show ?case
  proof (cases "length data \<le> 64")
    case True
    with long show ?thesis by (subst absorb.simps, subst body.simps) (simp add: absorb_short)
  next
    case False
    then have "0 < length (drop 64 data)" by simp
    moreover have "length (drop 64 data) mod 64 = 0" using 1(3) long by (simp add: le_mod_geq)
    ultimately have "absorb 64 md5_block (md5_block r (take 64 data)) (drop 64 data) = (body (md5_block r (take 64 data)) (drop 64 data), [])"
      using 1(1) [OF refl False] by simp
    with False long show ?thesis by (subst absorb.simps, subst body.simps) (simp add: Let_def)
  qed
qed

lemma absorb_whole:
  defines "whole xs \<equiv> length xs div 64 * 64"
  shows "absorb 64 md5_block r data = (if 64 \<le> length data then (body r (take (whole data) data), drop (whole data) data) else (r, data))"
proof (cases "64 \<le> length data")
  case True
  let ?w = "whole data"
  have w: "?w \<le> length data" "?w mod 64 = 0" by (simp_all add: whole_def)
  have "0 < ?w" using True by (simp add: whole_def div_greater_zero_iff)
  then have "absorb 64 md5_block r (take ?w data) = (body r (take ?w data), [])"
    using w by (intro absorb_body) simp_all
  moreover have "length (drop ?w data) < 64"
    using div_mod_decomp [of "length data" 64] mod_less_divisor [of 64 "length data"] by (simp add: whole_def)
  ultimately show ?thesis using True absorb_append [of 64 md5_block r "take ?w data" "drop ?w data"] by (simp add: absorb_short)
qed (simp add: absorb_short)

section \<open>The length counter\<close>

lemma carry_div:
  fixes a k M :: nat
  assumes "a < M"
  shows "(a + k) div M = k div M + (if (a + k) mod M < a then 1 else 0)"
proof -
  define b where "b = k mod M"
  have b: "b < M" "k = M * (k div M) + b" using assms mod_less_divisor [of M k] mult_div_mod_eq [of M k] by (simp_all add: b_def)
  have "(a + k) div M = k div M + (a + b) div M" "(a + k) mod M = (a + b) mod M"
    using b assms by (metis add.assoc add.commute div_mult_self2 less_nat_zero_code, metis b_def mod_add_right_eq)
  moreover have "(a + b) div M = (if (a + b) mod M < a then 1 else 0)"
  proof (cases "a + b < M")
    case False
    then have "(a + b) div M = 1" "(a + b) mod M = a + b - M" using assms b(1)
      by (simp_all add: div_nat_eqI mod_if)
    then show ?thesis using b(1) False assms by simp
  qed simp
  ultimately show ?thesis by simp
qed

lemma mod_div_part: "0 < M \<Longrightarrow> (k mod (M * N)) div M = k div M mod N" for k M N :: nat
  by (simp add: mod_mult2_eq)

lemma of_nat_u32_cong: "x mod 2 ^ 32 = y mod 2 ^ 32 \<Longrightarrow> (of_nat x :: u32) = of_nat y"
  by (simp add: word_of_nat_eq_iff take_bit_eq_mod)

lemma md5_count:
  fixes l h :: u32 and n k :: nat
  assumes l: "l = of_nat (n mod 2 ^ 29)" and h: "h = of_nat (n div 2 ^ 29)"
  defines "l' \<equiv> ucast ((ucast l + of_nat k :: u64) AND 0x1fffffff) :: u32"
  shows "l' = of_nat ((n + k) mod 2 ^ 29)"
    and "(if l' < l then h + 1 else h) + ucast (drop_bit 29 (of_nat k :: u64)) = of_nat ((n + k) div 2 ^ 29)"
proof -
  let ?M = "2 ^ 29 :: nat" and ?a = "n mod 2 ^ 29"
  have a: "?a < ?M" by simp
  have ul: "unat l = ?a" unfolding l by (simp only: unsigned_of_nat take_bit_eq_mod) simp
  have "unat (ucast l + of_nat k :: u64) = (?a + k) mod 2 ^ 64"
    using ul by (simp add: unat_word_ariths unsigned_of_nat unsigned_ucast_eq take_bit_eq_mod mod_add_right_eq)
  moreover have "(0x1fffffff :: u64) = mask 29" by (simp add: mask_eq_exp_minus_1)
  ultimately have "unat ((ucast l + of_nat k :: u64) AND 0x1fffffff) = (?a + k) mod 2 ^ 64 mod ?M"
    by (simp only: unat_and_mask)
  also have "\<dots> = (?a + k) mod ?M" by (rule mod_mod_cancel) simp
  finally have ul': "unat l' = (?a + k) mod ?M"
    by (simp add: l'_def unsigned_ucast_eq take_bit_eq_mod)
  have "l' = of_nat (unat l')" by simp
  also have "\<dots> = of_nat ((n + k) mod ?M)" by (simp only: ul' mod_add_left_eq)
  finally show "l' = of_nat ((n + k) mod ?M)" .
  have less: "l' < l \<longleftrightarrow> (?a + k) mod ?M < ?a" by (simp add: word_less_nat_alt ul ul')
  have "unat (drop_bit 29 (of_nat k :: u64)) = (k mod 2 ^ 64) div ?M"
    by (simp only: unat_drop_bit_nat unsigned_of_nat take_bit_eq_mod) simp
  moreover have "(ucast w :: u32) = of_nat (unat w)" for w :: u64 by simp
  ultimately have up: "(ucast (drop_bit 29 (of_nat k :: u64)) :: u32) = of_nat ((k mod 2 ^ 64) div ?M)"
    by (simp only:)
  have "(k mod 2 ^ 64) div ?M = k div ?M mod 2 ^ 35"
  proof -
    have e: "(2 :: nat) ^ 64 = ?M * 2 ^ 35" by simp
    show ?thesis unfolding e by (rule mod_div_part) simp
  qed
  moreover have "k div ?M mod 2 ^ 35 mod 2 ^ 32 = k div ?M mod 2 ^ 32" by (rule mod_mod_cancel) simp
  ultimately have up': "(ucast (drop_bit 29 (of_nat k :: u64)) :: u32) = of_nat (k div ?M)"
    unfolding up by (intro of_nat_u32_cong) simp
  have "n + k = ?M * (n div ?M) + (?a + k)" by simp
  then have "(n + k) div ?M = n div ?M + (?a + k) div ?M" by (metis div_mult_self2 add.commute zero_neq_numeral power_not_zero)
  then have sum: "(n + k) div ?M = n div ?M + (k div ?M + (if l' < l then 1 else 0))"
    unfolding less carry_div [OF a, of k] .
  show "(if l' < l then h + 1 else h) + ucast (drop_bit 29 (of_nat k :: u64)) = of_nat ((n + k) div ?M)"
    unfolding up' sum h by simp
qed

section \<open>Refinement of the padded hash\<close>

definition md5_initial :: regs4 where "md5_initial = (0x67452301, 0xefcdab89, 0x98badcfe, 0x10325476)"

definition md5_padded :: "u8 list \<Rightarrow> u8 list" where
  "md5_padded m = m @ [0x80] @ replicate ((119 - length m mod 64) mod 64) 0 @
     store32_le (of_nat (8 * length m)) @ store32_le (of_nat (8 * length m div 2 ^ 32))"

definition md5_output :: "regs4 \<Rightarrow> u8 list" where
  "md5_output r = (case r of (a, b, c, d) \<Rightarrow> store32_le a @ store32_le b @ store32_le c @ store32_le d)"

definition md5_digest :: "u8 list \<Rightarrow> u8 list" where
  "md5_digest m = md5_output (fst (absorb 64 md5_block md5_initial (md5_padded m)))"

definition md5_holds :: "md5_ctx \<Rightarrow> u8 list \<Rightarrow> bool" where
  "md5_holds ctx m \<longleftrightarrow> length (md5_buffer ctx) = 64 \<and> lo ctx = of_nat (length m mod 2 ^ 29) \<and> hi ctx = of_nat (length m div 2 ^ 29) \<and>
     (md5_regs ctx, take (length m mod 64) (md5_buffer ctx)) = absorb 64 md5_block md5_initial m"

lemma lo_rest: "unat (of_nat (n mod 2 ^ 29) AND 0x3f :: u32) = n mod 64"
proof -
  have "unat (of_nat (n mod 2 ^ 29) :: u32) = n mod 2 ^ 29" by (simp only: unsigned_of_nat take_bit_eq_mod) simp
  moreover have "unat (w AND (0x3f :: u32)) = unat w mod 64" for w
    using unat_and_mask [of w 6] by (simp add: mask_eq_exp_minus_1)
  moreover have "n mod 2 ^ 29 mod 64 = n mod 64" by (rule mod_mod_cancel) simp
  ultimately show ?thesis by simp
qed

lemma md5_holdsE:
  assumes "md5_holds ctx m"
  obtains r where "length (md5_buffer ctx) = 64" "lo ctx = of_nat (length m mod 2 ^ 29)" "hi ctx = of_nat (length m div 2 ^ 29)"
    "r = length m mod 64" "r < 64" "absorb 64 md5_block md5_initial m = (md5_regs ctx, take r (md5_buffer ctx))"
    "unat (lo ctx AND 0x3f) = r"
  using assms lo_rest [of "length m"] that [of "length m mod 64"] by (simp add: md5_holds_def)

lemma MD5_blocks_absorb:
  "MD5_blocks ctx data = ctx\<lparr>md5_regs := fst (absorb 64 md5_block (md5_regs ctx) data),
     md5_buffer := put 0 (snd (absorb 64 md5_block (md5_regs ctx) data)) (md5_buffer ctx)\<rparr>"
  by (simp add: MD5_blocks_def absorb_whole Let_def)

lemma MD5_count_ok:
  assumes "lo ctx = of_nat (n mod 2 ^ 29)" "hi ctx = of_nat (n div 2 ^ 29)"
  shows "MD5_count ctx k = ctx\<lparr>lo := of_nat ((n + k) mod 2 ^ 29), hi := of_nat ((n + k) div 2 ^ 29)\<rparr>"
  using md5_count [OF assms, of k] by (simp only: MD5_count_def Let_def)

lemma md5_holds_update:
  assumes "md5_holds ctx m"
  shows "md5_holds (MD5_Update ctx x) (m @ x)"
proof -
  let ?A = "absorb 64 md5_block" and ?h0 = md5_initial
  obtain r where s: "length (md5_buffer ctx) = 64" and l: "lo ctx = of_nat (length m mod 2 ^ 29)" and h: "hi ctx = of_nat (length m div 2 ^ 29)"
    and r: "r = length m mod 64" "r < 64" and ab: "?A ?h0 m = (md5_regs ctx, take r (md5_buffer ctx))" and used: "unat (lo ctx AND 0x3f) = r"
    using assms by (rule md5_holdsE)
  define ctx0 where "ctx0 = MD5_count ctx (length x)"
  have c0: "ctx0 = ctx\<lparr>lo := of_nat (length (m @ x) mod 2 ^ 29), hi := of_nat (length (m @ x) div 2 ^ 29)\<rparr>"
    using MD5_count_ok [OF l h, of "length x"] by (simp add: ctx0_def)
  have len: "length (take r (md5_buffer ctx)) = r" using s r(2) by simp
  have all: "?A ?h0 (m @ x) = ?A (md5_regs ctx) (take r (md5_buffer ctx) @ x)"
    by (simp add: absorb_append [of 64 md5_block ?h0 m x] ab)
  have rest: "length (snd (?A ?h0 (m @ x))) = length (m @ x) mod 64" by (rule absorb_rest) simp
  then have small: "length (snd (?A ?h0 (m @ x))) \<le> 64" using mod_less_divisor [of 64 "length (m @ x)"] by simp
  have holds: "md5_holds (c\<lparr>md5_regs := fst (?A ?h0 (m @ x)), md5_buffer := b\<rparr>) (m @ x)"
    if "length b = 64" "take (length (snd (?A ?h0 (m @ x)))) b = snd (?A ?h0 (m @ x))" "lo c = lo ctx0" "hi c = hi ctx0" for b c
    using that rest by (simp add: md5_holds_def c0 del: length_append)
  have put0: "length (put 0 y b) = 64 \<and> take (length y) (put 0 y b) = y" if "length b = 64" "length y \<le> 64" for b y :: "u8 list"
    using that by (simp add: put_def)
  show ?thesis
  proof (cases "r = 0")
    case True
    then have "MD5_Update ctx x = MD5_blocks ctx0 x" by (simp add: MD5_Update_def used ctx0_def)
    moreover have "?A ?h0 (m @ x) = ?A (md5_regs ctx0) x" using all True c0 by simp
    ultimately show ?thesis using holds put0 [OF _ small, of "md5_buffer ctx0"] s
      by (simp add: MD5_blocks_absorb c0)
  next
    case nz: False
    note up = absorb_update [of "take r (md5_buffer ctx)" 64 md5_block "md5_regs ctx" x]
    show ?thesis
    proof (cases "length x < 64 - r")
      case True
      then have a: "?A ?h0 (m @ x) = (md5_regs ctx, take r (md5_buffer ctx) @ x)" using all up len r(2) by simp
      have "MD5_Update ctx x = ctx0\<lparr>md5_regs := md5_regs ctx, md5_buffer := put r x (md5_buffer ctx)\<rparr>"
        using True nz by (simp add: MD5_Update_def used ctx0_def [symmetric] c0)
      then show ?thesis using holds [of "put r x (md5_buffer ctx)" ctx0] a True s len r(2)
        by (simp add: length_put take_put)
    next
      case False
      define b where "b = put r (take (64 - r) x) (md5_buffer ctx)"
      have b: "b = take r (md5_buffer ctx) @ take (64 - r) x" "length b = 64"
        using False len s put_all [of "md5_buffer ctx" r "take (64 - r) x"] r(2) by (simp_all add: b_def)
      have a: "?A ?h0 (m @ x) = ?A (body (md5_regs ctx) b) (drop (64 - r) x)"
        using False all up len r(2) b by (simp add: body_one)
      have "MD5_Update ctx x = MD5_blocks (ctx0\<lparr>md5_buffer := b, md5_regs := body (md5_regs ctx) b\<rparr>) (drop (64 - r) x)"
        using False nz by (simp add: MD5_Update_def used ctx0_def [symmetric] MD5_fill_def Let_def b_def c0)
      then show ?thesis using holds put0 [OF b(2) small] a by (simp add: MD5_blocks_absorb c0)
    qed
  qed
qed

lemma length_store32_le [simp]: "length (store32_le w) = 4"
  by (simp add: store32_le_def)

lemma md5_length_field:
  "push_bit 3 (of_nat (n mod 2 ^ 29) :: u32) = of_nat (8 * n)" "(of_nat (n div 2 ^ 29) :: u32) = of_nat (8 * n div 2 ^ 32)"
proof -
  have "push_bit 3 (of_nat (n mod 2 ^ 29) :: u32) = of_nat (8 * (n mod 2 ^ 29))" by (simp add: push_bit_eq_mult mult.commute)
  also have "\<dots> = of_nat (8 * n)"
  proof (rule of_nat_u32_cong)
    have "8 * (n mod 2 ^ 29) = (8 * n) mod 2 ^ 32" using mult_mod_right [of 8 n "2 ^ 29"] by simp
    then show "8 * (n mod 2 ^ 29) mod 2 ^ 32 = 8 * n mod 2 ^ 32" by simp
  qed
  finally show "push_bit 3 (of_nat (n mod 2 ^ 29) :: u32) = of_nat (8 * n)" .
  have "8 * n div 2 ^ 32 = n div 2 ^ 29" using div_mult_mult1 [of 8 n "2 ^ 29"] by simp
  then show "(of_nat (n div 2 ^ 29) :: u32) = of_nat (8 * n div 2 ^ 32)" by simp
qed

lemma md5_holds_final:
  assumes "md5_holds ctx m"
  shows "MD5_Final ctx = md5_digest m"
proof -
  let ?A = "absorb 64 md5_block" and ?h0 = md5_initial and ?c = "store32_le (push_bit 3 (lo ctx)) @ store32_le (hi ctx)"
  obtain r where s: "length (md5_buffer ctx) = 64" and l: "lo ctx = of_nat (length m mod 2 ^ 29)" and h: "hi ctx = of_nat (length m div 2 ^ 29)"
    and r: "r = length m mod 64" "r < 64" and ab: "?A ?h0 m = (md5_regs ctx, take r (md5_buffer ctx))" and used: "unat (lo ctx AND 0x3f) = r"
    using assms by (rule md5_holdsE)
  define b0 where "b0 = (md5_buffer ctx)[r := 0x80]"
  define p where "p = take r (md5_buffer ctx) @ [0x80] @ replicate ((119 - r) mod 64) 0 @ ?c"
  have dig: "md5_digest m = md5_output (fst (?A (md5_regs ctx) p))"
    unfolding md5_digest_def md5_padded_def absorb_append [of 64 md5_block ?h0 m] ab p_def l h md5_length_field r(1) by simp
  have b0: "length b0 = 64" "take (r + 1) b0 = take r (md5_buffer ctx) @ [0x80]"
    using s r(2) by (simp_all add: b0_def upd_conv_take_nth_drop)
  show ?thesis
  proof (cases "63 - r < 8")
    case False
    then have z: "(119 - r) mod 64 = 55 - r" by (simp add: mod_if)
    have "put 56 ?c (put (r + 1) (replicate (55 - r) 0) b0) = p"
      using put_put [of b0 "r + 1" "replicate (55 - r) 0" ?c] b0 False by (simp add: p_def z del: One_nat_def)
    moreover have "length p = 64" using False s by (simp add: p_def z)
    moreover have "64 - (r + 1) = 63 - r" "63 - r - 8 = 55 - r" by simp_all
    ultimately show ?thesis using False absorb_block [of 64 p md5_block "md5_regs ctx" "[]"]
      by (simp add: MD5_Final_def Let_def used dig absorb_short b0_def [symmetric] body_one md5_output_def split: prod.split)
  next
    case True
    then have z: "(119 - r) mod 64 = (63 - r) + 56" using r(2) by simp
    define b where "b = put (Suc r) (replicate (63 - r) 0) b0"
    have b: "b = take r (md5_buffer ctx) @ [0x80] @ replicate (63 - r) 0" "length b = 64"
      using b0 r(2) put_all [of b0 "r + 1" "replicate (63 - r) 0"] s by (simp_all add: b_def)
    have p: "p = b @ replicate 56 0 @ ?c" unfolding p_def z replicate_add b(1) by simp
    have "put 56 ?c (put 0 (replicate 56 0) b) = replicate 56 0 @ ?c" using b(2) by (simp add: put_def)
    with True absorb_block [of 64 b md5_block "md5_regs ctx" "replicate 56 0 @ ?c"] b(2)
      absorb_block [of 64 "replicate 56 0 @ ?c" md5_block "md5_block (md5_regs ctx) b" "[]"]
    show ?thesis
      by (simp add: MD5_Final_def Let_def used dig p absorb_short b0_def [symmetric] b_def [symmetric] body_one md5_output_def split: prod.split)
  qed
qed

interpretation md5: stream_hash "MD5_Init junk" MD5_Update MD5_Final md5_holds md5_digest for junk
proof
  show "md5_holds (MD5_Init junk) []" by (simp add: md5_holds_def MD5_Init_def absorb_short md5_initial_def)
  fix s m x
  show "md5_holds s m \<Longrightarrow> md5_holds (MD5_Update s x) (m @ x)" by (rule md5_holds_update)
  show "md5_holds s m \<Longrightarrow> MD5_Final s = md5_digest m" by (rule md5_holds_final)
qed

section \<open>The properties\<close>

text \<open>(C10) The digest of a recipe fed to MD5 in pieces is the digest of its padded text, whatever the pieces and
  whatever was in the buffer before; in particular the 61-bit length count over two words is right.\<close>

theorem md5_pieces:
  "MD5_Final (foldl MD5_Update (MD5_Init junk) xs) = md5_digest (concat xs)"
  by (rule md5.pieces_digest)

end
