(* ===== verification/Recipe.thy ===== *)
theory Recipe
  imports CString Md5 "HOL-Library.Monad_Syntax"
begin

text \<open>
  \<^verbatim>\<open>forms/recipe.c\<close> and \<^verbatim>\<open>forms/recipe.h\<close>: form definitions (recipes) and filled-in forms (records). A parser
  result is \<open>None\<close> for a write outside an array, \<open>Inl\<close> with a reason where the C code logs and returns a null
  pointer, \<open>Inr\<close> otherwise. Linked lists are lists, with their counts kept where the structure has one.
\<close>

section \<open>Field types\<close>

abbreviation (input) FIELDTYPE_INTEGER :: int where "FIELDTYPE_INTEGER \<equiv> 0"
abbreviation (input) FIELDTYPE_FLOAT :: int where "FIELDTYPE_FLOAT \<equiv> 1"
abbreviation (input) FIELDTYPE_FIXEDPOINT :: int where "FIELDTYPE_FIXEDPOINT \<equiv> 2"
abbreviation (input) FIELDTYPE_BOOLEAN :: int where "FIELDTYPE_BOOLEAN \<equiv> 3"
abbreviation (input) FIELDTYPE_TIMEOFDAY :: int where "FIELDTYPE_TIMEOFDAY \<equiv> 4"
abbreviation (input) FIELDTYPE_DATE :: int where "FIELDTYPE_DATE \<equiv> 5"
abbreviation (input) FIELDTYPE_LATLONG :: int where "FIELDTYPE_LATLONG \<equiv> 6"
abbreviation (input) FIELDTYPE_TEXT :: int where "FIELDTYPE_TEXT \<equiv> 7"
abbreviation (input) FIELDTYPE_UUID :: int where "FIELDTYPE_UUID \<equiv> 8"
abbreviation (input) FIELDTYPE_TIMEDATE :: int where "FIELDTYPE_TIMEDATE \<equiv> 9"
abbreviation (input) FIELDTYPE_ENUM :: int where "FIELDTYPE_ENUM \<equiv> 10"
abbreviation (input) FIELDTYPE_MAGPIUUID :: int where "FIELDTYPE_MAGPIUUID \<equiv> 11"
abbreviation (input) FIELDTYPE_MAGPITIMEDATE :: int where "FIELDTYPE_MAGPITIMEDATE \<equiv> 12"
abbreviation (input) FIELDTYPE_MULTISELECT :: int where "FIELDTYPE_MULTISELECT \<equiv> 13"
abbreviation (input) FIELDTYPE_SUBFORM :: int where "FIELDTYPE_SUBFORM \<equiv> 14"

text \<open>The names in the order in which they are tried.\<close>

definition fieldtype_names :: "(string \<times> int) list" where
  "fieldtype_names =
     [(''integer'', FIELDTYPE_INTEGER), (''int'', FIELDTYPE_INTEGER), (''float'', FIELDTYPE_FLOAT),
      (''decimal'', FIELDTYPE_FIXEDPOINT), (''fixedpoint'', FIELDTYPE_FIXEDPOINT),
      (''boolean'', FIELDTYPE_BOOLEAN), (''bool'', FIELDTYPE_BOOLEAN), (''timeofday'', FIELDTYPE_TIMEOFDAY),
      (''timestamp'', FIELDTYPE_TIMEDATE), (''datetime'', FIELDTYPE_TIMEDATE),
      (''magpitimestamp'', FIELDTYPE_MAGPITIMEDATE), (''date'', FIELDTYPE_DATE),
      (''latlong'', FIELDTYPE_LATLONG), (''geopoint'', FIELDTYPE_LATLONG), (''text'', FIELDTYPE_TEXT),
      (''string'', FIELDTYPE_TEXT), (''image'', FIELDTYPE_TEXT), (''information'', FIELDTYPE_TEXT),
      (''uuid'', FIELDTYPE_UUID), (''magpiuuid'', FIELDTYPE_MAGPIUUID), (''enum'', FIELDTYPE_ENUM),
      (''multi'', FIELDTYPE_MULTISELECT), (''subform'', FIELDTYPE_SUBFORM),
      (''dropdown'', FIELDTYPE_ENUM), (''radio'', FIELDTYPE_ENUM), (''select1'', FIELDTYPE_ENUM),
      (''select2'', FIELDTYPE_ENUM), (''selectn'', FIELDTYPE_MULTISELECT), (''checkbox'', FIELDTYPE_MULTISELECT)]"

definition recipe_parse_fieldtype :: "string \<Rightarrow> int" where
  "recipe_parse_fieldtype name =
     (case filter (\<lambda>(n, t). strcasecmp_0 name n) fieldtype_names of [] \<Rightarrow> -1 | (n, t) # _ \<Rightarrow> t)"

definition recipe_field_type_name :: "int \<Rightarrow> string" where
  "recipe_field_type_name f =
     (if f = FIELDTYPE_INTEGER then ''integer''
      else if f = FIELDTYPE_FLOAT then ''float''
      else if f = FIELDTYPE_FIXEDPOINT then ''fixedpoint''
      else if f = FIELDTYPE_BOOLEAN then ''boolean''
      else if f = FIELDTYPE_TIMEOFDAY then ''timeofday''
      else if f = FIELDTYPE_TIMEDATE then ''timestamp''
      else if f = FIELDTYPE_MAGPITIMEDATE then ''magpitimestamp''
      else if f = FIELDTYPE_DATE then ''date''
      else if f = FIELDTYPE_LATLONG then ''latlong''
      else if f = FIELDTYPE_TEXT then ''text''
      else if f = FIELDTYPE_UUID then ''uuid''
      else if f = FIELDTYPE_MAGPIUUID then ''magpiuuid''
      else if f = FIELDTYPE_ENUM then ''enum''
      else if f = FIELDTYPE_MULTISELECT then ''multi''
      else if f = FIELDTYPE_SUBFORM then ''subform''
      else ''unknown'')"

section \<open>Recipes\<close>

record field =
  field_name :: string
  field_type :: int
  minimum :: int
  maximum :: int
  precision :: int
  enum_value :: "string list"
  enum_count :: int

record recipe =
  formhash :: "u8 list"
  formname :: string
  field_list :: "field list"
  field_count :: nat

datatype recipe_error =
    Recipe_size
  | Line_too_long nat
  | Too_many_fields nat
  | Unknown_type nat
  | Too_many_values nat
  | No_values nat
  | Malformed_field nat

text \<open>The base name of a recipe file: what follows the last slash, without the extension. The loop that copies it
  runs up to and including its end; the array has 1024 entries, the last one written is a NUL.\<close>

definition form_basename :: "string \<Rightarrow> string option" where
  "form_basename recipe_file =
     (let end = int (length recipe_file);
          start = int (length recipe_file - length (takeWhile (\<lambda>c. c \<noteq> CHR ''/'') (rev recipe_file)));
          end = (if end > 7 \<and> strcasecmp_0 ''.recipe'' (drop (length recipe_file - 7) recipe_file) then end - 7 - 1 else end);
          copied = take (nat (end - start + 1)) (drop (nat start) (recipe_file @ [CHR 0x00]))
      in if length copied > 1023 then None else Some (c_str copied))"

text \<open>The first six bytes of the MD5 hash of a version string and the name. \<open>junk\<close> is the uninitialised context.\<close>

definition recipe_form_hash :: "(nat \<Rightarrow> u8) \<Rightarrow> string \<Rightarrow> (u8 list \<times> string) option" where
  "recipe_form_hash junk recipe_file = do {
     recipe_name \<leftarrow> form_basename recipe_file;
     let md5 = MD5_Init junk;
     let md5 = MD5_Update md5 (bytes_of ''SMAC Binary Format v2'');
     let md5 = MD5_Update md5 (bytes_of recipe_name);
     Some (take 6 (MD5_Final md5), recipe_name) }"

text \<open>The loop over the values of an enumeration, separated by commas: \<open>cur\<close> is the value being read into an array of
  1024 characters, \<open>vals\<close> are the values before it.\<close>

fun enum_values :: "nat \<Rightarrow> string \<Rightarrow> string list \<Rightarrow> string \<Rightarrow> (recipe_error + string list) option" where
  "enum_values n cur vals [] =
     (if length cur > 1023 then None
      else if length vals \<ge> 32 then Some (Inl (Too_many_values n))
      else Some (Inr (vals @ [cur])))"
| "enum_values n cur vals (x # rest) =
     (if x = CHR '','' then
        if length cur > 1023 then None
        else if length vals \<ge> 32 then Some (Inl (Too_many_values n))
        else enum_values n [] (vals @ [cur]) rest
      else enum_values n (cur @ [x]) vals rest)"

text \<open>The format \<^verbatim>\<open>%[^:]:%[^:]:%d:%d:%d:%[^\n]\<close> with at least five conversions.\<close>

definition scan_field :: "string \<Rightarrow> (string \<times> string \<times> int \<times> int \<times> int \<times> string) option" where
  "scan_field s = do {
     (name, s) \<leftarrow> scan_not (CHR '':'') s;
     s \<leftarrow> scan_lit (CHR '':'') s;
     (type, s) \<leftarrow> scan_not (CHR '':'') s;
     s \<leftarrow> scan_lit (CHR '':'') s;
     (mn, s) \<leftarrow> scan_d s;
     s \<leftarrow> scan_lit (CHR '':'') s;
     (mx, s) \<leftarrow> scan_d s;
     s \<leftarrow> scan_lit (CHR '':'') s;
     (prec, s) \<leftarrow> scan_d s;
     let enumvalues = (case Option.bind (scan_lit (CHR '':'') s) (scan_not (CHR 0x0A)) of
                         None \<Rightarrow> [] | Some (v, _) \<Rightarrow> v);
     Some (name, type, mn, mx, prec, enumvalues) }"

definition recipe_line :: "nat \<Rightarrow> string \<Rightarrow> (recipe_error + field) option" where
  "recipe_line n line =
     (case scan_field (c_str line) of
        None \<Rightarrow> Some (Inl (Malformed_field n))
      | Some (name, type, mn, mx, prec, enumvalues) \<Rightarrow>
          (let fieldtype = recipe_parse_fieldtype type;
               f = \<lparr>field_name = name, field_type = fieldtype, minimum = mn, maximum = mx, precision = prec,
                    enum_value = [], enum_count = 0\<rparr>
           in if fieldtype = -1 then Some (Inl (Unknown_type n))
              else if fieldtype = FIELDTYPE_ENUM \<or> fieldtype = FIELDTYPE_MULTISELECT
              then (case enum_values n [] [] enumvalues of
                      None \<Rightarrow> None
                    | Some (Inl e) \<Rightarrow> Some (Inl e)
                    | Some (Inr vals) \<Rightarrow>
                        if length vals < 1 then Some (Inl (No_values n))
                        else Some (Inr (f\<lparr>enum_value := vals, enum_count := int (length vals)\<rparr>)))
              else Some (Inr f)))"

text \<open>The end of a line: \<open>fs\<close> are the fields read so far.\<close>

definition recipe_line_end :: "nat \<Rightarrow> string \<Rightarrow> field list \<Rightarrow> (recipe_error + field list) option" where
  "recipe_line_end n line fs =
     (if length fs > 1000 then Some (Inl (Too_many_fields n))
      else if line \<noteq> [] \<and> hd line \<noteq> CHR ''#''
      then (case recipe_line n line of
              None \<Rightarrow> None
            | Some (Inl e) \<Rightarrow> Some (Inl e)
            | Some (Inr f) \<Rightarrow> Some (Inr (fs @ [f])))
      else Some (Inr fs))"

definition is_eol :: "char \<Rightarrow> bool" where
  "is_eol c \<longleftrightarrow> c = CHR 0x0A \<or> c = CHR 0x0D"

fun recipe_lines :: "nat \<Rightarrow> string \<Rightarrow> field list \<Rightarrow> string \<Rightarrow> (recipe_error + field list) option" where
  "recipe_lines n line fs [] =
     (if length line > 16380 then Some (Inl (Line_too_long n)) else recipe_line_end n line fs)"
| "recipe_lines n line fs (x # buf) =
     (if length line > 16380 then Some (Inl (Line_too_long n))
      else if is_eol x
      then (case recipe_line_end n line fs of
              None \<Rightarrow> None
            | Some (Inl e) \<Rightarrow> Some (Inl e)
            | Some (Inr fs') \<Rightarrow> recipe_lines (n + 1) [] fs' buf)
      else recipe_lines n (line @ [x]) fs buf)"

definition recipe_read :: "(nat \<Rightarrow> u8) \<Rightarrow> string \<Rightarrow> string \<Rightarrow> (recipe_error + recipe) option" where
  "recipe_read junk name buffer =
     (if length buffer < 1 \<or> length buffer > 1048576 then Some (Inl Recipe_size)
      else do {
        (hash, form_name) \<leftarrow> recipe_form_hash junk name;
        fs \<leftarrow> recipe_lines 1 [] [] buffer;
        (case fs of
           Inl e \<Rightarrow> Some (Inl e)
         | Inr fs \<Rightarrow> Some (Inr \<lparr>formhash = hash, formname = form_name, field_list = fs, field_count = length fs\<rparr>)) })"

section \<open>Records\<close>

text \<open>The fields of a record: a key with its value, or a sub-record. The length of the list is \<^verbatim>\<open>field_count\<close>.\<close>

datatype record_field = Key_value string string | Subrecord "record_field list"

abbreviation (input) MAX_FIELDS :: nat where "MAX_FIELDS \<equiv> 1024"

datatype record_error =
    Too_many_lines nat
  | Unmatched_close nat
  | No_question nat
  | Malformed_line nat
  | Missing_close nat

text \<open>The parser's position: the fields of the current record and those of the records around it, innermost first. A
  record is attached to the record around it when it is closed; the C code reserves its place when it is
  opened, and nothing is added to the outer record in between.\<close>

type_synonym record_stack = "record_field list \<times> record_field list list"

definition has_question :: "record_field list \<Rightarrow> bool" where
  "has_question fs = list_ex (\<lambda>f. case f of Key_value k v \<Rightarrow> k = ''question'' | Subrecord _ \<Rightarrow> False) fs"

text \<open>The format \<^verbatim>\<open>%[^=]=%[^\n]\<close> with both conversions.\<close>

definition scan_key_value :: "string \<Rightarrow> (string \<times> string) option" where
  "scan_key_value s = do {
     (k, s) \<leftarrow> scan_not (CHR ''='') s;
     s \<leftarrow> scan_lit (CHR ''='') s;
     (v, _) \<leftarrow> scan_not (CHR 0x0A) s;
     Some (k, v) }"

definition record_line :: "nat \<Rightarrow> string \<Rightarrow> record_stack \<Rightarrow> record_error + record_stack" where
  "record_line n line0 st =
     (let line = (if length line0 \<ge> 1000 then [] else line0); (cur, outer) = st
      in if line \<noteq> [] \<and> hd line = CHR ''{'' then
           if length cur \<ge> MAX_FIELDS then Inl (Too_many_lines n) else Inr ([], cur # outer)
         else if line \<noteq> [] \<and> hd line = CHR ''}'' then
           (case outer of
              [] \<Rightarrow> Inl (Unmatched_close n)
            | parent # outer' \<Rightarrow>
                if \<not> has_question cur \<and> \<not> has_question parent then Inl (No_question n)
                else Inr (parent @ [Subrecord cur], outer'))
         else if line \<noteq> [] \<and> hd line \<noteq> CHR ''#'' then
           (case scan_key_value (c_str line) of
              None \<Rightarrow> Inl (Malformed_line n)
            | Some (k, v) \<Rightarrow>
                if length cur \<ge> MAX_FIELDS then Inl (Too_many_lines n)
                else Inr (cur @ [Key_value k v], outer))
         else Inr (cur, outer))"

fun record_lines :: "nat \<Rightarrow> string \<Rightarrow> record_stack \<Rightarrow> string \<Rightarrow> record_error + (nat \<times> record_stack)" where
  "record_lines n line st [] =
     (case record_line n line st of Inl e \<Rightarrow> Inl e | Inr st' \<Rightarrow> Inr (n + 1, st'))"
| "record_lines n line st (x # inp) =
     (if is_eol x
      then (case record_line n line st of Inl e \<Rightarrow> Inl e | Inr st' \<Rightarrow> record_lines (n + 1) [] st' inp)
      else record_lines n (line @ [x]) st inp)"

definition parse_stripped_with_subforms :: "string \<Rightarrow> record_error + record_field list" where
  "parse_stripped_with_subforms inp =
     (case record_lines 1 [] ([], []) inp of
        Inl e \<Rightarrow> Inl e
      | Inr (n, (cur, outer)) \<Rightarrow> if outer \<noteq> [] then Inl (Missing_close n) else Inr cur)"

end
