(* ===== verification/Dexml.thy ===== *)
theory Dexml
  imports Recipe
begin

text \<open>
  \<^verbatim>\<open>forms/dexml.c\<close>: filled-in forms between XML and the stripped text of \<^verbatim>\<open>key=value\<close> lines. \<^verbatim>\<open>xml2stripped\<close> is a loop over
  the characters of the XML text with a handful of variables, here the record \<open>strip_state\<close>; \<^verbatim>\<open>stripped2xml\<close> reads the fields
  of a stripped text (\<open>read_state\<close>) and fills them into a template (\<open>fill_state\<close>). \<open>None\<close> stands for an access
  outside a buffer; \<open>Inl (-1)\<close> for the value -1 returned on an error.
\<close>

section \<open>From XML to the stripped text\<close>

text \<open>\<open>tag\<close> is the last complete tag, \<open>tag_acc\<close> the first \<^verbatim>\<open>taglen\<close> characters of the one being read, and \<open>stripped\<close> everything that was
  printed, whether or not there was room for it.\<close>

record strip_state =
  in_subform :: int
  tag :: string
  tag_acc :: string
  val :: string
  in_instance :: int
  interesting_tag :: bool
  state :: bool
  exit_tag :: string
  stripped :: string

definition strip_start :: strip_state where
  "strip_start = \<lparr>in_subform = 0, tag = [], tag_acc = [], val = [], in_instance = 0, interesting_tag = False, state = False,
     exit_tag = [], stripped = []\<rparr>"

text \<open>\<^verbatim>\<open>snprintf\<close> with the room that is left; once more than \<open>limit\<close> characters were printed this is a negative number, which is taken for a
  huge one.\<close>

definition print_stripped :: "nat \<Rightarrow> string \<Rightarrow> strip_state \<Rightarrow> strip_state option" where
  "print_stripped limit text st = (if length (stripped st) > limit then None else Some (st\<lparr>stripped := stripped st @ text\<rparr>))"

definition strip_open :: "nat \<Rightarrow> strip_state \<Rightarrow> strip_state option" where
  "strip_open limit st = do {
     let st = st\<lparr>state := True\<rparr>;
     st \<leftarrow> (if interesting_tag st \<and> val st \<noteq> [] then do {
              st \<leftarrow> (if val st = ''~'' \<or> strncasecmp_0 ''dd:subform'' (tag st) 10 then Some st
                     else print_stripped limit (tag st @ ''='' @ c_str (val st) @ [CHR 0x0A]) st);
              Some (st\<lparr>val := []\<rparr>) }
            else Some st);
     Some (st\<lparr>interesting_tag := False\<rparr>) }"

text \<open>Whether a tag, given by its characters, opens or closes elements whose name starts with \<open>name\<close>.\<close>

definition tag_opens :: "string \<Rightarrow> string \<Rightarrow> bool" where
  "tag_opens name acc \<longleftrightarrow> strncasecmp_0 name (c_str acc) (length name)"

definition tag_closes :: "string \<Rightarrow> string \<Rightarrow> bool" where
  "tag_closes name acc \<longleftrightarrow> acc \<noteq> [] \<and> hd acc = CHR ''/'' \<and> strncasecmp_0 name (c_str (tl acc)) (length name)"

definition scan_word :: "string \<Rightarrow> string \<Rightarrow> string option" where
  "scan_word w s = (if take (length w) s = w then Some (drop (length w) s) else None)"

definition scan_s :: "string \<Rightarrow> (string \<times> string) option" where
  "scan_s s = (let s = dropWhile is_space s; a = takeWhile (\<lambda>c. \<not> is_space c) s in if a = [] then None else Some (a, drop (length a) s))"

text \<open>The format \<^verbatim>\<open>%s id="%[^"]" version="%[^"]"\<close>: name and version.\<close>

definition scan_odk :: "string \<Rightarrow> (string \<times> string) option" where
  "scan_odk t = do {
     (_, r) \<leftarrow> scan_s t;
     r \<leftarrow> scan_word (''id='' @ [CHR 0x22]) (dropWhile is_space r);
     (name, r) \<leftarrow> scan_not (CHR 0x22) r;
     r \<leftarrow> scan_lit (CHR 0x22) r;
     r \<leftarrow> scan_word (''version='' @ [CHR 0x22]) (dropWhile is_space r);
     (version, _) \<leftarrow> scan_not (CHR 0x22) r;
     Some (name, version) }"

definition odk_tag :: "nat \<Rightarrow> string \<Rightarrow> strip_state \<Rightarrow> strip_state option" where
  "odk_tag limit acc st = do {
     let t = c_str acc;
     st \<leftarrow> (if in_instance st \<noteq> 0 then Some st
            else do {
              let st = (case scan_s t of None \<Rightarrow> st | Some (e, _) \<Rightarrow> st\<lparr>exit_tag := e\<rparr>);
              (case scan_odk t of
                 None \<Rightarrow> Some st
               | Some (name, version) \<Rightarrow> do {
                   st \<leftarrow> print_stripped limit (''formid='' @ name @ ''.'' @ version @ [CHR 0x0A]) st;
                   Some (st\<lparr>in_instance := in_instance st + 1\<rparr>) }) });
     Some (if in_instance st \<noteq> 0 \<and> exit_tag st \<noteq> [] \<and> hd acc = CHR ''/'' \<and> strcasecmp_0 (c_str (tl acc)) (exit_tag st)
           then st\<lparr>in_instance := in_instance st - 1\<rparr> else st) }"

definition subform_tag :: "nat \<Rightarrow> string \<Rightarrow> strip_state \<Rightarrow> strip_state option" where
  "subform_tag limit acc st = do {
     st \<leftarrow> (if tag_opens ''dd:subform'' acc
            then print_stripped limit (''{'' @ [CHR 0x0A]) (st\<lparr>in_subform := in_subform st + 1\<rparr>) else Some st);
     st \<leftarrow> (if tag_closes ''dd:subform'' acc
            then print_stripped limit (''}'' @ [CHR 0x0A]) (st\<lparr>in_subform := in_subform st - 1\<rparr>) else Some st);
     st \<leftarrow> (if tag_opens ''data'' acc \<and> in_subform st \<noteq> 0 then print_stripped limit (''{'' @ [CHR 0x0A]) st else Some st);
     (if tag_closes ''data'' acc \<and> in_subform st \<noteq> 0 then print_stripped limit (''}'' @ [CHR 0x0A]) st else Some st) }"

text \<open>\<^verbatim>\<open>in_instance\<close> after a tag whose name starts like that of the form.\<close>

definition instance_tag :: "string \<Rightarrow> string \<Rightarrow> strip_state \<Rightarrow> strip_state" where
  "instance_tag name acc st =
     (let st = (if tag_opens name acc then st\<lparr>in_instance := in_instance st + 1\<rparr> else st)
      in if tag_closes name acc then st\<lparr>in_instance := in_instance st - 1\<rparr> else st)"

definition strip_close :: "string option \<Rightarrow> nat \<Rightarrow> strip_state \<Rightarrow> strip_state option" where
  "strip_close form_name limit st =
     (if tag_acc st = [] then Some (st\<lparr>state := False\<rparr>)
      else do {
        let acc = tag_acc st;
        let st = st\<lparr>tag := c_str acc,
                    interesting_tag := hd acc \<noteq> CHR ''/'' \<and> in_instance st \<noteq> 0 \<and> last acc \<noteq> CHR ''/''\<rparr>;
        st \<leftarrow> (case form_name of
                 None \<Rightarrow> do { st \<leftarrow> subform_tag limit acc (instance_tag ''form'' acc st); odk_tag limit acc st }
               | Some f \<Rightarrow> Some (instance_tag f acc st));
        Some (st\<lparr>tag_acc := [], state := False\<rparr>) })"

definition strip_char :: "char \<Rightarrow> strip_state \<Rightarrow> strip_state" where
  "strip_char c st =
     (let st = (if state st \<and> length (tag_acc st) < 1000 then st\<lparr>tag_acc := tag_acc st @ [c]\<rparr> else st)
      in if interesting_tag st \<and> (val st \<noteq> [] \<or> c \<noteq> CHR '' '') \<and> length (val st) < 1000
         then st\<lparr>val := val st @ [c]\<rparr> else st)"

definition strip_step :: "string option \<Rightarrow> nat \<Rightarrow> char \<Rightarrow> strip_state \<Rightarrow> strip_state option" where
  "strip_step form_name limit c st =
     (if c = CHR 0x0A \<or> c = CHR 0x0D then Some st
      else if c = CHR ''<'' then strip_open limit st
      else if c = CHR ''>'' then strip_close form_name limit st
      else Some (strip_char c st))"

fun strip_loop :: "string option \<Rightarrow> nat \<Rightarrow> string \<Rightarrow> strip_state \<Rightarrow> strip_state option" where
  "strip_loop form_name limit [] st = Some st"
| "strip_loop form_name limit (c # cs) st = Option.bind (strip_step form_name limit c st) (strip_loop form_name limit cs)"

text \<open>Where \<^verbatim>\<open>char\<close> is signed, a byte from 0x80 to 0xfe is less than -1 and ends the loop. The last character is never looked at. The
  result is the number of characters printed and the string in the buffer.\<close>

definition char_value :: "bool \<Rightarrow> char \<Rightarrow> int" where
  "char_value sgn_char c = (let n = of_char c :: int in if sgn_char \<and> n \<ge> 128 then n - 256 else n)"

definition xml2stripped :: "bool \<Rightarrow> string option \<Rightarrow> string \<Rightarrow> nat \<Rightarrow> (nat \<times> string) option" where
  "xml2stripped sgn_char form_name xml limit =
     map_option (\<lambda>st. (length (stripped st), take (limit - 1) (stripped st)))
       (strip_loop form_name limit (takeWhile (\<lambda>c. char_value sgn_char c \<ge> -1) (butlast xml)) strip_start)"

section \<open>From the stripped text to XML\<close>

subsection \<open>Reading the fields\<close>

text \<open>A field: its name, until it is used, its value, whether it belongs to a record of a sub-form, and to which.\<close>

record fill_field =
  fieldname :: "string option"
  fieldvalue :: string
  in_subform_record :: bool
  record_number_field :: nat

record read_state =
  read_value :: bool
  state_in_subform_record :: bool
  state_in_subform_instance :: bool
  record_count :: "nat list"
  record_number :: nat
  fill_fields :: "fill_field list"
  field_acc :: string
  value_acc :: string

definition read_start :: read_state where
  "read_start = \<lparr>read_value = False, state_in_subform_record = False, state_in_subform_instance = False,
     record_count = replicate 1024 0, record_number = 0, fill_fields = [], field_acc = [], value_acc = []\<rparr>"

definition read_step :: "bool \<Rightarrow> char \<Rightarrow> read_state \<Rightarrow> (int + read_state) option" where
  "read_step sgn_char c st =
     (if c = CHR ''='' \<and> \<not> read_value st then Some (Inr (st\<lparr>read_value := True\<rparr>))
      else if c = CHR ''{'' then
        if \<not> state_in_subform_instance st then Some (Inr (st\<lparr>state_in_subform_instance := True\<rparr>))
        else let n = record_number st
             in if n \<ge> 1024 then None
                else Some (Inr (st\<lparr>record_count := (record_count st)[n := record_count st ! n + 1], state_in_subform_record := True\<rparr>))
      else if c = CHR ''}'' then
        if state_in_subform_record st then Some (Inr (st\<lparr>state_in_subform_record := False\<rparr>))
        else Some (Inr (st\<lparr>state_in_subform_instance := False, record_number := record_number st + 1\<rparr>))
      else if char_value sgn_char c < 32 then
        if read_value st \<and> (length (fill_fields st) \<ge> 1024 \<or> record_number st \<ge> 1024) then None
        else let fs = (if read_value st
                       then fill_fields st @ [\<lparr>fieldname = Some (c_str (field_acc st)), fieldvalue = c_str (value_acc st),
                              in_subform_record = state_in_subform_record st, record_number_field = record_number st\<rparr>]
                       else fill_fields st)
             in Some (Inr (st\<lparr>fill_fields := fs, read_value := False, field_acc := [], value_acc := []\<rparr>))
      else if length (field_acc st) > 1000 \<or> length (value_acc st) > 1000 then Some (Inl (-1))
      else if \<not> read_value st then Some (Inr (st\<lparr>field_acc := field_acc st @ [c]\<rparr>))
      else Some (Inr (st\<lparr>value_acc := value_acc st @ [c]\<rparr>)))"

fun read_loop :: "bool \<Rightarrow> string \<Rightarrow> read_state \<Rightarrow> (int + read_state) option" where
  "read_loop sgn_char [] st = Some (Inr st)"
| "read_loop sgn_char (c # cs) st =
     (case read_step sgn_char c st of
        None \<Rightarrow> None
      | Some (Inl e) \<Rightarrow> Some (Inl e)
      | Some (Inr st') \<Rightarrow> read_loop sgn_char cs st')"

subsection \<open>Filling the template\<close>

record fill_state =
  xml :: string
  state_field :: bool
  state_tag :: bool
  fill_field_acc :: string
  fill_tag_acc :: string
  fill_in_instance :: bool
  fill_in_record :: bool
  beginning_index :: int
  remaining_records :: bool
  records_written :: nat
  live_fields :: "fill_field list"

definition fill_start :: "fill_field list \<Rightarrow> fill_state" where
  "fill_start fs = \<lparr>xml = [], state_field = False, state_tag = False, fill_field_acc = [], fill_tag_acc = [],
     fill_in_instance = False, fill_in_record = False, beginning_index = 0, remaining_records = False, records_written = 0,
     live_fields = fs\<rparr>"

text \<open>\<^verbatim>\<open>xml[xml_ofs++] = c\<close>, and the same followed by the test for a full buffer.\<close>

definition put_xml :: "nat \<Rightarrow> char \<Rightarrow> fill_state \<Rightarrow> fill_state option" where
  "put_xml limit c st = (if length (xml st) \<ge> limit then None else Some (st\<lparr>xml := xml st @ [c]\<rparr>))"

fun put_checked :: "nat \<Rightarrow> string \<Rightarrow> fill_state \<Rightarrow> (int + fill_state) option" where
  "put_checked limit [] st = Some (Inr st)"
| "put_checked limit (c # cs) st =
     (case put_xml limit c st of
        None \<Rightarrow> None
      | Some st' \<Rightarrow> if length (xml st') = limit then Some (Inl (-1)) else put_checked limit cs st')"

text \<open>The position of the first unused field of a name.\<close>

fun find_field :: "string \<Rightarrow> fill_field list \<Rightarrow> nat option" where
  "find_field name [] = None"
| "find_field name (f # fs) =
     (if (case fieldname f of None \<Rightarrow> False | Some n \<Rightarrow> strcasecmp_0 name n) then Some 0 else map_option Suc (find_field name fs))"

definition end_variable :: "nat list \<Rightarrow> nat \<Rightarrow> fill_state \<Rightarrow> (int + fill_state) option" where
  "end_variable counts limit st =
     (let name = c_str (fill_field_acc st); st = st\<lparr>fill_field_acc := []\<rparr>
      in case find_field name (live_fields st) of
           None \<Rightarrow> Some (Inr (st\<lparr>state_field := False\<rparr>))
         | Some j \<Rightarrow>
             (let f = live_fields st ! j
              in case put_checked limit (fieldvalue f) st of
                   None \<Rightarrow> None
                 | Some (Inl e) \<Rightarrow> Some (Inl e)
                 | Some (Inr st) \<Rightarrow>
                     (let more = in_subform_record f \<and> int (counts ! record_number_field f) - int (records_written st) > 1
                      in Some (Inr (st\<lparr>remaining_records := (more \<or> remaining_records st), state_field := False,
                           live_fields := (live_fields st)[j := f\<lparr>fieldname := None\<rparr>]\<rparr>)))))"

text \<open>The end of a tag; the result is where to go on and the state.\<close>

definition end_tag :: "int \<Rightarrow> fill_state \<Rightarrow> int \<times> fill_state" where
  "end_tag i st =
     (let acc = fill_tag_acc st; st = st\<lparr>fill_tag_acc := [], state_tag := False\<rparr>
      in if tag_opens ''dd:subform'' acc then (i, st\<lparr>fill_in_instance := True\<rparr>)
         else if tag_closes ''dd:subform'' acc
         then (i, st\<lparr>fill_in_instance := False, fill_in_record := False, records_written := 0, beginning_index := 0\<rparr>)
         else if tag_opens ''data'' acc \<and> fill_in_instance st
         then (i, st\<lparr>fill_in_record := True, remaining_records := False, beginning_index := i - 4 - 3\<rparr>)
         else if tag_closes ''data'' acc \<and> fill_in_instance st
         then if remaining_records st
              then (beginning_index st, st\<lparr>records_written := records_written st + 1, remaining_records := False\<rparr>)
              else (i, st\<lparr>fill_in_record := False\<rparr>)
         else (i, st))"

definition fill_step :: "nat list \<Rightarrow> nat \<Rightarrow> char \<Rightarrow> int \<Rightarrow> fill_state \<Rightarrow> (int + int \<times> fill_state) option" where
  "fill_step counts limit c i st =
     (if c = CHR ''<'' then map_option (\<lambda>st'. Inr (i, st')) (put_xml limit c (st\<lparr>state_tag := True\<rparr>))
      else if c = CHR ''>'' then map_option (\<lambda>st'. Inr (end_tag i st')) (put_xml limit c st)
      else if c = CHR ''$'' then
        if state_field st
        then (case end_variable counts limit st of
                None \<Rightarrow> None | Some (Inl e) \<Rightarrow> Some (Inl e) | Some (Inr st') \<Rightarrow> Some (Inr (i, st')))
        else Some (Inr (i, st\<lparr>state_field := True\<rparr>))
      else if state_field st then
        Some (Inr (i, if length (fill_field_acc st) < 1023 then st\<lparr>fill_field_acc := fill_field_acc st @ [c]\<rparr> else st))
      else (case put_xml limit c st of
              None \<Rightarrow> None
            | Some st \<Rightarrow>
                (let st = (if state_tag st \<and> length (fill_tag_acc st) < 1023
                           then st\<lparr>fill_tag_acc := fill_tag_acc st @ [c]\<rparr> else st)
                 in if length (xml st) = limit then Some (Inl (-1)) else Some (Inr (i, st)))))"

text \<open>Going back in the template uses up a field, so the loop ends.\<close>

definition fields_left :: "fill_state \<Rightarrow> nat" where
  "fields_left st = 2 * length (filter (\<lambda>f. fieldname f \<noteq> None) (live_fields st)) + (if remaining_records st then 1 else 0)"

lemma put_xml_keeps: "put_xml limit c st = Some st' \<Longrightarrow> st' = st\<lparr>xml := xml st @ [c]\<rparr>"
  by (auto simp: put_xml_def split: if_splits)

lemma put_checked_keeps: "put_checked limit cs st = Some (Inr st') \<Longrightarrow> st' = st\<lparr>xml := xml st @ cs\<rparr>"
proof (induction cs arbitrary: st)
  case (Cons c cs)
  then obtain st1 where "put_xml limit c st = Some st1" "put_checked limit cs st1 = Some (Inr st')"
    by (auto split: option.splits if_splits)
  with Cons.IH [of st1] put_xml_keeps [of limit c st st1] show ?case by simp
qed simp

lemma find_field_some:
  "find_field name fs = Some j \<Longrightarrow> j < length fs \<and> fieldname (fs ! j) \<noteq> None"
  by (induction fs arbitrary: j) (auto split: if_splits option.splits)

lemma fewer_fields:
  "j < length fs \<Longrightarrow> fieldname (fs ! j) \<noteq> None \<Longrightarrow>
     length (filter (\<lambda>f. fieldname f \<noteq> None) fs) = Suc (length (filter (\<lambda>f. fieldname f \<noteq> None) (fs[j := (fs ! j)\<lparr>fieldname := None\<rparr>])))"
  by (induction fs arbitrary: j) (auto split: nat.splits simp: nth_Cons' gr0_conv_Suc)

lemma end_variable_left: "end_variable counts limit st = Some (Inr st') \<Longrightarrow> fields_left st' \<le> fields_left st"
  by (auto simp: end_variable_def fields_left_def Let_def dest!: put_checked_keeps find_field_some
      dest: fewer_fields split: option.splits sum.splits)

lemma end_tag_left:
  "end_tag i st = (i', st') \<Longrightarrow> fields_left st' < fields_left st \<or> i' = i \<and> fields_left st' \<le> fields_left st"
  by (auto simp: end_tag_def fields_left_def Let_def split: if_splits)

lemma fields_left_xml [simp]:
  "fields_left (st\<lparr>xml := x\<rparr>) = fields_left st" "fields_left (st\<lparr>state_tag := b\<rparr>) = fields_left st"
  "fields_left (st\<lparr>fill_tag_acc := x\<rparr>) = fields_left st" "fields_left (st\<lparr>state_field := b\<rparr>) = fields_left st"
  "fields_left (st\<lparr>fill_field_acc := x\<rparr>) = fields_left st"
  by (simp_all add: fields_left_def)

lemma fill_step_left:
  assumes "fill_step counts limit c i st = Some (Inr (i', st'))"
  shows "fields_left st' < fields_left st \<or> i' = i \<and> fields_left st' \<le> fields_left st"
proof -
  consider "c = CHR ''<''" | "c = CHR ''>''" | "c = CHR ''$''" | "c \<noteq> CHR ''<''" "c \<noteq> CHR ''>''" "c \<noteq> CHR ''$''" by blast
  then show ?thesis
  proof cases
    case 1 with assms show ?thesis by (auto simp: fill_step_def dest!: put_xml_keeps)
  next
    case 2 with assms end_tag_left show ?thesis by (fastforce simp: fill_step_def dest!: put_xml_keeps)
  next
    case 3 with assms end_variable_left [of counts limit st st'] show ?thesis
      by (auto simp: fill_step_def split: if_splits option.splits sum.splits)
  next
    case 4 with assms show ?thesis
      by (auto simp: fill_step_def Let_def dest!: put_xml_keeps split: if_splits option.splits)
  qed
qed

function fill_loop :: "nat list \<Rightarrow> nat \<Rightarrow> string \<Rightarrow> int \<Rightarrow> fill_state \<Rightarrow> (int + fill_state) option" where
  "fill_loop counts limit template i st =
     (if i < 0 then None
      else if i \<ge> int (length template) then Some (Inr st)
      else case fill_step counts limit (template ! nat i) i st of
             None \<Rightarrow> None
           | Some (Inl e) \<Rightarrow> Some (Inl e)
           | Some (Inr (i', st')) \<Rightarrow> fill_loop counts limit template (i' + 1) st')"
  by pat_completeness auto
termination
  by (relation "measures [\<lambda>(counts, limit, template, i, st). fields_left st, \<lambda>(counts, limit, template, i, st). nat (int (length template) - i)]")
    (auto dest: fill_step_left)

declare fill_loop.simps [simp del]

definition stripped2xml :: "bool \<Rightarrow> string \<Rightarrow> string \<Rightarrow> nat \<Rightarrow> (int + string) option" where
  "stripped2xml sgn_char text template limit =
     (case read_loop sgn_char text read_start of
        None \<Rightarrow> None
      | Some (Inl e) \<Rightarrow> Some (Inl e)
      | Some (Inr st) \<Rightarrow>
          (case fill_loop (record_count st) limit template 0 (fill_start (fill_fields st)) of
             None \<Rightarrow> None | Some (Inl e) \<Rightarrow> Some (Inl e) | Some (Inr st') \<Rightarrow> Some (Inr (xml st'))))"

end
