(* ===== verification/RecipeProps.thy ===== *)
theory RecipeProps
  imports Recipe
begin

text \<open>
  Properties of the parsers of \<^verbatim>\<open>forms/recipe.c\<close>: the names of the field types, the form hash, the round trip of
  records and of recipes through their text form, what a recipe that was read satisfies, and the errors of
  unbalanced records.
\<close>

section \<open>Field types\<close>

lemma parse_fieldtype_range: "recipe_parse_fieldtype name = -1 \<or> 0 \<le> recipe_parse_fieldtype name \<and> recipe_parse_fieldtype name \<le> 14"
proof -
  have "\<forall>(n, t) \<in> set fieldtype_names. 0 \<le> t \<and> t \<le> 14" by (simp add: fieldtype_names_def)
  moreover have "(n, t) \<in> set fieldtype_names"
    if "filter (\<lambda>(n, t). strcasecmp_0 name n) fieldtype_names = (n, t) # r" for n t r
    using that by (metis filter_is_subset list.set_intros(1) subsetD)
  ultimately show ?thesis
    by (auto simp: recipe_parse_fieldtype_def split: list.split)
qed

lemma type_cases: "0 \<le> f \<Longrightarrow> f \<le> 14 \<Longrightarrow> f \<in> set [0, 1, 2, 3, 4, 5, 6, 7, 8, 9, 10, 11, 12, 13, 14 :: int]"
  by simp presburger

lemma type_name_parsed:
  assumes "0 \<le> f" "f \<le> 14"
  shows "recipe_parse_fieldtype (recipe_field_type_name f) = f"
proof -
  have low: "list_all (\<lambda>(n, t). map lower n = n) fieldtype_names" by code_simp
  have names: "list_all (\<lambda>f. recipe_field_type_name f \<in> set (map fst fieldtype_names) \<and>
      (case filter (\<lambda>(n, t). n = recipe_field_type_name f) fieldtype_names of [] \<Rightarrow> False | (_, t) # _ \<Rightarrow> t = f))
      [0, 1, 2, 3, 4, 5, 6, 7, 8, 9, 10, 11, 12, 13, 14]" by code_simp
  let ?n = "recipe_field_type_name f"
  have f: "?n \<in> set (map fst fieldtype_names)" "case filter (\<lambda>(n, t). n = ?n) fieldtype_names of [] \<Rightarrow> False | (_, t) # _ \<Rightarrow> t = f"
    using names type_cases [OF assms] by (auto simp only: list_all_iff)
  from f(1) low have "map lower ?n = ?n" by (auto simp: list_all_iff)
  then have "filter (\<lambda>(n, t). strcasecmp_0 ?n n) fieldtype_names = filter (\<lambda>(n, t). n = ?n) fieldtype_names"
    using low by (intro filter_cong) (auto simp: list_all_iff strcasecmp_0_def)
  with f(2) show ?thesis by (auto simp: recipe_parse_fieldtype_def split: list.splits)
qed

text \<open>The names of the field types: every type has a name that is read back as that type, in upper and lower case.\<close>

theorem fieldtype_name_round_trip:
  assumes "0 \<le> f" "f \<le> 14" "map lower name = map lower (recipe_field_type_name f)"
  shows "recipe_parse_fieldtype name = f"
  using type_name_parsed [OF assms(1,2)] assms(3) by (simp add: recipe_parse_fieldtype_def strcasecmp_0_def)

theorem fieldtype_name_round_trip_witness: "recipe_parse_fieldtype ''MagpiUUID'' = 11"
  by (rule fieldtype_name_round_trip) (simp, simp, code_simp)

section \<open>Records as text\<close>

fun field_text :: "record_field \<Rightarrow> string" where
  "field_text (Key_value k v) = k @ ''='' @ v @ [CHR 0x0A]"
| "field_text (Subrecord fs) = ''{'' @ CHR 0x0A # concat (map field_text fs) @ ''}'' @ [CHR 0x0A]"

abbreviation record_text :: "record_field list \<Rightarrow> string" where
  "record_text fs \<equiv> concat (map field_text fs)"

definition plain :: "string \<Rightarrow> bool" where
  "plain s \<longleftrightarrow> CHR 0x00 \<notin> set s \<and> CHR 0x0A \<notin> set s \<and> CHR 0x0D \<notin> set s"

text \<open>Records whose text is readable: keys without an equals sign that cannot be taken for a bracket or a comment, lines of
  fewer than 1000 characters, no more than 1024 fields, and a question in every sub-record or before it.\<close>

definition key_value_ok :: "string \<Rightarrow> string \<Rightarrow> bool" where
  "key_value_ok k v \<longleftrightarrow> plain k \<and> plain v \<and> k \<noteq> [] \<and> v \<noteq> [] \<and> CHR ''='' \<notin> set k \<and>
     hd k \<notin> {CHR ''{'', CHR ''}'', CHR ''#''} \<and> length k + length v + 1 < 1000"

fun field_ok :: "record_field list \<Rightarrow> record_field \<Rightarrow> bool"
  and fields_ok :: "record_field list \<Rightarrow> record_field list \<Rightarrow> bool" where
  "field_ok before (Key_value k v) \<longleftrightarrow> key_value_ok k v"
| "field_ok before (Subrecord gs) \<longleftrightarrow>
     (has_question gs \<or> has_question before) \<and> length gs \<le> 1024 \<and> fields_ok [] gs"
| "fields_ok before [] \<longleftrightarrow> True"
| "fields_ok before (f # fs) \<longleftrightarrow> field_ok before f \<and> fields_ok (before @ [f]) fs"

definition record_ok :: "record_field list \<Rightarrow> bool" where
  "record_ok fs \<longleftrightarrow> length fs \<le> 1024 \<and> fields_ok [] fs"

text \<open>One line of the parser.\<close>

lemma record_lines_line:
  assumes "\<forall>c \<in> set s. \<not> is_eol c"
  shows "record_lines n line st (s @ CHR 0x0A # rest) =
    (case record_line n (line @ s) st of Inl e \<Rightarrow> Inl e | Inr st' \<Rightarrow> record_lines (n + 1) [] st' rest)"
  using assms by (induction s arbitrary: line) (auto simp: is_eol_def)

lemma scan_key_value_print:
  assumes "key_value_ok k v"
  shows "scan_key_value (c_str (k @ ''='' @ v)) = Some (k, v)"
proof -
  have "c_str (k @ ''='' @ v) = k @ CHR ''='' # v"
    using assms by (subst c_str_id) (auto simp: key_value_ok_def plain_def)
  then show ?thesis
    using assms by (simp add: scan_key_value_def scan_not_Some key_value_ok_def plain_def)
qed

lemma record_line_key_value:
  assumes "key_value_ok k v" "length cur < 1024"
  shows "record_line n (k @ ''='' @ v) (cur, outer) = Inr (cur @ [Key_value k v], outer)"
proof -
  have "hd (k @ ''='' @ v) = hd k" "k @ ''='' @ v \<noteq> []" "length (k @ ''='' @ v) < 1000"
    using assms(1) by (auto simp: key_value_ok_def)
  with assms scan_key_value_print [OF assms(1)] show ?thesis
    by (simp add: record_line_def key_value_ok_def del: append_Cons append.simps)
qed

lemma plain_no_eol: "plain s \<Longrightarrow> \<forall>c \<in> set s. \<not> is_eol c"
  by (auto simp: plain_def is_eol_def)

lemma record_lines_print:
  "field_ok cur f \<Longrightarrow> length cur < 1024 \<Longrightarrow>
     \<exists>n'. record_lines n [] (cur, outer) (field_text f @ rest) = record_lines n' [] (cur @ [f], outer) rest"
  "fields_ok cur fs \<Longrightarrow> length cur + length fs \<le> 1024 \<Longrightarrow>
     \<exists>n'. record_lines n [] (cur, outer) (record_text fs @ rest) = record_lines n' [] (cur @ fs, outer) rest"
proof (induction cur f and cur fs arbitrary: n outer rest and n outer rest rule: field_ok_fields_ok.induct)
  case (1 before k v)
  then have "\<forall>c \<in> set (k @ ''='' @ v). \<not> is_eol c"
    using plain_no_eol [of k] plain_no_eol [of v] by (auto simp: key_value_ok_def is_eol_def)
  from record_lines_line [OF this, of n "[]"] record_line_key_value [of k v before n outer] 1
  show ?case by (intro exI [of _ "n + 1"]) simp
next
  case (2 before gs)
  have opens: "record_lines n [] (before, outer) (CHR ''{'' # CHR 0x0A # r) = record_lines (n + 1) [] ([], before # outer) r" for r
    using record_lines_line [of "''{''" n "[]"] 2(3) by (simp add: is_eol_def record_line_def)
  obtain n1 where inner: "record_lines (n + 1) [] ([], before # outer) (record_text gs @ ''}'' @ CHR 0x0A # rest) =
      record_lines n1 [] (gs, before # outer) (''}'' @ CHR 0x0A # rest)"
    using 2(1) [of "n + 1" "before # outer" "''}'' @ CHR 0x0A # rest"] 2(2) by auto
  have "record_lines n1 [] (gs, before # outer) (''}'' @ CHR 0x0A # rest) =
      record_lines (n1 + 1) [] (before @ [Subrecord gs], outer) rest"
    using record_lines_line [of "''}''" n1 "[]"] 2(2) by (auto simp: is_eol_def record_line_def)
  with opens inner show ?case by (intro exI [of _ "n1 + 1"]) simp
next
  case (4 before f fs)
  obtain n1 where "record_lines n [] (before, outer) (field_text f @ record_text fs @ rest) =
      record_lines n1 [] (before @ [f], outer) (record_text fs @ rest)"
    using 4(1) [of n outer "record_text fs @ rest"] 4(3,4) by auto
  moreover obtain n2 where "record_lines n1 [] (before @ [f], outer) (record_text fs @ rest) =
      record_lines n2 [] (before @ [f] @ fs, outer) rest"
    using 4(2) [of n1 outer rest] 4(3,4) by auto
  ultimately show ?case by auto
qed auto

lemma record_parsed:
  assumes "record_ok fs"
  shows "parse_stripped_with_subforms (record_text fs) = Inr fs"
proof -
  obtain n where "record_lines 1 [] ([], []) (record_text fs @ []) = record_lines n [] ([] @ fs, []) []"
    using record_lines_print(2) [of "[]" fs 1 "[]" "[]"] assms by (auto simp: record_ok_def)
  then show ?thesis by (simp add: parse_stripped_with_subforms_def record_line_def)
qed

text \<open>(C11) Round trip of filled-in forms: the text of a record, sub-records included, is parsed to that record.\<close>

theorem record_round_trip:
  assumes "record_ok fs"
  shows "parse_stripped_with_subforms (record_text fs) = Inr fs"
  using assms by (rule record_parsed)

definition sample_record :: "record_field list" where
  "sample_record = [Key_value ''formid'' ''7'', Key_value ''question'' ''crops'',
     Subrecord [Key_value ''formid'' ''8'', Subrecord [Key_value ''question'' ''which'', Key_value ''area'' ''2.5'']]]"

theorem record_round_trip_witness:
  "parse_stripped_with_subforms (record_text sample_record) = Inr sample_record"
proof (rule record_round_trip)
  show "record_ok sample_record"
    by (simp add: record_ok_def sample_record_def key_value_ok_def plain_def has_question_def)
qed

text \<open>Unbalanced records are refused: a closing bracket after the text of a record is reported as unmatched, and
  an opening one as not closed.\<close>

theorem record_unbalanced:
  assumes "record_ok fs" "length fs < 1024"
  shows "\<exists>n n'. parse_stripped_with_subforms (record_text fs @ ''}'') = Inl (Unmatched_close n) \<and>
     parse_stripped_with_subforms (record_text fs @ ''{'') = Inl (Missing_close n')"
proof -
  have "\<exists>n. record_lines 1 [] ([], []) (record_text fs @ r) = record_lines n [] (fs, []) r" for r
    using record_lines_print(2) [of "[]" fs 1 "[]" r] assms(1) by (auto simp: record_ok_def)
  then obtain n n' where
    "record_lines 1 [] ([], []) (record_text fs @ ''}'') = record_lines n [] (fs, []) ''}''"
    "record_lines 1 [] ([], []) (record_text fs @ ''{'') = record_lines n' [] (fs, []) ''{''" by metis
  then show ?thesis using assms(2)
    by (simp add: parse_stripped_with_subforms_def record_line_def is_eol_def)
qed

theorem record_unbalanced_witness:
  "\<exists>n n'. parse_stripped_with_subforms (record_text [Key_value ''a'' ''b''] @ ''}'') = Inl (Unmatched_close n) \<and>
     parse_stripped_with_subforms (record_text [Key_value ''a'' ''b''] @ ''{'') = Inl (Missing_close n')"
  by (rule record_unbalanced) (simp_all add: record_ok_def key_value_ok_def plain_def)

section \<open>The form hash\<close>

lemma last_component:
  assumes "CHR ''/'' \<notin> set b"
  shows "takeWhile (\<lambda>c. c \<noteq> CHR ''/'') (rev (dir @ CHR ''/'' # b)) = rev b"
    "takeWhile (\<lambda>c. c \<noteq> CHR ''/'') (rev b) = rev b"
proof -
  have r: "rev (dir @ CHR ''/'' # b) = rev b @ CHR ''/'' # rev dir" by simp
  show "takeWhile (\<lambda>c. c \<noteq> CHR ''/'') (rev (dir @ CHR ''/'' # b)) = rev b"
    unfolding r using assms by (subst takeWhile_append2) auto
  show "takeWhile (\<lambda>c. c \<noteq> CHR ''/'') (rev b) = rev b"
    using assms by (auto simp: takeWhile_eq_all_conv)
qed

lemma form_basename_path:
  assumes "CHR ''/'' \<notin> set name" "CHR 0x00 \<notin> set name" "length name < 1000"
  shows "form_basename (dir @ ''/'' @ name @ ''.recipe'') = Some name"
proof -
  let ?p = "dir @ ''/'' @ name @ ''.recipe''"
  have "CHR ''/'' \<notin> set (name @ ''.recipe'')" using assms(1) by simp
  note t = last_component(1) [OF this, of dir]
  have l: "length ?p = length dir + 1 + length name + 7" by simp
  have suffix: "drop (length ?p - 7) ?p = ''.recipe''" by simp
  have start: "length ?p - length (takeWhile (\<lambda>c. c \<noteq> CHR ''/'') (rev ?p)) = length dir + 1"
    using t by simp
  have "take (length name) (drop (length dir + 1) (?p @ [CHR 0x00])) = name" by simp
  moreover have "nat (int (length ?p) - 7 - 1 - int (length dir + 1) + 1) = length name" by simp
  ultimately show ?thesis
    using assms(2,3) unfolding form_basename_def Let_def start suffix by (simp add: l c_str_id nat_add_distrib)
qed

lemma form_basename_name:
  assumes "CHR ''/'' \<notin> set name" "CHR 0x00 \<notin> set name" "length name < 1000"
    and "\<not> strcasecmp_0 ''.recipe'' (drop (length name - 7) name)"
  shows "form_basename name = Some name"
proof -
  have "c_str (name @ [CHR 0x00]) = name"
    using assms(2) by (simp add: c_str_def takeWhile_tail takeWhile_eq_all_conv takeWhile_append)
  moreover have "length name - length (takeWhile (\<lambda>c. c \<noteq> CHR ''/'') (rev name)) = 0"
    by (simp only: last_component(2) [OF assms(1)]) simp
  ultimately show ?thesis
    using assms(3,4) by (simp only: form_basename_def Let_def) simp
qed

lemma recipe_form_hash_eq:
  "recipe_form_hash junk f = map_option (\<lambda>name. (take 6 (md5_digest (bytes_of ''SMAC Binary Format v2'' @ bytes_of name)), name))
     (form_basename f)"
  using md5.pieces_digest [of junk "[bytes_of ''SMAC Binary Format v2'', bytes_of _]"]
  by (simp add: recipe_form_hash_def Let_def map_conv_bind_option comp_def)

text \<open>The hash of a form is that of its name: directory and extension of the recipe file do not enter it, and
  neither does the uninitialised memory of the hash context.\<close>

theorem form_hash_basename:
  assumes "CHR ''/'' \<notin> set name" "CHR 0x00 \<notin> set name" "length name < 1000"
    and "\<not> strcasecmp_0 ''.recipe'' (drop (length name - 7) name)"
  shows "recipe_form_hash junk (dir @ ''/'' @ name @ ''.recipe'') = recipe_form_hash junk' name"
  unfolding recipe_form_hash_eq form_basename_path [OF assms(1-3)] form_basename_name [OF assms] ..

theorem form_hash_basename_witness:
  "recipe_form_hash (\<lambda>_. 1) (''forms/a'' @ ''/'' @ ''census.2'' @ ''.recipe'') = recipe_form_hash (\<lambda>_. 9) ''census.2''"
proof (rule form_hash_basename)
  show "\<not> strcasecmp_0 ''.recipe'' (drop (length ''census.2'' - 7) ''census.2'')" by code_simp
qed simp_all

section \<open>What a recipe that was read satisfies\<close>

definition enum_type :: "int \<Rightarrow> bool" where
  "enum_type t \<longleftrightarrow> t = FIELDTYPE_ENUM \<or> t = FIELDTYPE_MULTISELECT"

text \<open>A field as the encoder needs it: a known type, and between 1 and 32 values of fewer than 1024 characters exactly when it
  is an enumeration.\<close>

definition field_wf :: "field \<Rightarrow> bool" where
  "field_wf f \<longleftrightarrow> field_name f \<noteq> [] \<and> 0 \<le> field_type f \<and> field_type f \<le> 14 \<and>
     enum_count f = int (length (enum_value f)) \<and>
     (if enum_type (field_type f) then 1 \<le> enum_count f \<and> enum_count f \<le> 32 \<and> (\<forall>v \<in> set (enum_value f). length v < 1024)
      else enum_count f = 0)"

lemma enum_values_wf:
  assumes "enum_values n cur vals s = Some (Inr vs)" "\<forall>v \<in> set vals. length v < 1024" "length vals \<le> 32"
  shows "1 \<le> length vs \<and> length vs \<le> 32 \<and> (\<forall>v \<in> set vs. length v < 1024)"
  using assms by (induction n cur vals s rule: enum_values.induct) (auto split: if_splits)

lemma scan_field_name: "scan_field s = Some (name, r) \<Longrightarrow> name \<noteq> []"
  by (auto simp: scan_field_def scan_not_def Let_def split: Option.bind_splits if_splits)

lemma recipe_line_wf:
  assumes "recipe_line n line = Some (Inr f)"
  shows "field_wf f"
proof -
  obtain name type mn mx prec ev where s: "scan_field (c_str line) = Some (name, type, mn, mx, prec, ev)"
    using assms by (auto simp: recipe_line_def split: option.splits)
  note t = parse_fieldtype_range [of type]
  show ?thesis
    using assms s t scan_field_name [OF s] enum_values_wf [of n "[]" "[]" ev]
    by (auto simp: recipe_line_def Let_def field_wf_def enum_type_def split: if_splits option.splits sum.splits)
qed

lemma recipe_line_end_wf:
  assumes "recipe_line_end n line fs = Some (Inr fs')" "\<forall>f \<in> set fs. field_wf f" "length fs \<le> 1001"
  shows "(\<forall>f \<in> set fs'. field_wf f) \<and> length fs' \<le> 1001"
  using assms recipe_line_wf [of n line]
  by (auto simp: recipe_line_end_def split: if_splits option.splits sum.splits)

lemma recipe_lines_wf:
  assumes "recipe_lines n line fs buf = Some (Inr fs')" "\<forall>f \<in> set fs. field_wf f" "length fs \<le> 1001"
  shows "(\<forall>f \<in> set fs'. field_wf f) \<and> length fs' \<le> 1001"
  using assms
proof (induction n line fs buf rule: recipe_lines.induct)
  case (1 n line fs)
  then show ?case using recipe_line_end_wf [of n line fs fs'] by (auto split: if_splits)
next
  case (2 n line fs x buf)
  show ?case
  proof (cases "is_eol x")
    case True
    with "2.prems"(1) obtain fs1 where fs1: "recipe_line_end n line fs = Some (Inr fs1)"
      "recipe_lines (n + 1) [] fs1 buf = Some (Inr fs')" "\<not> 16380 < length line"
      by (auto split: if_splits option.splits sum.splits)
    from recipe_line_end_wf [OF fs1(1) "2.prems"(2,3)] "2.IH"(1) [OF fs1(3) True fs1(1)] fs1(2) show ?thesis by blast
  next
    case False
    with 2 show ?thesis by (auto split: if_splits)
  qed
qed

lemma length_md5_digest: "length (md5_digest m) = 16"
  by (simp add: md5_digest_def md5_output_def store32_le_def split: prod.split)

text \<open>(C34) What a recipe that was read satisfies: six bytes of hash, at most 1001 fields, as many as are counted, each with a
  known type and, for enumerations, between 1 and 32 values that fit the encoder's buffers.\<close>

theorem recipe_read_wf:
  assumes "recipe_read junk name buf = Some (Inr r)"
  shows "length (formhash r) = 6 \<and> field_count r = length (field_list r) \<and> field_count r \<le> 1001 \<and>
    (\<forall>f \<in> set (field_list r). field_wf f)"
  using assms recipe_lines_wf [of 1 "[]" "[]" buf]
  by (auto simp: recipe_read_def recipe_form_hash_eq length_md5_digest split: if_splits Option.bind_splits sum.splits)

theorem recipe_read_wf_witness:
  "\<exists>r. recipe_read (\<lambda>_. 0) ''f.recipe'' ''crop:enum:0:0:0:rice,maize'' = Some (Inr r) \<and> length (formhash r) = 6 \<and>
     field_count r = 1 \<and> (\<forall>f \<in> set (field_list r). field_wf f)"
proof -
  have b: "form_basename ''f.recipe'' = Some ''f''" by code_simp
  have t: "recipe_parse_fieldtype ''enum'' = 10" by code_simp
  have l: "recipe_lines 1 [] [] ''crop:enum:0:0:0:rice,maize'' = Some (Inr [\<lparr>field_name = ''crop'', field_type = 10, minimum = 0,
      maximum = 0, precision = 0, enum_value = [''rice'', ''maize''], enum_count = 2\<rparr>])"
    using t by (simp add: is_eol_def recipe_line_end_def recipe_line_def c_str_def scan_field_def scan_not_def scan_lit_def
        scan_d_def scan_number_def is_space_def is_digit_def digits_value_def digit_value_def saturate64_def to_int32_def)
  have "\<exists>r. recipe_read (\<lambda>_. 0) ''f.recipe'' ''crop:enum:0:0:0:rice,maize'' = Some (Inr r) \<and> field_count r = 1"
    unfolding recipe_read_def recipe_form_hash_eq b l by simp
  then obtain r where r: "recipe_read (\<lambda>_. 0) ''f.recipe'' ''crop:enum:0:0:0:rice,maize'' = Some (Inr r)" "field_count r = 1"
    by blast
  from recipe_read_wf [OF r(1)] r show ?thesis by blast
qed

end
