(* ===== verification/DexmlProps.thy ===== *)
theory DexmlProps
  imports Dexml RecipeProps
begin

text \<open>
  What the two directions of \<^verbatim>\<open>forms/dexml.c\<close> compute: the XML text of a filled-in form is reduced to exactly the stripped text of the form,
  and a template is filled by replacing each variable with the value of the first unused field of that name.
\<close>

section \<open>The XML text of a form\<close>

definition subform_name :: "bool \<Rightarrow> string" where
  "subform_name inner = (if inner then ''data'' else ''dd:subform'')"

fun field_xml :: "bool \<Rightarrow> record_field \<Rightarrow> string" where
  "field_xml inner (Key_value k v) = ''<'' @ k @ ''>'' @ v @ ''</'' @ k @ ''>'' @ [CHR 0x0A]"
| "field_xml inner (Subrecord fs) =
     ''<'' @ subform_name inner @ ''>'' @ CHR 0x0A # concat (map (field_xml (\<not> inner)) fs) @ ''</'' @ subform_name inner @ ''>'' @ [CHR 0x0A]"

definition form_xml :: "record_field list \<Rightarrow> string" where
  "form_xml fs = ''<form>'' @ CHR 0x0A # concat (map (field_xml False) fs) @ ''</form>'' @ [CHR 0x0A]"

text \<open>Characters that stand for themselves, and fields that XML can carry: no angle brackets, a value that neither starts with a space nor is
  the mark of an empty field, a key that is not a tag with a meaning of its own.\<close>

definition xml_char :: "bool \<Rightarrow> char \<Rightarrow> bool" where
  "xml_char sgn_char c \<longleftrightarrow> c \<notin> {CHR 0x00, CHR 0x0A, CHR 0x0D, CHR ''<'', CHR ''>''} \<and> char_value sgn_char c \<ge> -1"

definition xml_key :: "string \<Rightarrow> bool" where
  "xml_key k \<longleftrightarrow> k \<noteq> [] \<and> hd k \<noteq> CHR ''/'' \<and> last k \<noteq> CHR ''/'' \<and> length k < 1000 \<and>
     \<not> tag_opens ''dd:subform'' k \<and> \<not> tag_opens ''data'' k"

definition xml_value :: "string \<Rightarrow> bool" where
  "xml_value v \<longleftrightarrow> v \<noteq> [] \<and> v \<noteq> ''~'' \<and> hd v \<noteq> CHR '' '' \<and> length v \<le> 1000"

fun xml_field :: "bool \<Rightarrow> record_field \<Rightarrow> bool" where
  "xml_field sgn_char (Key_value k v) \<longleftrightarrow> xml_key k \<and> xml_value v \<and> list_all (xml_char sgn_char) (k @ v)"
| "xml_field sgn_char (Subrecord fs) \<longleftrightarrow> list_all (xml_field sgn_char) fs"

section \<open>Reading tags and values\<close>

lemma strip_loop_append: "strip_loop fn limit (xs @ ys) st = Option.bind (strip_loop fn limit xs st) (strip_loop fn limit ys)"
proof (induction xs arbitrary: st)
  case (Cons c xs)
  then show ?case by (cases "strip_step fn limit c st") simp_all
qed simp

lemma strip_step_char: "xml_char sgn_char c \<Longrightarrow> strip_step fn limit c st = Some (strip_char c st)"
  by (auto simp: strip_step_def xml_char_def)

lemma read_tag:
  "list_all (xml_char sgn_char) t \<Longrightarrow> state st \<Longrightarrow> \<not> interesting_tag st \<Longrightarrow> length (tag_acc st) + length t \<le> 1000 \<Longrightarrow>
     strip_loop fn limit t st = Some (st\<lparr>tag_acc := tag_acc st @ t\<rparr>)"
  by (induction t arbitrary: st) (auto simp: strip_step_char strip_char_def Let_def)

lemma read_val:
  "list_all (xml_char sgn_char) v \<Longrightarrow> \<not> state st \<Longrightarrow> interesting_tag st \<Longrightarrow> length (val st) + length v \<le> 1000 \<Longrightarrow>
     val st \<noteq> [] \<or> v \<noteq> [] \<and> hd v \<noteq> CHR '' '' \<Longrightarrow> strip_loop fn limit v st = Some (st\<lparr>val := val st @ v\<rparr>)"
proof (induction v arbitrary: st)
  case (Cons c v)
  have step: "strip_loop fn limit (c # v) st = strip_loop fn limit v (st\<lparr>val := val st @ [c]\<rparr>)"
    using Cons.prems by (auto simp: strip_step_char strip_char_def Let_def)
  show ?case unfolding step using Cons.IH [of "st\<lparr>val := val st @ [c]\<rparr>"] Cons.prems by simp
qed simp

lemma c_str_chars: "list_all (xml_char sgn_char) s \<Longrightarrow> c_str s = s"
  by (auto simp: c_str_def xml_char_def list_all_iff takeWhile_eq_all_conv)

lemma slash_char [simp]: "xml_char sgn_char (CHR ''/'')"
  by (simp add: xml_char_def char_value_def)

lemma open_slash [simp]: "name \<noteq> [] \<Longrightarrow> lower (hd name) \<noteq> CHR ''/'' \<Longrightarrow> \<not> tag_opens name (CHR ''/'' # k)"
  by (cases name) (auto simp: tag_opens_def strncasecmp_0_def c_str_def lower_def Let_def)

lemma closes_slash: "tag_closes name (CHR ''/'' # k) = tag_opens name k"
  by (simp add: tag_closes_def tag_opens_def)

lemma closes_key: "hd k \<noteq> CHR ''/'' \<Longrightarrow> \<not> tag_closes name k"
  by (auto simp: tag_closes_def)

text \<open>A state between two fields.\<close>

definition between :: "strip_state \<Rightarrow> bool" where
  "between st \<longleftrightarrow> \<not> state st \<and> tag_acc st = [] \<and> val st = [] \<and> in_instance st = 1 \<and> exit_tag st = [] \<and> 0 \<le> in_subform st"

lemma strip_open_between:
  "between st \<Longrightarrow> strip_step None limit (CHR ''<'') st = Some (st\<lparr>state := True, interesting_tag := False\<rparr>)"
  by (simp add: strip_step_def strip_open_def between_def Let_def)

lemma key_opens:
  assumes "between st" "xml_key k" "list_all (xml_char sgn_char) k"
  shows "strip_loop None limit (''<'' @ k @ ''>'') st =
    Some (st\<lparr>tag := k, interesting_tag := True, in_instance := (if tag_opens ''form'' k then 2 else 1)\<rparr>)"
  using assms(1,2) read_tag [OF assms(3), of "st\<lparr>state := True, interesting_tag := False\<rparr>"]
  by (simp add: strip_loop_append strip_open_between)
    (simp add: strip_step_def strip_close_def subform_tag_def instance_tag_def odk_tag_def xml_key_def between_def closes_key
      c_str_chars [OF assms(3)] Let_def)

lemma value_printed:
  assumes "list_all (xml_char sgn_char) v" "xml_value v" "\<not> state st" "val st = []" "interesting_tag st"
    and "\<not> strncasecmp_0 ''dd:subform'' (tag st) 10" "length (stripped st) \<le> limit"
  shows "strip_loop None limit (v @ ''<'') st =
    Some (st\<lparr>stripped := stripped st @ tag st @ ''='' @ v @ [CHR 0x0A], state := True, interesting_tag := False\<rparr>)"
  using assms(2-7) read_val [OF assms(1), of st]
  by (simp add: strip_loop_append xml_value_def)
    (simp add: strip_step_def strip_open_def print_stripped_def c_str_chars [OF assms(1)] Let_def)

lemma key_closes:
  assumes "xml_key k" "list_all (xml_char sgn_char) k" "state st" "\<not> interesting_tag st" "tag_acc st = []" "exit_tag st = []"
    "in_instance st = (if tag_opens ''form'' k then 2 else 1)"
  shows "strip_loop None limit (''/'' @ k @ ''>'' @ [CHR 0x0A]) st =
    Some (st\<lparr>tag := CHR ''/'' # k, tag_acc := [], in_instance := 1, state := False\<rparr>)"
proof -
  have "list_all (xml_char sgn_char) (CHR ''/'' # k)" using assms(2) by simp
  note r = read_tag [OF this, of st] and c = c_str_chars [OF this]
  have "strip_loop None limit (CHR ''/'' # k) st = Some (st\<lparr>tag_acc := CHR ''/'' # k\<rparr>)"
    using r assms by (simp add: xml_key_def del: strip_loop.simps)
  moreover have "strip_loop None limit (''>'' @ [CHR 0x0A]) (st\<lparr>tag_acc := CHR ''/'' # k\<rparr>) =
      Some (st\<lparr>tag := CHR ''/'' # k, tag_acc := [], in_instance := 1, state := False\<rparr>)"
    using assms c by (simp add: strip_step_def strip_close_def subform_tag_def instance_tag_def odk_tag_def xml_key_def closes_slash Let_def
        open_slash lower_def)
  ultimately show ?thesis using strip_loop_append [of None limit "CHR ''/'' # k" "''>'' @ [CHR 0x0A]" st] by simp
qed

section \<open>Fields and sub-forms\<close>

lemma opens_subform: "tag_opens ''dd:subform'' k = strncasecmp_0 ''dd:subform'' (c_str k) 10"
  by (simp add: tag_opens_def eval_nat_numeral)

lemma key_value_stripped:
  assumes "between st" "xml_field sgn_char (Key_value k v)" "length (stripped st) \<le> limit"
  shows "strip_loop None limit (field_xml inner (Key_value k v)) st =
    Some (st\<lparr>tag := CHR ''/'' # k, interesting_tag := False, stripped := stripped st @ field_text (Key_value k v)\<rparr>)"
proof -
  have k: "xml_key k" "list_all (xml_char sgn_char) k" and v: "xml_value v" "list_all (xml_char sgn_char) v" using assms(2) by auto
  let ?n = "if tag_opens ''form'' k then 2 else 1 :: int"
  let ?st1 = "st\<lparr>tag := k, interesting_tag := True, in_instance := ?n\<rparr>"
  let ?st2 = "?st1\<lparr>stripped := stripped st @ k @ ''='' @ v @ [CHR 0x0A], state := True, interesting_tag := False\<rparr>"
  have sub: "\<not> strncasecmp_0 ''dd:subform'' k 10" using k opens_subform [of k] c_str_chars [OF k(2)] by (simp add: xml_key_def)
  have split: "field_xml inner (Key_value k v) = (''<'' @ k @ ''>'') @ (v @ ''<'') @ (''/'' @ k @ ''>'' @ [CHR 0x0A])" by simp
  have "strip_loop None limit (v @ ''<'') ?st1 = Some ?st2"
    using value_printed [OF v(2,1), of ?st1 limit] assms(1,3) sub by (simp add: between_def)
  moreover have "strip_loop None limit (''/'' @ k @ ''>'' @ [CHR 0x0A]) ?st2 =
      Some (?st2\<lparr>tag := CHR ''/'' # k, tag_acc := [], in_instance := 1, state := False\<rparr>)"
    using assms(1) by (intro key_closes [OF k]) (simp_all add: between_def)
  ultimately show ?thesis
    unfolding split strip_loop_append [of None limit "''<'' @ k @ ''>''"] strip_loop_append [of None limit "v @ ''<''"] key_opens [OF assms(1) k]
    using assms(1) by (simp add: between_def)
qed

lemma subform_name_chars: "list_all (xml_char sgn_char) (subform_name inner)" "length (subform_name inner) \<le> 10" "subform_name inner \<noteq> []"
  by (simp_all add: subform_name_def xml_char_def char_value_def)

lemma subform_opens:
  assumes "between st" "inner \<longrightarrow> 0 < in_subform st" "length (stripped st) \<le> limit"
  shows "strip_loop None limit (''<'' @ subform_name inner @ ''>'' @ [CHR 0x0A]) st =
    Some (st\<lparr>tag := subform_name inner, interesting_tag := True, stripped := stripped st @ ''{'' @ [CHR 0x0A],
      in_subform := in_subform st + (if inner then 0 else 1)\<rparr>)"
proof -
  let ?st = "st\<lparr>state := True, interesting_tag := False\<rparr>"
  have "strip_loop None limit (subform_name inner) ?st = Some (?st\<lparr>tag_acc := subform_name inner\<rparr>)"
    using read_tag [OF subform_name_chars(1), of ?st inner] subform_name_chars(2) [of inner] assms(1) by (simp add: between_def)
  then have "strip_loop None limit (''<'' @ subform_name inner) st = Some (?st\<lparr>tag_acc := subform_name inner\<rparr>)"
    by (simp add: strip_open_between [OF assms(1)])
  moreover have "strip_loop None limit (''>'' @ [CHR 0x0A]) (?st\<lparr>tag_acc := subform_name inner\<rparr>) =
      Some (st\<lparr>tag := subform_name inner, interesting_tag := True, stripped := stripped st @ ''{'' @ [CHR 0x0A],
        in_subform := in_subform st + (if inner then 0 else 1)\<rparr>)"
    using assms by (auto simp: subform_name_def strip_step_def strip_close_def subform_tag_def instance_tag_def odk_tag_def between_def
        tag_opens_def tag_closes_def strncasecmp_0_def c_str_def lower_def print_stripped_def Let_def)
  ultimately show ?thesis using strip_loop_append [of None limit "''<'' @ subform_name inner" "''>'' @ [CHR 0x0A]" st] by simp
qed

lemma closing_tags:
  "\<not> tag_opens ''form'' (CHR ''/'' # subform_name inner)" "\<not> tag_closes ''form'' (CHR ''/'' # subform_name inner)"
  "\<not> tag_opens ''dd:subform'' (CHR ''/'' # subform_name inner)" "tag_closes ''dd:subform'' (CHR ''/'' # subform_name inner) \<longleftrightarrow> \<not> inner"
  "\<not> tag_opens ''data'' (CHR ''/'' # subform_name inner)" "tag_closes ''data'' (CHR ''/'' # subform_name inner) \<longleftrightarrow> inner"
  "c_str (CHR ''/'' # subform_name inner) = CHR ''/'' # subform_name inner"
  by (simp_all add: subform_name_def tag_opens_def tag_closes_def strncasecmp_0_def c_str_def lower_def)

lemma subform_closes:
  assumes "between st" "0 < in_subform st" "length (stripped st) \<le> limit"
  shows "strip_loop None limit (''</'' @ subform_name inner @ ''>'' @ [CHR 0x0A]) st =
    Some (st\<lparr>tag := CHR ''/'' # subform_name inner, interesting_tag := False, stripped := stripped st @ ''}'' @ [CHR 0x0A],
      in_subform := in_subform st - (if inner then 0 else 1)\<rparr>)"
proof -
  let ?st = "st\<lparr>state := True, interesting_tag := False\<rparr>" and ?t = "CHR ''/'' # subform_name inner"
  have "list_all (xml_char sgn_char) ?t" for sgn_char using subform_name_chars(1) by simp
  then have "strip_loop None limit ?t ?st = Some (?st\<lparr>tag_acc := ?t\<rparr>)"
    using read_tag [of False ?t ?st] subform_name_chars(2) [of inner] assms(1) by (simp add: between_def del: strip_loop.simps)
  then have "strip_loop None limit (''<'' @ ?t) st = Some (?st\<lparr>tag_acc := ?t\<rparr>)"
    by (simp add: strip_open_between [OF assms(1)] del: strip_loop.simps(2)) (simp add: strip_open_between [OF assms(1)])
  moreover have "strip_loop None limit (''>'' @ [CHR 0x0A]) (?st\<lparr>tag_acc := ?t\<rparr>) =
      Some (st\<lparr>tag := ?t, interesting_tag := False, stripped := stripped st @ ''}'' @ [CHR 0x0A],
        in_subform := in_subform st - (if inner then 0 else 1)\<rparr>)"
    using assms by (cases inner) (simp_all add: strip_step_def strip_close_def subform_tag_def instance_tag_def odk_tag_def between_def
        print_stripped_def closing_tags Let_def)
  ultimately show ?thesis using strip_loop_append [of None limit "''<'' @ ?t" "''>'' @ [CHR 0x0A]" st] by simp
qed

text \<open>What the loop does with the text of a field, or of several.\<close>

definition strips :: "nat \<Rightarrow> bool \<Rightarrow> string \<Rightarrow> string \<Rightarrow> bool" where
  "strips limit inner x text \<longleftrightarrow> (\<forall>st. between st \<and> (inner \<longrightarrow> 0 < in_subform st) \<and> length (stripped st) + length text \<le> limit \<longrightarrow>
     (\<exists>t i. strip_loop None limit x st = Some (st\<lparr>tag := t, interesting_tag := i, stripped := stripped st @ text\<rparr>)))"

lemma stripsD:
  assumes "strips limit inner x text" "between st" "inner \<longrightarrow> 0 < in_subform st" "length (stripped st) + length text \<le> limit"
  shows "\<exists>t i. strip_loop None limit x st = Some (st\<lparr>tag := t, interesting_tag := i, stripped := stripped st @ text\<rparr>)"
  using assms unfolding strips_def by blast

lemma stripsI:
  assumes "\<And>st. between st \<Longrightarrow> inner \<longrightarrow> 0 < in_subform st \<Longrightarrow> length (stripped st) + length text \<le> limit \<Longrightarrow>
     strip_loop None limit x st = Some (st\<lparr>tag := t st, interesting_tag := i st, stripped := stripped st @ text\<rparr>)"
  shows "strips limit inner x text"
  unfolding strips_def using assms by blast

lemma strips_nil: "strips limit inner [] []"
  by (rule stripsI [where t = tag and i = interesting_tag]) simp

lemma strips_append:
  assumes "strips limit inner x1 t1" "strips limit inner x2 t2"
  shows "strips limit inner (x1 @ x2) (t1 @ t2)"
  unfolding strips_def
proof (intro allI impI)
  fix st assume st: "between st \<and> (inner \<longrightarrow> 0 < in_subform st) \<and> length (stripped st) + length (t1 @ t2) \<le> limit"
  then obtain t i where 1: "strip_loop None limit x1 st = Some (st\<lparr>tag := t, interesting_tag := i, stripped := stripped st @ t1\<rparr>)"
    using stripsD [OF assms(1), of st] by fastforce
  let ?st = "st\<lparr>tag := t, interesting_tag := i, stripped := stripped st @ t1\<rparr>"
  have "between ?st" "inner \<longrightarrow> 0 < in_subform ?st" "length (stripped ?st) + length t2 \<le> limit" using st by (simp_all add: between_def)
  from stripsD [OF assms(2) this]
  obtain t' i' where "strip_loop None limit x2 ?st = Some (?st\<lparr>tag := t', interesting_tag := i', stripped := stripped ?st @ t2\<rparr>)" by blast
  with 1 have "strip_loop None limit (x1 @ x2) st = Some (st\<lparr>tag := t', interesting_tag := i', stripped := stripped st @ t1 @ t2\<rparr>)"
    by (simp add: strip_loop_append)
  then show "\<exists>t i. strip_loop None limit (x1 @ x2) st = Some (st\<lparr>tag := t, interesting_tag := i, stripped := stripped st @ t1 @ t2\<rparr>)"
    by blast
qed

lemma strips_concat:
  "(\<And>f. f \<in> set fs \<Longrightarrow> strips limit inner (xf f) (tf f)) \<Longrightarrow> strips limit inner (concat (map xf fs)) (concat (map tf fs))"
  by (induction fs) (auto intro: strips_nil strips_append)

lemma strips_subrecord:
  assumes "strips limit (\<not> inner) inside text"
  shows "strips limit inner (''<'' @ subform_name inner @ ''>'' @ CHR 0x0A # inside @ ''</'' @ subform_name inner @ ''>'' @ [CHR 0x0A])
    (''{'' @ CHR 0x0A # text @ ''}'' @ [CHR 0x0A])"
  unfolding strips_def
proof (intro allI impI)
  fix st assume st: "between st \<and> (inner \<longrightarrow> 0 < in_subform st) \<and>
    length (stripped st) + length (''{'' @ CHR 0x0A # text @ ''}'' @ [CHR 0x0A]) \<le> limit"
  let ?n = "if inner then 0 else 1 :: int"
  let ?st1 = "st\<lparr>tag := subform_name inner, interesting_tag := True, stripped := stripped st @ ''{'' @ [CHR 0x0A], in_subform := in_subform st + ?n\<rparr>"
  have 1: "strip_loop None limit (''<'' @ subform_name inner @ ''>'' @ [CHR 0x0A]) st = Some ?st1"
    using st by (intro subform_opens) simp_all
  have b1: "between ?st1" "0 < in_subform ?st1" using st by (auto simp: between_def)
  have "\<not> inner \<longrightarrow> 0 < in_subform ?st1" "length (stripped ?st1) + length text \<le> limit"
    using b1(2) st by (simp_all add: between_def)
  from stripsD [OF assms b1(1) this]
  obtain t i where 2: "strip_loop None limit inside ?st1 = Some (?st1\<lparr>tag := t, interesting_tag := i, stripped := stripped ?st1 @ text\<rparr>)" by blast
  let ?st2 = "?st1\<lparr>tag := t, interesting_tag := i, stripped := stripped ?st1 @ text\<rparr>"
  have 3: "strip_loop None limit (''</'' @ subform_name inner @ ''>'' @ [CHR 0x0A]) ?st2 =
    Some (?st2\<lparr>tag := CHR ''/'' # subform_name inner, interesting_tag := False, stripped := stripped ?st2 @ ''}'' @ [CHR 0x0A],
      in_subform := in_subform ?st2 - ?n\<rparr>)"
    using b1 st by (intro subform_closes) (simp_all add: between_def)
  have split: "''<'' @ subform_name inner @ ''>'' @ CHR 0x0A # inside @ ''</'' @ subform_name inner @ ''>'' @ [CHR 0x0A] =
      (''<'' @ subform_name inner @ ''>'' @ [CHR 0x0A]) @ inside @ (''</'' @ subform_name inner @ ''>'' @ [CHR 0x0A])" by simp
  have "strip_loop None limit (''<'' @ subform_name inner @ ''>'' @ CHR 0x0A # inside @ ''</'' @ subform_name inner @ ''>'' @ [CHR 0x0A]) st =
      Some (st\<lparr>tag := CHR ''/'' # subform_name inner, interesting_tag := False, stripped := stripped st @ ''{'' @ CHR 0x0A # text @ ''}'' @ [CHR 0x0A]\<rparr>)"
    unfolding split strip_loop_append [of None limit "''<'' @ subform_name inner @ ''>'' @ [CHR 0x0A]"] strip_loop_append [of None limit inside]
      1 2 3 bind.bind_lunit by simp
  then show "\<exists>t i. strip_loop None limit (''<'' @ subform_name inner @ ''>'' @ CHR 0x0A # inside @ ''</'' @ subform_name inner @ ''>'' @ [CHR 0x0A]) st =
      Some (st\<lparr>tag := t, interesting_tag := i, stripped := stripped st @ ''{'' @ CHR 0x0A # text @ ''}'' @ [CHR 0x0A]\<rparr>)"
    by blast
qed

lemma field_strips: "xml_field sgn_char f \<Longrightarrow> strips limit inner (field_xml inner f) (field_text f)"
proof (induction f arbitrary: inner)
  case (Key_value k v)
  then show ?case using key_value_stripped [OF _ Key_value, of _ limit inner]
    by (intro stripsI [where t = "\<lambda>_. CHR ''/'' # k" and i = "\<lambda>_. False"]) simp
next
  case (Subrecord fs)
  then have "strips limit (\<not> inner) (concat (map (field_xml (\<not> inner)) fs)) (record_text fs)"
    by (intro strips_concat) (auto simp: list_all_iff)
  from strips_subrecord [OF this] show ?case by simp
qed

section \<open>The whole form\<close>

lemma form_opens:
  "\<exists>st. strip_loop None limit (''<form>'' @ [CHR 0x0A]) strip_start = Some st \<and> between st \<and> in_subform st = 0 \<and> stripped st = []"
  by (simp add: strip_start_def strip_step_def strip_open_def strip_char_def strip_close_def instance_tag_def subform_tag_def odk_tag_def
      tag_opens_def tag_closes_def strncasecmp_0_def c_str_def lower_def between_def Let_def)

lemma form_closes:
  assumes "between st"
  shows "\<exists>st'. strip_loop None limit ''</form>'' st = Some st' \<and> stripped st' = stripped st"
proof -
  have "scan_odk ''/form'' = None" "scan_s ''/form'' = Some (''/form'', [])" by code_simp+
  with assms show ?thesis
    by (simp add: between_def strip_step_def strip_open_def strip_char_def strip_close_def instance_tag_def subform_tag_def odk_tag_def
        tag_opens_def tag_closes_def strncasecmp_0_def c_str_def lower_def Let_def)
qed

lemma literal_chars: "list_all (\<lambda>c. char_value sgn_char c \<ge> -1) ''<>/formdata:sub''" "char_value sgn_char (CHR 0x0A) \<ge> -1"
  by (simp_all add: char_value_def)

lemma field_chars: "xml_field sgn_char f \<Longrightarrow> list_all (\<lambda>c. char_value sgn_char c \<ge> -1) (field_xml inner f)"
proof (induction f arbitrary: inner)
  case (Key_value k v)
  then show ?case using literal_chars by (auto simp: xml_char_def list_all_iff)
next
  case (Subrecord fs)
  then have "list_all (\<lambda>c. char_value sgn_char c \<ge> -1) (concat (map (field_xml (\<not> inner)) fs))"
    by (fastforce simp: list_all_iff)
  then show ?case using literal_chars by (simp add: subform_name_def)
qed

lemma form_reduced:
  assumes "list_all (xml_field sgn_char) fs" "length (record_text fs) < limit"
  shows "xml2stripped sgn_char None (form_xml fs) limit = Some (length (record_text fs), record_text fs)"
proof -
  let ?b = "concat (map (field_xml False) fs)"
  have "list_all (\<lambda>c. char_value sgn_char c \<ge> -1) ?b" using assms(1) field_chars by (fastforce simp: list_all_iff)
  then have "list_all (\<lambda>c. char_value sgn_char c \<ge> -1) (''<form>'' @ CHR 0x0A # ?b @ ''</form>'')" using literal_chars by simp
  then have all: "takeWhile (\<lambda>c. char_value sgn_char c \<ge> -1) (butlast (form_xml fs)) = (''<form>'' @ [CHR 0x0A]) @ ?b @ ''</form>''"
    by (subst takeWhile_eq_all_conv [THEN iffD2]) (simp_all add: form_xml_def butlast_append list_all_iff)
  obtain st0 where 0: "strip_loop None limit (''<form>'' @ [CHR 0x0A]) strip_start = Some st0" "between st0" "in_subform st0 = 0" "stripped st0 = []"
    using form_opens by blast
  have "strips limit False ?b (record_text fs)"
    using assms(1) by (intro strips_concat field_strips [of sgn_char]) (simp add: list_all_iff)
  from stripsD [OF this 0(2)] 0(3,4) assms(2)
  obtain t i where 1: "strip_loop None limit ?b st0 = Some (st0\<lparr>tag := t, interesting_tag := i, stripped := record_text fs\<rparr>)" by auto
  have "between (st0\<lparr>tag := t, interesting_tag := i, stripped := record_text fs\<rparr>)" using 0(2) by (simp add: between_def)
  from form_closes [OF this] obtain st2 where
    2: "strip_loop None limit ''</form>'' (st0\<lparr>tag := t, interesting_tag := i, stripped := record_text fs\<rparr>) = Some st2" "stripped st2 = record_text fs"
    by auto
  have "strip_loop None limit ((''<form>'' @ [CHR 0x0A]) @ ?b @ ''</form>'') strip_start = Some st2"
    unfolding strip_loop_append [of None limit "''<form>'' @ [CHR 0x0A]"] strip_loop_append [of None limit ?b] 0(1) 1 bind.bind_lunit 2(1) ..
  with all 2(2) assms(2) show ?thesis by (simp add: xml2stripped_def)
qed

text \<open>(C19) The XML text of a filled-in form, sub-forms included, is reduced to exactly the stripped text of the form, for
  signed and unsigned characters, when it fits the buffer.\<close>

theorem form_xml_stripped:
  assumes "list_all (xml_field sgn_char) fs" "length (record_text fs) < limit"
  shows "xml2stripped sgn_char None (form_xml fs) limit = Some (length (record_text fs), record_text fs)"
  using assms by (rule form_reduced)

definition sample_form :: "record_field list" where
  "sample_form = [Key_value ''formid'' ''7'', Subrecord [Key_value ''question'' ''q'', Subrecord [Key_value ''age'' ''42'']]]"

theorem form_xml_stripped_witness:
  "xml2stripped True None (form_xml sample_form) 100 = Some (length (record_text sample_form), record_text sample_form)"
proof (rule form_xml_stripped)
  show "list_all (xml_field True) sample_form" by code_simp
  show "length (record_text sample_form) < 100" by (simp add: sample_form_def)
qed

end
