(* ===== verification/Template.thy ===== *)
theory Template
  imports DexmlProps
begin

text \<open>
  Filling a template without sub-forms: \<^verbatim>\<open>stripped2xml\<close> copies tags and text and puts in the place of a variable the value of the
  first field of that name that was not used before.
\<close>

section \<open>Templates\<close>

datatype segment = Tag string | Literal string | Variable string

fun segment_text :: "segment \<Rightarrow> string" where
  "segment_text (Tag t) = ''<'' @ t @ ''>''"
| "segment_text (Literal s) = s"
| "segment_text (Variable x) = ''$'' @ x @ ''$''"

definition template_text :: "segment list \<Rightarrow> string" where
  "template_text ss = concat (map segment_text ss)"

definition template_char :: "char \<Rightarrow> bool" where
  "template_char c \<longleftrightarrow> c \<notin> {CHR 0x00, CHR ''<'', CHR ''>'', CHR ''$''}"

fun segment_ok :: "segment \<Rightarrow> bool" where
  "segment_ok (Tag t) \<longleftrightarrow> list_all template_char t \<and> length t < 1024 \<and> \<not> tag_opens ''dd:subform'' t"
| "segment_ok (Literal s) \<longleftrightarrow> list_all template_char s"
| "segment_ok (Variable x) \<longleftrightarrow> list_all template_char x \<and> length x < 1024"

text \<open>The value of the first field of a name, and the other fields.\<close>

fun take_field :: "string \<Rightarrow> (string \<times> string) list \<Rightarrow> (string \<times> (string \<times> string) list) option" where
  "take_field x [] = None"
| "take_field x ((k, v) # fs) =
     (if strcasecmp_0 x k then Some (v, fs) else map_option (\<lambda>(w, gs). (w, (k, v) # gs)) (take_field x fs))"

fun expand :: "(string \<times> string) list \<Rightarrow> segment list \<Rightarrow> string" where
  "expand fs [] = []"
| "expand fs (Variable x # ss) =
     (case take_field x fs of None \<Rightarrow> expand fs ss | Some (v, fs') \<Rightarrow> v @ expand fs' ss)"
| "expand fs (s # ss) = segment_text s @ expand fs ss"

section \<open>Reading the fields\<close>

definition flat_char :: "bool \<Rightarrow> char \<Rightarrow> bool" where
  "flat_char sgn_char c \<longleftrightarrow> c \<notin> {CHR ''{'', CHR ''}''} \<and> char_value sgn_char c \<ge> 32"

definition flat_ok :: "bool \<Rightarrow> string \<times> string \<Rightarrow> bool" where
  "flat_ok sgn_char = (\<lambda>(k, v). list_all (flat_char sgn_char) (k @ v) \<and> CHR ''='' \<notin> set k \<and> length k \<le> 1000 \<and> length v \<le> 1000)"

definition flat_text :: "(string \<times> string) list \<Rightarrow> string" where
  "flat_text fs = concat (map (\<lambda>(k, v). k @ ''='' @ v @ [CHR 0x0A]) fs)"

abbreviation flat_field :: "string \<times> string \<Rightarrow> fill_field" where
  "flat_field f \<equiv> \<lparr>fieldname = Some (fst f), fieldvalue = snd f, in_subform_record = False, record_number_field = 0\<rparr>"

lemma flat_c_str: "list_all (flat_char sgn_char) s \<Longrightarrow> c_str s = s"
proof -
  assume "list_all (flat_char sgn_char) s"
  moreover have "\<not> flat_char sgn_char (CHR 0x00)" by (simp add: flat_char_def char_value_def)
  ultimately show ?thesis unfolding c_str_def takeWhile_eq_all_conv list_all_iff by blast
qed

lemma read_key:
  "list_all (flat_char sgn_char) k \<Longrightarrow> CHR ''='' \<notin> set k \<Longrightarrow> \<not> read_value st \<Longrightarrow> value_acc st = [] \<Longrightarrow> length (field_acc st) + length k \<le> 1001 \<Longrightarrow>
     read_loop sgn_char (k @ rest) st = read_loop sgn_char rest (st\<lparr>field_acc := field_acc st @ k\<rparr>)"
  by (induction k arbitrary: st) (auto simp: read_step_def flat_char_def)

lemma read_field_value:
  "list_all (flat_char sgn_char) v \<Longrightarrow> read_value st \<Longrightarrow> length (field_acc st) \<le> 1000 \<Longrightarrow> length (value_acc st) + length v \<le> 1001 \<Longrightarrow>
     read_loop sgn_char (v @ rest) st = read_loop sgn_char rest (st\<lparr>value_acc := value_acc st @ v\<rparr>)"
  by (induction v arbitrary: st) (auto simp: read_step_def flat_char_def)

lemma read_field:
  assumes "flat_ok sgn_char f" "length fs < 1024"
  shows "read_loop sgn_char (fst f @ ''='' @ snd f @ CHR 0x0A # rest) (read_start\<lparr>fill_fields := fs\<rparr>) =
    read_loop sgn_char rest (read_start\<lparr>fill_fields := fs @ [flat_field f]\<rparr>)"
proof -
  obtain k v where f: "f = (k, v)" by fastforce
  have kv: "list_all (flat_char sgn_char) k" "list_all (flat_char sgn_char) v" "CHR ''='' \<notin> set k" "length k \<le> 1000" "length v \<le> 1000"
    using assms(1) by (auto simp: flat_ok_def f)
  have "char_value sgn_char (CHR 0x0A) < 32" by (simp add: char_value_def)
  with kv assms(2) show ?thesis
    by (simp add: f read_key read_start_def)
      (simp add: read_step_def read_field_value flat_c_str [OF kv(1)] flat_c_str [OF kv(2)])
qed

lemma read_flat:
  "list_all (flat_ok sgn_char) fs \<Longrightarrow> length gs + length fs \<le> 1024 \<Longrightarrow>
     read_loop sgn_char (flat_text fs) (read_start\<lparr>fill_fields := gs\<rparr>) = Some (Inr (read_start\<lparr>fill_fields := gs @ map flat_field fs\<rparr>))"
proof (induction fs arbitrary: gs)
  case (Cons f fs)
  have "flat_text (f # fs) = fst f @ ''='' @ snd f @ CHR 0x0A # flat_text fs" by (simp add: flat_text_def case_prod_unfold)
  with Cons read_field [of sgn_char f gs "flat_text fs"] show ?case by simp
qed (simp add: flat_text_def)

section \<open>Filling the template\<close>

abbreviation fill_at :: "nat list \<Rightarrow> nat \<Rightarrow> string \<Rightarrow> string \<Rightarrow> fill_state \<Rightarrow> (int + fill_state) option" where
  "fill_at counts limit done rest st \<equiv> fill_loop counts limit (done @ rest) (int (length done)) st"

lemma fill_at_step:
  assumes "fill_step counts limit c (int (length pre)) st = Some (Inr (int (length pre), st'))"
  shows "fill_at counts limit pre (c # rest) st = fill_at counts limit (pre @ [c]) rest st'"
  using assms by (subst fill_loop.simps) (simp add: add.commute)

lemma fill_literal:
  "list_all template_char s \<Longrightarrow> \<not> state_field st \<Longrightarrow> \<not> state_tag st \<Longrightarrow> length (xml st) + length s < limit \<Longrightarrow>
     fill_at counts limit pre (s @ rest) st = fill_at counts limit (pre @ s) rest (st\<lparr>xml := xml st @ s\<rparr>)"
proof (induction s arbitrary: pre st)
  case (Cons c s)
  have "fill_step counts limit c (int (length pre)) st = Some (Inr (int (length pre), st\<lparr>xml := xml st @ [c]\<rparr>))"
    using Cons.prems by (auto simp: fill_step_def template_char_def put_xml_def)
  from fill_at_step [OF this, of "s @ rest"] Cons.IH [of "st\<lparr>xml := xml st @ [c]\<rparr>" "pre @ [c]"] Cons.prems show ?case by simp
qed simp

lemma fill_tag_name:
  "list_all template_char s \<Longrightarrow> \<not> state_field st \<Longrightarrow> state_tag st \<Longrightarrow> length (fill_tag_acc st) + length s < 1024 \<Longrightarrow>
     length (xml st) + length s < limit \<Longrightarrow>
     fill_at counts limit pre (s @ rest) st =
       fill_at counts limit (pre @ s) rest (st\<lparr>xml := xml st @ s, fill_tag_acc := fill_tag_acc st @ s\<rparr>)"
proof (induction s arbitrary: pre st)
  case (Cons c s)
  let ?st = "st\<lparr>xml := xml st @ [c], fill_tag_acc := fill_tag_acc st @ [c]\<rparr>"
  have "fill_step counts limit c (int (length pre)) st = Some (Inr (int (length pre), ?st))"
    using Cons.prems by (auto simp: fill_step_def template_char_def put_xml_def)
  from fill_at_step [OF this, of "s @ rest"] Cons.IH [of ?st "pre @ [c]"] Cons.prems show ?case by simp
qed simp

lemma fill_variable_name:
  "list_all template_char s \<Longrightarrow> state_field st \<Longrightarrow> length (fill_field_acc st) + length s < 1024 \<Longrightarrow>
     fill_at counts limit pre (s @ rest) st = fill_at counts limit (pre @ s) rest (st\<lparr>fill_field_acc := fill_field_acc st @ s\<rparr>)"
proof (induction s arbitrary: pre st)
  case (Cons c s)
  let ?st = "st\<lparr>fill_field_acc := fill_field_acc st @ [c]\<rparr>"
  have "fill_step counts limit c (int (length pre)) st = Some (Inr (int (length pre), ?st))"
    using Cons.prems by (auto simp: fill_step_def template_char_def)
  from fill_at_step [OF this, of "s @ rest"] Cons.IH [of ?st "pre @ [c]"] Cons.prems show ?case by simp
qed simp

text \<open>The fields that are not used yet.\<close>

definition unused :: "fill_field list \<Rightarrow> (string \<times> string) list" where
  "unused fs = map (\<lambda>f. (the (fieldname f), fieldvalue f)) (filter (\<lambda>f. fieldname f \<noteq> None) fs)"

lemma unused_Cons: "unused (f # fs) = (case fieldname f of None \<Rightarrow> unused fs | Some n \<Rightarrow> (n, fieldvalue f) # unused fs)"
  by (simp add: unused_def split: option.split)

lemma find_field_unused:
  "case find_field x fs of
     None \<Rightarrow> take_field x (unused fs) = None
   | Some j \<Rightarrow> take_field x (unused fs) = Some (fieldvalue (fs ! j), unused (fs[j := (fs ! j)\<lparr>fieldname := None\<rparr>]))"
proof (induction fs)
  case (Cons f fs)
  then show ?case by (cases "fieldname f"; cases "find_field x fs") (auto simp: unused_Cons)
qed (simp add: unused_def)

definition flat_state :: "fill_state \<Rightarrow> bool" where
  "flat_state st \<longleftrightarrow> \<not> state_field st \<and> \<not> state_tag st \<and> fill_field_acc st = [] \<and> fill_tag_acc st = [] \<and> \<not> fill_in_instance st \<and>
     list_all (\<lambda>f. \<not> in_subform_record f) (live_fields st)"

lemma put_checked_room: "length (xml st) + length v < limit \<Longrightarrow> put_checked limit v st = Some (Inr (st\<lparr>xml := xml st @ v\<rparr>))"
  by (induction v arbitrary: st) (simp_all add: put_xml_def)

lemma template_c_str: "list_all template_char s \<Longrightarrow> c_str s = s"
  by (auto simp: c_str_def template_char_def list_all_iff takeWhile_eq_all_conv)

lemma end_tag_flat:
  assumes "\<not> tag_opens ''dd:subform'' (fill_tag_acc st)" "flat_state (st\<lparr>fill_tag_acc := [], state_tag := False\<rparr>)"
  shows "\<exists>st'. end_tag i st = (i, st') \<and> flat_state st' \<and> xml st' = xml st \<and> live_fields st' = live_fields st"
proof (cases "tag_closes ''dd:subform'' (fill_tag_acc st)")
  case True
  with assms show ?thesis by (auto simp: end_tag_def flat_state_def Let_def)
next
  case False
  with assms show ?thesis by (auto simp: end_tag_def flat_state_def Let_def)
qed

lemma fill_tag:
  assumes "flat_state st" "segment_ok (Tag t)" "length (xml st) + length (segment_text (Tag t)) < limit"
  shows "\<exists>st'. fill_at counts limit pre (segment_text (Tag t) @ rest) st = fill_at counts limit (pre @ segment_text (Tag t)) rest st' \<and>
    flat_state st' \<and> xml st' = xml st @ segment_text (Tag t) \<and> live_fields st' = live_fields st"
proof -
  let ?st1 = "st\<lparr>state_tag := True, xml := xml st @ ''<''\<rparr>"
  let ?st2 = "?st1\<lparr>xml := xml ?st1 @ t, fill_tag_acc := t\<rparr>"
  let ?i = "int (length (pre @ ''<'' @ t))"
  obtain st3 where e: "end_tag ?i (?st2\<lparr>xml := xml ?st2 @ ''>''\<rparr>) = (?i, st3)" and
    st3: "flat_state st3" "xml st3 = xml st @ ''<'' @ t @ ''>''" "live_fields st3 = live_fields st"
    using assms(1,2) end_tag_flat [of "?st2\<lparr>xml := xml ?st2 @ ''>''\<rparr>" ?i] by (auto simp: flat_state_def)
  have 1: "fill_step counts limit (CHR ''<'') (int (length pre)) st = Some (Inr (int (length pre), ?st1))"
    using assms(3) by (simp add: fill_step_def put_xml_def)
  have 2: "fill_at counts limit (pre @ ''<'') (t @ CHR ''>'' # rest) ?st1 = fill_at counts limit ((pre @ ''<'') @ t) (CHR ''>'' # rest) ?st2"
    using assms by (subst fill_tag_name) (simp_all add: flat_state_def)
  have 3: "fill_step counts limit (CHR ''>'') ?i ?st2 = Some (Inr (?i, st3))"
    using assms(3) e by (simp add: fill_step_def put_xml_def)
  have "fill_at counts limit pre (segment_text (Tag t) @ rest) st = fill_at counts limit (pre @ segment_text (Tag t)) rest st3"
    using fill_at_step [OF 1, of "t @ CHR ''>'' # rest"] 2 fill_at_step [OF 3, of rest] by simp
  with st3 show ?thesis by auto
qed

lemma fill_variable:
  assumes "flat_state st" "segment_ok (Variable x)"
    and room: "case take_field x (unused (live_fields st)) of None \<Rightarrow> True | Some (v, _) \<Rightarrow> length (xml st) + length v < limit"
  shows "\<exists>st'. fill_at counts limit pre (segment_text (Variable x) @ rest) st = fill_at counts limit (pre @ segment_text (Variable x)) rest st' \<and>
    flat_state st' \<and> (case take_field x (unused (live_fields st)) of
      None \<Rightarrow> xml st' = xml st \<and> unused (live_fields st') = unused (live_fields st)
    | Some (v, fs) \<Rightarrow> xml st' = xml st @ v \<and> unused (live_fields st') = fs)"
proof -
  let ?st1 = "st\<lparr>state_field := True\<rparr>"
  let ?st2 = "?st1\<lparr>fill_field_acc := x\<rparr>"
  let ?i = "int (length (pre @ ''$'' @ x))"
  have x: "c_str x = x" using assms(2) template_c_str by simp
  obtain st3 where e: "end_variable counts limit ?st2 = Some (Inr st3)" and
    st3: "flat_state st3" "case take_field x (unused (live_fields st)) of
      None \<Rightarrow> xml st3 = xml st \<and> unused (live_fields st3) = unused (live_fields st)
    | Some (v, fs) \<Rightarrow> xml st3 = xml st @ v \<and> unused (live_fields st3) = fs"
  proof (cases "find_field x (live_fields st)")
    case None
    with find_field_unused [of x "live_fields st"] x assms(1) that [of "st\<lparr>fill_field_acc := [], state_field := False\<rparr>"]
    show ?thesis by (simp add: end_variable_def flat_state_def Let_def)
  next
    case (Some j)
    note tf = find_field_unused [of x "live_fields st", unfolded Some option.case]
    have j: "j < length (live_fields st)" using find_field_some [OF Some] by blast
    then have "\<not> in_subform_record (live_fields st ! j)" "list_all (\<lambda>f. \<not> in_subform_record f) ((live_fields st)[j := (live_fields st ! j)\<lparr>fieldname := None\<rparr>])"
      using assms(1) by (auto simp: flat_state_def list_all_iff dest!: set_update_subset_insert [THEN subsetD])
    with Some tf x room assms(1)
      that [of "st\<lparr>fill_field_acc := [], xml := xml st @ fieldvalue (live_fields st ! j), state_field := False,
        live_fields := (live_fields st)[j := (live_fields st ! j)\<lparr>fieldname := None\<rparr>]\<rparr>"]
    show ?thesis by (simp add: end_variable_def flat_state_def put_checked_room Let_def)
  qed
  have 1: "fill_step counts limit (CHR ''$'') (int (length pre)) st = Some (Inr (int (length pre), ?st1))"
    using assms(1) by (simp add: fill_step_def flat_state_def)
  have 2: "fill_at counts limit (pre @ ''$'') (x @ CHR ''$'' # rest) ?st1 = fill_at counts limit ((pre @ ''$'') @ x) (CHR ''$'' # rest) ?st2"
    using assms by (subst fill_variable_name) (simp_all add: flat_state_def)
  have 3: "fill_step counts limit (CHR ''$'') ?i ?st2 = Some (Inr (?i, st3))"
    using e by (simp add: fill_step_def)
  have "fill_at counts limit pre (segment_text (Variable x) @ rest) st = fill_at counts limit (pre @ segment_text (Variable x)) rest st3"
    using fill_at_step [OF 1, of "x @ CHR ''$'' # rest"] 2 fill_at_step [OF 3, of rest] by simp
  with st3 show ?thesis by blast
qed

lemma fill_segments:
  "list_all segment_ok ss \<Longrightarrow> flat_state st \<Longrightarrow> length (xml st) + length (expand (unused (live_fields st)) ss) < limit \<Longrightarrow>
     \<exists>st'. fill_at counts limit pre (template_text ss) st = Some (Inr st') \<and> xml st' = xml st @ expand (unused (live_fields st)) ss"
proof (induction ss arbitrary: pre st)
  case Nil
  then show ?case by (subst fill_loop.simps) (simp add: template_text_def)
next
  case (Cons s ss)
  let ?fs = "unused (live_fields st)"
  have tt: "template_text (s # ss) = segment_text s @ template_text ss" by (simp add: template_text_def)
  obtain st1 where st1: "fill_at counts limit pre (segment_text s @ template_text ss) st =
      fill_at counts limit (pre @ segment_text s) (template_text ss) st1" "flat_state st1"
    and x: "xml st @ expand ?fs (s # ss) = xml st1 @ expand (unused (live_fields st1)) ss"
  proof (cases s)
    case (Tag t)
    with fill_tag [OF Cons.prems(2), of t limit counts pre "template_text ss"] Cons.prems that show ?thesis by auto
  next
    case (Literal t)
    with fill_literal [of t st limit counts pre "template_text ss"] Cons.prems that [of "st\<lparr>xml := xml st @ t\<rparr>"]
    show ?thesis by (simp add: flat_state_def)
  next
    case (Variable x)
    with fill_variable [OF Cons.prems(2), of x limit counts pre "template_text ss"] Cons.prems that
    show ?thesis by (auto split: option.splits)
  qed
  have "length (xml st1) + length (expand (unused (live_fields st1)) ss) < limit"
    using Cons.prems(3) arg_cong [OF x, of length] by simp
  with Cons.IH [of st1 "pre @ segment_text s"] Cons.prems(1) st1 x show ?case by (simp add: tt)
qed



end
