(* ===== verification/TemplateLoop.thy ===== *)
theory TemplateLoop
  imports Template
begin

text \<open>
  The loop of \<^verbatim>\<open>stripped2xml\<close> over the template sets its index back at the end of each record of a sub-form. Counting its passes shows
  that it ends: each time it goes back, a field was used up that is not there the next time.
\<close>

section \<open>Passes of the loop\<close>

text \<open>The loop of the code, given up (\<open>None\<close>) after a number of passes.\<close>

fun fill_run :: "nat \<Rightarrow> nat list \<Rightarrow> nat \<Rightarrow> string \<Rightarrow> int \<Rightarrow> fill_state \<Rightarrow> (int + fill_state) option option" where
  "fill_run 0 counts limit template i st = None"
| "fill_run (Suc n) counts limit template i st =
     (if i < 0 then Some None
      else if i \<ge> int (length template) then Some (Some (Inr st))
      else case fill_step counts limit (template ! nat i) i st of
             None \<Rightarrow> Some None
           | Some (Inl e) \<Rightarrow> Some (Some (Inl e))
           | Some (Inr (i', st')) \<Rightarrow> fill_run n counts limit template (i' + 1) st')"

definition passes_left :: "string \<Rightarrow> int \<Rightarrow> fill_state \<Rightarrow> nat" where
  "passes_left template i st = fields_left st * (length template + 1) + (if i < 0 then 0 else length template - nat i) + 1"

lemma passes_decrease:
  assumes "fill_step counts limit c i st = Some (Inr (i', st'))" "0 \<le> i" "i < int (length template)"
  shows "passes_left template (i' + 1) st' < passes_left template i st"
  using fill_step_left [OF assms(1)]
proof
  assume "fields_left st' < fields_left st"
  then have "Suc (fields_left st') * (length template + 1) \<le> fields_left st * (length template + 1)" by (intro mult_right_mono) simp_all
  moreover have "length template - nat (i' + 1) \<le> length template" by simp
  ultimately show ?thesis by (auto simp: passes_left_def)
next
  assume i: "i' = i \<and> fields_left st' \<le> fields_left st"
  then have "fields_left st' * (length template + 1) \<le> fields_left st * (length template + 1)" by (blast intro: mult_right_mono le0)
  with i assms(2,3) show ?thesis by (simp add: passes_left_def)
qed

lemma fill_run_enough: "passes_left template i st \<le> n \<Longrightarrow> fill_run n counts limit template i st = Some (fill_loop counts limit template i st)"
proof (induction n arbitrary: i st)
  case (Suc n)
  have less: "passes_left template (i' + 1) st' \<le> n"
    if "fill_step counts limit (template ! nat i) i st = Some (Inr (i', st'))" "\<not> i < 0" "\<not> i \<ge> int (length template)" for i' st'
    using passes_decrease [OF that(1), of template] that(2,3) Suc.prems by simp
  show ?case
    using less Suc.IH by (auto simp: fill_loop.simps [of counts limit template i st] split: option.split sum.split)
qed (simp add: passes_left_def)

section \<open>The number of fields\<close>

lemma read_step_fields:
  "read_step sgn_char c st = Some (Inr st') \<Longrightarrow> length (fill_fields st) \<le> 1024 \<Longrightarrow> length (fill_fields st') \<le> 1024"
  by (auto simp: read_step_def Let_def split: if_splits)

lemma read_loop_fields:
  "read_loop sgn_char cs st = Some (Inr st') \<Longrightarrow> length (fill_fields st) \<le> 1024 \<Longrightarrow> length (fill_fields st') \<le> 1024"
proof (induction cs arbitrary: st)
  case (Cons c cs)
  then obtain st1 where "read_step sgn_char c st = Some (Inr st1)" "read_loop sgn_char cs st1 = Some (Inr st')"
    by (auto split: option.splits sum.splits)
  with Cons read_step_fields show ?case by blast
qed simp

text \<open>(C21) Filling a template ends: whatever fields were read from the stripped text and however the template goes back at the ends of
  sub-form records, the loop over the template is done after at most 2049 passes for each of its characters and one more.\<close>

theorem template_loop_ends:
  assumes "read_loop sgn_char text read_start = Some (Inr st)"
  shows "fill_run (2049 * (length template + 1)) (record_count st) limit template 0 (fill_start (fill_fields st)) =
    Some (fill_loop (record_count st) limit template 0 (fill_start (fill_fields st)))"
proof (rule fill_run_enough)
  let ?fs = "fill_fields st"
  have "length ?fs \<le> 1024" using read_loop_fields [OF assms] by (simp add: read_start_def)
  moreover have "fields_left (fill_start ?fs) \<le> 2 * length ?fs" by (simp add: fields_left_def fill_start_def)
  ultimately have "fields_left (fill_start ?fs) * (length template + 1) \<le> 2048 * (length template + 1)" by (intro mult_right_mono) simp_all
  then show "passes_left template 0 (fill_start ?fs) \<le> 2049 * (length template + 1)" by (simp add: passes_left_def)
qed

theorem template_loop_ends_witness:
  "\<exists>st. read_loop True (''{'' @ [CHR 0x0A] @ ''{c=x'' @ [CHR 0x0A] @ ''}{c=y'' @ [CHR 0x0A] @ ''}}'') read_start = Some (Inr st) \<and>
     length (fill_fields st) = 2 \<and>
     fill_run (2049 * (length ''<dd:subform> <data>$c$</data></dd:subform>'' + 1)) (record_count st) 200
       ''<dd:subform> <data>$c$</data></dd:subform>'' 0 (fill_start (fill_fields st)) =
     Some (fill_loop (record_count st) 200 ''<dd:subform> <data>$c$</data></dd:subform>'' 0 (fill_start (fill_fields st)))"
proof -
  let ?text = "''{'' @ [CHR 0x0A] @ ''{c=x'' @ [CHR 0x0A] @ ''}{c=y'' @ [CHR 0x0A] @ ''}}''"
  have "\<exists>st. read_loop True ?text read_start = Some (Inr st) \<and> length (fill_fields st) = 2"
    by (simp add: read_step_def read_start_def Let_def char_value_def)
  then show ?thesis using template_loop_ends by blast
qed

end
