(* ===== verification/RecipeText.thy ===== *)
theory RecipeText
  imports RecipeProps
begin

text \<open>
  Form definitions as text: decimal numbers as \<^verbatim>\<open>sscanf\<close> reads them, the line of a field, and the round trip of a
  whole recipe through \<^const>\<open>recipe_read\<close>.
\<close>

section \<open>Recipes as text\<close>

fun show_nat :: "nat \<Rightarrow> string" where
  "show_nat n = (if n < 10 then [char_of (48 + n)] else show_nat (n div 10) @ [char_of (48 + n mod 10)])"

declare show_nat.simps [simp del]

definition show_int :: "int \<Rightarrow> string" where
  "show_int v = (if v < 0 then CHR ''-'' # show_nat (nat (- v)) else show_nat (nat v))"

lemma digit_char:
  assumes "n < 10"
  shows "is_digit (char_of (48 + n))" "digit_value (char_of (48 + n)) = int n" "\<not> is_space (char_of (48 + n))"
proof -
  have "(of_char (char_of (48 + n) :: char) :: nat) = 48 + n" using assms by simp
  moreover from this have "(of_char (char_of (48 + n) :: char) :: int) = 48 + int n"
    by (metis of_nat_add of_nat_numeral of_nat_of_char)
  ultimately show "is_digit (char_of (48 + n))" "digit_value (char_of (48 + n)) = int n" "\<not> is_space (char_of (48 + n))"
    using assms by (simp_all add: is_digit_def digit_value_def is_space_def)
qed

lemma digits_value_snoc: "digits_value (s @ [c]) = 10 * digits_value s + digit_value c"
  by (simp add: digits_value_def)

lemma show_nat_digits: "list_all is_digit (show_nat n) \<and> digits_value (show_nat n) = int n \<and> show_nat n \<noteq> []"
proof (induction n rule: show_nat.induct)
  case (1 n)
  show ?case
  proof (cases "n < 10")
    case True
    then show ?thesis by (subst (1 2 3) show_nat.simps) (simp add: digit_char digits_value_def)
  next
    case False
    have "int n = 10 * int (n div 10) + int (n mod 10)" using div_mult_mod_eq [of n 10] by linarith
    with 1 False show ?thesis
      by (subst (1 2 3) show_nat.simps) (simp add: digit_char digits_value_snoc)
  qed
qed

lemma is_digit_chars: "is_digit c \<Longrightarrow> c \<noteq> CHR ''-'' \<and> c \<noteq> CHR ''+'' \<and> \<not> is_space c \<and> c \<noteq> CHR 0x00 \<and> \<not> is_eol c"
  by (auto simp: is_digit_def is_space_def is_eol_def Let_def)

lemma takeWhile_digits:
  assumes "list_all is_digit s" "r = [] \<or> \<not> is_digit (hd r)"
  shows "takeWhile is_digit (s @ r) = s"
proof -
  have "takeWhile is_digit r = []" using assms(2) by (cases r) auto
  with assms(1) show ?thesis by (simp add: list_all_iff)
qed

lemma scan_d_show_int:
  assumes "- (2 ^ 31) \<le> v" "v < 2 ^ 31" "r = [] \<or> \<not> is_digit (hd r)"
  shows "scan_d (show_int v @ r) = Some (v, r)"
proof -
  let ?ds = "show_nat (nat \<bar>v\<bar>)"
  note ds = show_nat_digits [of "nat \<bar>v\<bar>"]
  then obtain c cs where c: "?ds = c # cs" "is_digit c" by (cases ?ds) auto
  have t: "takeWhile is_digit (?ds @ r) = ?ds" using ds assms(3) by (intro takeWhile_digits) auto
  note nc = is_digit_chars [OF c(2)]
  have "scan_number (show_int v @ r) = Some (saturate64 v, r)"
  proof (cases "v < 0")
    case True
    then have s: "show_int v = CHR ''-'' # ?ds" by (simp add: show_int_def)
    have "\<not> is_space CHR ''-''" by (simp add: is_space_def)
    then show ?thesis unfolding s using True t ds c nc by (simp add: scan_number_def Let_def)
  next
    case False
    then have s: "show_int v = ?ds" by (simp add: show_int_def)
    then show ?thesis unfolding s using False t ds c nc by (simp add: scan_number_def Let_def)
  qed
  moreover have "saturate64 v = v" using assms(1,2) by (simp add: saturate64_def)
  ultimately show ?thesis using to_int32_id [OF assms(1,2)] by (simp add: scan_d_def)
qed

lemma show_int_plain: "\<forall>c \<in> set (show_int v). c \<noteq> CHR 0x00 \<and> \<not> is_eol c"
  using show_nat_digits [of "nat v"] show_nat_digits [of "nat (- v)"] is_digit_chars
  by (auto simp: show_int_def list_all_iff is_eol_def)

fun commas :: "string list \<Rightarrow> string" where
  "commas [] = []"
| "commas [v] = v"
| "commas (v # w # vs) = v @ '','' @ commas (w # vs)"

definition field_line :: "field \<Rightarrow> string" where
  "field_line f = field_name f @ '':'' @ recipe_field_type_name (field_type f) @ '':'' @ show_int (minimum f) @ '':'' @
     show_int (maximum f) @ '':'' @ show_int (precision f) @ '':'' @ commas (enum_value f)"

abbreviation recipe_text :: "field list \<Rightarrow> string" where
  "recipe_text fs \<equiv> concat (map (\<lambda>f. field_line f @ [CHR 0x0A]) fs)"

definition int32 :: "int \<Rightarrow> bool" where "int32 v \<longleftrightarrow> - (2 ^ 31) \<le> v \<and> v < 2 ^ 31"

text \<open>Fields whose line is readable.\<close>

definition field_line_ok :: "field \<Rightarrow> bool" where
  "field_line_ok f \<longleftrightarrow> field_wf f \<and> plain (field_name f) \<and> CHR '':'' \<notin> set (field_name f) \<and> hd (field_name f) \<noteq> CHR ''#'' \<and>
     int32 (minimum f) \<and> int32 (maximum f) \<and> int32 (precision f) \<and>
     (\<forall>v \<in> set (enum_value f). plain v \<and> CHR '','' \<notin> set v) \<and> length (field_line f) \<le> 16380"

lemma enum_values_prefix:
  "CHR '','' \<notin> set v \<Longrightarrow> enum_values n cur vals (v @ r) = enum_values n (cur @ v) vals r"
  by (induction v arbitrary: cur) auto

lemma enum_values_commas:
  assumes "vs \<noteq> []" "\<forall>v \<in> set vs. CHR '','' \<notin> set v \<and> length v < 1024" "length vals + length vs \<le> 32"
  shows "enum_values n [] vals (commas vs) = Some (Inr (vals @ vs))"
  using assms
proof (induction vs arbitrary: vals rule: commas.induct)
  case (2 v)
  then show ?case using enum_values_prefix [of v n "[]" vals "[]"] by simp
next
  case (3 v w vs)
  then have "enum_values n [] vals (commas (v # w # vs)) = enum_values n [] (vals @ [v]) (commas (w # vs))"
    using enum_values_prefix [of v n "[]" vals "CHR '','' # commas (w # vs)"] by simp
  with 3 show ?case by simp
qed simp

lemma commas_plain: "\<forall>v \<in> set vs. plain v \<Longrightarrow> plain (commas vs)"
  by (induction vs rule: commas.induct) (auto simp: plain_def)

lemma type_name_plain: "plain (recipe_field_type_name t) \<and> CHR '':'' \<notin> set (recipe_field_type_name t) \<and> recipe_field_type_name t \<noteq> []"
  by (simp add: recipe_field_type_name_def plain_def)

lemma show_int_plain': "plain (show_int v)"
  using show_int_plain [of v] by (auto simp: plain_def is_eol_def)

lemma field_line_plain: "field_line_ok f \<Longrightarrow> plain (field_line f)"
  using commas_plain [of "enum_value f"] type_name_plain [of "field_type f"] show_int_plain' [of "minimum f"]
    show_int_plain' [of "maximum f"] show_int_plain' [of "precision f"]
  by (auto simp: field_line_ok_def field_line_def plain_def)

lemma scan_field_line:
  assumes "field_line_ok f"
  shows "scan_field (c_str (field_line f)) =
    Some (field_name f, recipe_field_type_name (field_type f), minimum f, maximum f, precision f, commas (enum_value f))"
proof -
  have "c_str (field_line f) = field_line f"
    using field_line_plain [OF assms] by (intro c_str_id) (simp add: plain_def)
  moreover have "CHR '':'' \<notin> set (field_name f)" "field_name f \<noteq> []"
    using assms by (auto simp: field_line_ok_def field_wf_def)
  note scan_not_Some(1) [OF this]
  moreover note scan_not_Some(1) [of "CHR '':''" "recipe_field_type_name (field_type f)"] type_name_plain [of "field_type f"]
  moreover have colon: "\<not> is_digit CHR '':''" by (simp add: is_digit_def)
  have "scan_d (show_int v @ CHR '':'' # r) = Some (v, CHR '':'' # r)" if "int32 v" for v r
    using scan_d_show_int [of v "CHR '':'' # r"] colon that by (simp add: int32_def)
  moreover have "Option.bind (Some (commas (enum_value f))) (scan_not (CHR 0x0A)) =
      (if commas (enum_value f) = [] then None else Some (commas (enum_value f), []))"
    using commas_plain [of "enum_value f"] assms scan_not_Some(2) [of "CHR 0x0A" "commas (enum_value f)"]
    by (auto simp: field_line_ok_def plain_def scan_not_def)
  ultimately show ?thesis
    using assms by (simp add: scan_field_def field_line_def field_line_ok_def)
qed

lemma recipe_line_field:
  assumes "field_line_ok f"
  shows "recipe_line n (field_line f) = Some (Inr f)"
proof -
  have wf: "field_wf f" using assms by (simp add: field_line_ok_def)
  have "recipe_parse_fieldtype (recipe_field_type_name (field_type f)) = field_type f"
    using wf by (intro type_name_parsed) (auto simp: field_wf_def)
  moreover have "enum_values n [] [] (commas (enum_value f)) = Some (Inr (enum_value f))" if "enum_type (field_type f)"
    using that wf assms enum_values_commas [of "enum_value f" "[]" n]
    by (cases "enum_value f = []") (auto simp: field_wf_def field_line_ok_def)
  ultimately show ?thesis
    using wf by (auto simp: recipe_line_def scan_field_line [OF assms] field_wf_def enum_type_def Let_def type_name_parsed
        intro!: field.equality split: if_splits)
qed

lemma recipe_lines_line:
  assumes "\<forall>c \<in> set s. \<not> is_eol c" "length line + length s \<le> 16380"
  shows "recipe_lines n line fs (s @ CHR 0x0A # rest) =
    (case recipe_line_end n (line @ s) fs of None \<Rightarrow> None | Some (Inl e) \<Rightarrow> Some (Inl e) | Some (Inr fs') \<Rightarrow> recipe_lines (n + 1) [] fs' rest)"
  using assms by (induction s arbitrary: line) (auto simp: is_eol_def)

lemma field_line_start: "field_line_ok f \<Longrightarrow> field_line f \<noteq> [] \<and> hd (field_line f) \<noteq> CHR ''#''"
  by (auto simp: field_line_ok_def field_wf_def field_line_def)

lemma recipe_lines_text:
  assumes "\<forall>f \<in> set fs. field_line_ok f" "length gs + length fs \<le> 1000"
  shows "\<exists>n'. recipe_lines n [] gs (recipe_text fs @ rest) = recipe_lines n' [] (gs @ fs) rest"
  using assms
proof (induction fs arbitrary: n gs)
  case (Cons f fs)
  have ok: "field_line_ok f" using Cons.prems by simp
  have "recipe_lines n [] gs (field_line f @ CHR 0x0A # recipe_text fs @ rest) =
      recipe_lines (n + 1) [] (gs @ [f]) (recipe_text fs @ rest)"
    using recipe_lines_line [of "field_line f" "[]" n gs] plain_no_eol [OF field_line_plain [OF ok]] ok
      recipe_line_field [OF ok, of n] field_line_start [OF ok] Cons.prems(2)
    by (simp add: recipe_line_end_def field_line_ok_def)
  moreover obtain n' where "recipe_lines (n + 1) [] (gs @ [f]) (recipe_text fs @ rest) = recipe_lines n' [] ((gs @ [f]) @ fs) rest"
    using Cons.IH [of "gs @ [f]" "n + 1"] Cons.prems by auto
  ultimately show ?case by auto
qed auto

text \<open>(C12) Round trip of form definitions: the text of up to 1000 fields is read back as a recipe with exactly these fields, in
  order, under the hash of its name.\<close>

theorem recipe_round_trip:
  assumes "\<forall>f \<in> set fs. field_line_ok f" "fs \<noteq> []" "length fs \<le> 1000" "length (recipe_text fs) \<le> 1048576"
    and "form_basename file = Some name"
  shows "\<exists>hash. recipe_form_hash junk file = Some (hash, name) \<and> recipe_read junk file (recipe_text fs) =
    Some (Inr \<lparr>formhash = hash, formname = name, field_list = fs, field_count = length fs\<rparr>)"
proof -
  obtain n where "recipe_lines 1 [] [] (recipe_text fs @ []) = recipe_lines n [] ([] @ fs) []"
    using recipe_lines_text [OF assms(1), of "[]" 1 "[]"] assms(3) by auto
  then have l: "recipe_lines 1 [] [] (recipe_text fs) = Some (Inr fs)"
    using assms(3) by (simp add: recipe_line_end_def)
  have ne: "recipe_text fs \<noteq> []" using assms(2) by auto
  show ?thesis
    unfolding recipe_read_def l recipe_form_hash_eq assms(5) using ne assms(4) by (simp del: concat_eq_Nil_conv)
qed

definition sample_fields :: "field list" where
  "sample_fields = [\<lparr>field_name = ''age'', field_type = 0, minimum = -5, maximum = 120, precision = 0, enum_value = [], enum_count = 0\<rparr>,
     \<lparr>field_name = ''crop'', field_type = 10, minimum = 0, maximum = 0, precision = 0, enum_value = [''rice'', ''maize''], enum_count = 2\<rparr>]"

theorem recipe_round_trip_witness:
  "\<exists>hash. recipe_form_hash (\<lambda>_. 0) ''f.recipe'' = Some (hash, ''f'') \<and> recipe_read (\<lambda>_. 0) ''f.recipe'' (recipe_text sample_fields) =
    Some (Inr \<lparr>formhash = hash, formname = ''f'', field_list = sample_fields, field_count = length sample_fields\<rparr>)"
proof (rule recipe_round_trip)
  have sn: "show_int 0 = ''0''" "show_int 120 = ''120''" "show_int (-5) = ''-5''"
    by code_simp+
  show "\<forall>f \<in> set sample_fields. field_line_ok f"
    by (simp add: sample_fields_def field_line_ok_def field_wf_def enum_type_def plain_def int32_def field_line_def sn recipe_field_type_name_def)
  show "length (recipe_text sample_fields) \<le> 1048576"
    by (simp add: sample_fields_def field_line_def sn recipe_field_type_name_def)
  show "form_basename ''f.recipe'' = Some ''f''" by code_simp
qed (simp_all add: sample_fields_def)

end
