(* ===== verification/XhtmlRecipe.thy ===== *)
theory XhtmlRecipe
  imports RecipeText
begin

text \<open>
  \<^verbatim>\<open>forms/xhtml2recipe.c\<close>: recipes and a template from the XHTML definition of a form. The XML parser calls three handlers, which
  here are functions from an event and the parse state to the next state; \<open>None\<close> stands for a null or wild pointer that
  is followed and for a write behind a buffer. The parser itself is an argument: the events it delivers for a text and whether it
  succeeded.

  The linked lists of recipes and tags are lists with the position of the current node: appending to a current node that is not
  the last one drops the nodes behind it, as overwriting its \<^verbatim>\<open>next\<close> pointer does. Of the doubly linked list of sub-forms only
  the chain of \<^verbatim>\<open>prev\<close> pointers from the current node is ever followed, so it is a stack.
\<close>

section \<open>Strings that grow\<close>

record str_builder =
  str_len :: nat
  alloc_len :: nat
  str :: "string option"

definition empty_builder :: str_builder where
  "empty_builder = \<lparr>str_len = 0, alloc_len = 0, str = None\<rparr>"

function double_until :: "nat \<Rightarrow> nat \<Rightarrow> nat" where
  "double_until need new_len = (if 0 < new_len \<and> new_len < need then double_until need (new_len * 2) else new_len)"
  by pat_completeness auto
termination
  by (relation "measure (\<lambda>(need, new_len). need - new_len)") auto

declare double_until.simps [simp del]

text \<open>The text is written at \<^verbatim>\<open>str_len\<close>, over the terminating NUL.\<close>

definition strgrow :: "str_builder \<Rightarrow> string \<Rightarrow> str_builder" where
  "strgrow b new_segment =
     (if new_segment = [] then b
      else let len = length new_segment;
               need = str_len b + len + 1;
               old = (case str b of None \<Rightarrow> [] | Some s \<Rightarrow> s);
               new_alloc = (if alloc_len b < need then double_until need (max 256 (alloc_len b)) else alloc_len b)
           in b\<lparr>alloc_len := new_alloc, str := Some (take (str_len b) old @ new_segment), str_len := str_len b + len\<rparr>)"

section \<open>The parse state\<close>

record recipe_node =
  is_subform_node :: bool
  formversion :: string
  recipe_str :: str_builder
  selects :: "str_builder list"

record tag_node =
  tagname :: string
  tag_formversion :: string

record parse_state =
  recipes :: "recipe_node list"
  curr_r :: "nat option"
  tags :: "tag_node list"
  curr_t :: "nat option"
  subforms :: "string list"
  xhtmlFormName :: "string option"
  xhtmlFormVersion :: "string option"
  xhtml2template :: str_builder
  xhtmlSelectElem :: "string option"
  xhtmlSelectFirst :: bool
  xhtml_in_value :: bool
  xhtml_in_instance :: bool
  xhtml_in_subform :: nat
  subform_tags :: "string list"

definition parse_start :: parse_state where
  "parse_start = \<lparr>recipes = [], curr_r = None, tags = [], curr_t = None, subforms = [], xhtmlFormName = None, xhtmlFormVersion = None,
     xhtml2template = empty_builder, xhtmlSelectElem = None, xhtmlSelectFirst = True, xhtml_in_value = False, xhtml_in_instance = False,
     xhtml_in_subform = 0, subform_tags = replicate 10 []\<rparr>"

definition nl :: string where "nl = [CHR 0x0A]"

definition implied_meta_fields :: string where
  "implied_meta_fields =
     ''userid:string:0:0:0'' @ nl @ ''accesstoken:string:0:0:0'' @ nl @ ''formid:string:0:0:0'' @ nl @
     ''lastsubmittime:magpitimestamp:0:0:0'' @ nl @ ''endrecordtime:magpitimestamp:0:0:0'' @ nl @
     ''startrecordtime:magpitimestamp:0:0:0'' @ nl @ ''version:string:0:0:0'' @ nl @ ''uuid:magpiuuid:0:0:0'' @ nl @
     ''latitude:float:-90:90:0'' @ nl @ ''longitude:float:-200:200:0'' @ nl"

definition implied_meta_fields_subforms :: string where
  "implied_meta_fields_subforms = ''formid:string:0:0:0'' @ nl @ ''question:string:0:0:0'' @ nl @ ''uuid:magpiuuid:0:0:0'' @ nl"

definition implied_meta_fields_template_subform :: string where
  "implied_meta_fields_template_subform = ''<formid>$formid$</formid>'' @ nl @ ''<question>$question$</question>'' @ nl"

definition implied_data_fields_template_subform :: string where
  "implied_data_fields_template_subform = ''<uuid>$uuid$</uuid>'' @ nl"

section \<open>Lists\<close>

text \<open>A node after the current one, which becomes the current one, or in front of all others.\<close>

definition add_node :: "bool \<Rightarrow> 'a \<Rightarrow> 'a list \<Rightarrow> nat option \<Rightarrow> 'a list \<times> nat option" where
  "add_node add_to_end x xs cur =
     (case cur of
        Some i \<Rightarrow> if add_to_end then (take (Suc i) xs @ [x], Some (Suc i)) else (x # xs, Some (Suc i))
      | None \<Rightarrow> (x # xs, Some 0))"

definition add_to_list_recipes :: "string \<Rightarrow> bool \<Rightarrow> parse_state \<Rightarrow> parse_state option" where
  "add_to_list_recipes version add_to_end st =
     (if length version \<ge> 1024 then None
      else let (rs, c) = add_node add_to_end \<lparr>is_subform_node = False, formversion = version, recipe_str = empty_builder, selects = []\<rparr>
                           (recipes st) (curr_r st)
           in Some (st\<lparr>recipes := rs, curr_r := c\<rparr>))"

definition add_to_list_tags :: "string \<Rightarrow> string \<Rightarrow> bool \<Rightarrow> parse_state \<Rightarrow> parse_state" where
  "add_to_list_tags name version add_to_end st =
     (let (ts, c) = add_node add_to_end \<lparr>tagname = name, tag_formversion = version\<rparr> (tags st) (curr_t st)
      in st\<lparr>tags := ts, curr_t := c\<rparr>)"

definition add_to_list_subforms :: "string \<Rightarrow> parse_state \<Rightarrow> parse_state" where
  "add_to_list_subforms version st = st\<lparr>subforms := version # subforms st\<rparr>"

fun position :: "('a \<Rightarrow> bool) \<Rightarrow> 'a list \<Rightarrow> nat option" where
  "position p [] = None"
| "position p (x # xs) = (if p x then Some 0 else map_option Suc (position p xs))"

definition search_in_list_recipes :: "string \<Rightarrow> parse_state \<Rightarrow> nat option" where
  "search_in_list_recipes version st = position (\<lambda>r. formversion r = version) (recipes st)"

definition search_in_list_tags :: "string \<Rightarrow> parse_state \<Rightarrow> nat option" where
  "search_in_list_tags name st = position (\<lambda>t. tagname t = name) (tags st)"

text \<open>Access through \<^verbatim>\<open>curr_r\<close>, \<^verbatim>\<open>curr_t\<close> and \<^verbatim>\<open>curr_s\<close>.\<close>

definition update_recipe :: "(recipe_node \<Rightarrow> recipe_node option) \<Rightarrow> parse_state \<Rightarrow> parse_state option" where
  "update_recipe g st = do {
     i \<leftarrow> curr_r st;
     r \<leftarrow> g (recipes st ! i);
     Some (st\<lparr>recipes := (recipes st)[i := r]\<rparr>) }"

definition grow_template :: "string \<Rightarrow> parse_state \<Rightarrow> parse_state" where
  "grow_template s st = st\<lparr>xhtml2template := strgrow (xhtml2template st) s\<rparr>"

definition grow_recipe :: "string \<Rightarrow> parse_state \<Rightarrow> parse_state option" where
  "grow_recipe s = update_recipe (\<lambda>r. Some (r\<lparr>recipe_str := strgrow (recipe_str r) s\<rparr>))"

section \<open>Start of an element\<close>

type_synonym attributes = "(string \<times> string) list"

definition first_attribute :: "string \<Rightarrow> attributes \<Rightarrow> string option" where
  "first_attribute name attr = (case attr of (n, v) # _ \<Rightarrow> if n = name then Some v else None | [] \<Rightarrow> None)"

definition start_form :: "attributes \<Rightarrow> parse_state \<Rightarrow> parse_state option" where
  "start_form attr st =
     (case first_attribute ''dd:formid'' attr of
        None \<Rightarrow> Some st
      | Some version \<Rightarrow> do {
          st \<leftarrow> add_to_list_recipes version True st;
          st \<leftarrow> update_recipe (\<lambda>r. Some (r\<lparr>is_subform_node := False\<rparr>)) st;
          st \<leftarrow> grow_recipe implied_meta_fields st;
          Some (add_to_list_subforms version st) })"

definition start_subform :: "string \<Rightarrow> string \<Rightarrow> parse_state \<Rightarrow> parse_state option" where
  "start_subform el version st = do {
     st \<leftarrow> add_to_list_recipes version True st;
     st \<leftarrow> grow_recipe implied_meta_fields_subforms st;
     st \<leftarrow> update_recipe (\<lambda>r. Some (r\<lparr>is_subform_node := True\<rparr>)) st;
     let st = add_to_list_tags el version True (add_to_list_subforms version st);
     let depth = xhtml_in_subform st + 1;
     (if depth \<ge> 10 then None
      else Some (fold grow_template
        [''<dd:subform xmlns:dd='' @ [CHR 0x22] @ ''http://datadyne.org/javarosa'' @ [CHR 0x22] @ ''> '' @ nl, ''<meta> '' @ nl,
         implied_meta_fields_template_subform, ''</meta> '' @ nl, ''<data> '' @ nl, implied_data_fields_template_subform]
        (st\<lparr>xhtml_in_subform := depth, subform_tags := (subform_tags st)[depth := el]\<rparr>))) }"

definition start_instance_element :: "string \<Rightarrow> attributes \<Rightarrow> parse_state \<Rightarrow> parse_state" where
  "start_instance_element el attr st =
     (let st = (case subforms st of [] \<Rightarrow> st | version # _ \<Rightarrow> add_to_list_tags el version True st);
          st = grow_template el (grow_template ''<'' st);
          st = fold (\<lambda>(n, v) st. fold grow_template ['' '', n, ''='' @ [CHR 0x22], v, [CHR 0x22]] st) attr st
      in fold grow_template [''>$'', el, ''$''] st)"

text \<open>What a \<^verbatim>\<open>bind\<close> element says of its node. \<open>node_name\<close> points behind the last slash of the path; without a slash it is wild.\<close>

record bind_info =
  node_name :: string
  node_constraint :: string
  bind_type :: int

definition after_last :: "char \<Rightarrow> string \<Rightarrow> string option" where
  "after_last x s = (if x \<in> set s then Some (rev (takeWhile (\<lambda>c. c \<noteq> x) (rev s))) else None)"

definition after_first :: "char \<Rightarrow> string \<Rightarrow> string option" where
  "after_first x s = (if x \<in> set s then Some (tl (dropWhile (\<lambda>c. c \<noteq> x) s)) else None)"

definition attr_prefix :: "string \<Rightarrow> string \<Rightarrow> bool" where
  "attr_prefix name a \<longleftrightarrow> strncasecmp_0 name a (length name)"

definition last_type :: "attributes \<Rightarrow> string" where
  "last_type attr = fold (\<lambda>(n, v) t. if attr_prefix ''type'' n then v else t) attr []"

definition bind_nodeset :: "attributes \<Rightarrow> string \<Rightarrow> bind_info \<times> parse_state \<Rightarrow> (bind_info \<times> parse_state) option" where
  "bind_nodeset attr path = (\<lambda>(b, st). do {
     name \<leftarrow> after_last (CHR ''/'') path;
     let t = search_in_list_tags name st;
     let st = st\<lparr>curr_t := t\<rparr>;
     let st = (case t of
                 Some i \<Rightarrow> if \<not> strcasecmp_0 (last_type attr) ''xsd:subform''
                           then st\<lparr>curr_r := search_in_list_recipes (tag_formversion (tags st ! i)) st\<rparr> else st
               | None \<Rightarrow> st);
     Some (b\<lparr>node_name := name\<rparr>, st) })"

definition bind_attribute :: "attributes \<Rightarrow> string \<times> string \<Rightarrow> bind_info \<times> parse_state \<Rightarrow> (bind_info \<times> parse_state) option" where
  "bind_attribute attr = (\<lambda>(n, v) (b, st). do {
     (b, st) \<leftarrow> (if attr_prefix ''nodeset'' n then bind_nodeset attr v (b, st) else Some (b, st));
     let b = (if attr_prefix ''type'' n
              then b\<lparr>bind_type := recipe_parse_fieldtype (case after_first (CHR '':'') v of None \<Rightarrow> v | Some r \<Rightarrow> r)\<rparr> else b);
     Some (if attr_prefix ''constraint'' n then b\<lparr>node_constraint := v\<rparr> else b, st) })"

fun bind_attributes :: "attributes \<Rightarrow> attributes \<Rightarrow> bind_info \<times> parse_state \<Rightarrow> (bind_info \<times> parse_state) option" where
  "bind_attributes attr [] x = Some x"
| "bind_attributes attr (a # as) x = Option.bind (bind_attribute attr a x) (bind_attributes attr as)"

text \<open>The range of a number: the first two numbers of the constraint, 0 to 999 without one; \<open>None\<close> is an overflow of \<^verbatim>\<open>a + 999\<close>.\<close>

definition bind_range :: "string \<Rightarrow> (int \<times> int) option" where
  "bind_range constraint =
     (if constraint = [] then Some (0, 999)
      else let p = dropWhile (\<lambda>c. \<not> is_digit c) constraint;
               a = atoi p;
               b = atoi (dropWhile (\<lambda>c. \<not> is_digit c) (dropWhile is_digit p))
           in if b > a then Some (a, b) else if int32 (a + 999) then Some (a, a + 999) else None)"

text \<open>The line of the recipe, which has to fit a buffer of 4096 characters.\<close>

definition bind_line :: "bind_info \<Rightarrow> parse_state \<Rightarrow> string option" where
  "bind_line b st = do {
     (mn, mx) \<leftarrow> (if bind_type b = FIELDTYPE_INTEGER \<or> bind_type b = FIELDTYPE_FIXEDPOINT then bind_range (node_constraint b)
                    else Some (0, 0));
     line \<leftarrow> (if bind_type b = FIELDTYPE_SUBFORM
              then map_option (\<lambda>i. ''subform/'' @ tag_formversion (tags st ! i) @ '':subform:0:0:0'') (curr_t st)
              else Some (node_name b @ '':'' @ recipe_field_type_name (bind_type b) @ '':'' @ show_int mn @ '':'' @ show_int mx @ '':0''));
     (if length line \<ge> 4096 then None else Some line) }"

definition start_bind :: "attributes \<Rightarrow> parse_state \<Rightarrow> parse_state option" where
  "start_bind attr st = do {
     (b, st) \<leftarrow> bind_attributes attr attr (\<lparr>node_name = [], node_constraint = [], bind_type = -1\<rparr>, st);
     let b = (if strcasecmp_0 (node_name b) ''instanceID'' then b\<lparr>bind_type := FIELDTYPE_UUID\<rparr> else b);
     (if bind_type b = -1 then Some st
      else do {
        line \<leftarrow> bind_line b st;
        (if bind_type b = FIELDTYPE_MULTISELECT \<or> bind_type b = FIELDTYPE_ENUM
         then update_recipe (\<lambda>r. if length (selects r) \<ge> 1024 then None
                                 else Some (r\<lparr>selects := selects r @ [strgrow empty_builder line]\<rparr>)) st
         else do { st \<leftarrow> grow_recipe line st; grow_recipe nl st }) }) }"

definition start_select :: "attributes \<Rightarrow> parse_state \<Rightarrow> parse_state" where
  "start_select attr st =
     fold (\<lambda>(n, v) st. if strcasecmp_0 ''bind'' n
       then st\<lparr>xhtmlSelectElem := Some (case after_last (CHR ''/'') v of None \<Rightarrow> v | Some r \<Rightarrow> r), xhtmlSelectFirst := True\<rparr>
       else st) attr st"

definition start_model :: "attributes \<Rightarrow> parse_state \<Rightarrow> parse_state" where
  "start_model attr st =
     fold (\<lambda>(n, v) st.
       let st = (if strcasecmp_0 ''id'' n then st\<lparr>xhtmlFormName := Some v\<rparr> else st)
       in if strcasecmp_0 ''dd:formid'' n then st\<lparr>xhtmlFormVersion := Some v\<rparr> else st) attr st"

definition start_xhtml :: "string \<Rightarrow> attributes \<Rightarrow> parse_state \<Rightarrow> parse_state option" where
  "start_xhtml el attr st = do {
     st \<leftarrow> start_form attr st;
     (if xhtml_in_instance st
      then (case first_attribute ''dd:subformid'' attr of
              Some version \<Rightarrow> start_subform el version st
            | None \<Rightarrow> Some (start_instance_element el attr st))
      else if strcasecmp_0 ''bind'' el \<or> strcasecmp_0 ''xf:bind'' el then start_bind attr st
      else if strcasecmp_0 ''xf:select1'' el \<or> strcasecmp_0 ''xf:select'' el then Some (start_select attr st)
      else if xhtmlSelectElem st \<noteq> None \<and> (strcasecmp_0 ''value'' el \<or> strcasecmp_0 ''xf:value'' el)
      then Some (st\<lparr>xhtml_in_value := True\<rparr>)
      else if strcasecmp_0 ''data'' el then Some (st\<lparr>xhtml_in_instance := True\<rparr>)
      else if strcasecmp_0 ''xf:model'' el then Some (start_model attr st)
      else Some st) }"

section \<open>Text and end of an element\<close>

text \<open>A value is added to every selection whose line starts with the name of the element.\<close>

fun grow_selects :: "string \<Rightarrow> string \<Rightarrow> bool \<Rightarrow> str_builder list \<Rightarrow> bool \<times> str_builder list" where
  "grow_selects elem x first [] = (first, [])"
| "grow_selects elem x first (b # bs) =
     (if (case str b of None \<Rightarrow> False | Some s \<Rightarrow> strncasecmp_0 elem s (length elem))
      then let (first', bs') = grow_selects elem x False bs
           in (first', strgrow (strgrow b (if first then '':'' else '','')) x # bs')
      else let (first', bs') = grow_selects elem x first bs in (first', b # bs'))"

definition characterdata_xhtml :: "string \<Rightarrow> parse_state \<Rightarrow> parse_state option" where
  "characterdata_xhtml text st =
     (case xhtmlSelectElem st of
        None \<Rightarrow> Some st
      | Some elem \<Rightarrow>
          if \<not> xhtml_in_value st then Some st
          else do {
            t \<leftarrow> search_in_list_tags elem st;
            i \<leftarrow> search_in_list_recipes (tag_formversion (tags st ! t)) st;
            let (first, bs) = grow_selects elem (c_str text) (xhtmlSelectFirst st) (selects (recipes st ! i));
            Some (st\<lparr>curr_r := Some i, xhtmlSelectFirst := first,
                     recipes := (recipes st)[i := (recipes st ! i)\<lparr>selects := bs\<rparr>]\<rparr>) })"

definition in_subform_element :: "string \<Rightarrow> parse_state \<Rightarrow> bool" where
  "in_subform_element el st \<longleftrightarrow> xhtml_in_subform st > 0 \<and> strcasecmp_0 (subform_tags st ! xhtml_in_subform st) el"

definition end_xhtml :: "string \<Rightarrow> parse_state \<Rightarrow> parse_state option" where
  "end_xhtml el st =
     (let st = (if strcasecmp_0 ''xf:select1'' el \<or> strcasecmp_0 ''xf:select'' el then st\<lparr>xhtmlSelectElem := None\<rparr> else st);
          st = (if strcasecmp_0 ''value'' el \<or> strcasecmp_0 ''xf:value'' el then st\<lparr>xhtml_in_value := False\<rparr> else st);
          st = (if strcasecmp_0 ''data'' el then st\<lparr>xhtml_in_instance := False\<rparr> else st);
          st = (if xhtml_in_instance st \<and> xhtml_in_subform st = 0 \<or> xhtml_in_subform st > 0 \<and> \<not> in_subform_element el st
                then fold grow_template [''</'', el, ''>'' @ nl] st else st)
      in if in_subform_element el st
         then (case subforms st of
                 _ # version # rest \<Rightarrow>
                   Some (grow_template (''</data>'' @ nl @ ''</dd:subform>'' @ nl)
                     (st\<lparr>xhtml_in_subform := xhtml_in_subform st - 1, subforms := version # rest\<rparr>))
               | _ \<Rightarrow> None)
         else Some st)"

section \<open>The whole definition\<close>

datatype xml_event = Start_element string attributes | Char_data string | End_element string

fun handle :: "xml_event \<Rightarrow> parse_state \<Rightarrow> parse_state option" where
  "handle (Start_element el attr) st = start_xhtml el attr st"
| "handle (Char_data x) st = characterdata_xhtml x st"
| "handle (End_element el) st = end_xhtml el st"

fun handle_all :: "xml_event list \<Rightarrow> parse_state \<Rightarrow> parse_state option" where
  "handle_all [] st = Some st"
| "handle_all (e # es) st = Option.bind (handle e st) (handle_all es)"

text \<open>The selections go behind the other fields of a recipe.\<close>

definition finish_recipe :: "recipe_node \<Rightarrow> string option \<times> string" where
  "finish_recipe r =
     (str (fold (\<lambda>b acc. strgrow (strgrow acc (case str b of None \<Rightarrow> [] | Some s \<Rightarrow> s)) nl) (selects r) (recipe_str r)), formversion r)"

text \<open>The recipes from the current one on, and the template; 1024 recipes fill the arrays of the caller.\<close>

definition xhtmlToRecipe ::
    "(string \<Rightarrow> xml_event list \<times> bool) \<Rightarrow> string \<Rightarrow> (int + (string option \<times> string) list \<times> string option) option" where
  "xhtmlToRecipe xml_parse xmltext =
     (let (events, ok) = xml_parse xmltext
      in case handle_all events parse_start of
           None \<Rightarrow> None
         | Some st \<Rightarrow>
             if \<not> ok then Some (Inl (-1))
             else let rs = (case curr_r st of None \<Rightarrow> [] | Some i \<Rightarrow> drop i (recipes st))
                  in if length rs > 1024 then None
                     else Some (Inr (map finish_recipe rs, str (xhtml2template st))))"

end
