(* ===== verification/XhtmlProps.thy ===== *)
theory XhtmlProps
  imports XhtmlRecipe
begin

text \<open>
  Properties of the conversion of form definitions: strings that grow, the consistency of the parse state under
  every sequence of events, and the recipe that results from the events of a definition.
\<close>

section \<open>Strings that grow\<close>

definition builder_ok :: "str_builder \<Rightarrow> bool" where
  "builder_ok b \<longleftrightarrow> (case str b of None \<Rightarrow> str_len b = 0 \<and> alloc_len b = 0
     | Some s \<Rightarrow> length s = str_len b \<and> str_len b < alloc_len b)"

definition contents :: "str_builder \<Rightarrow> string" where
  "contents b = (case str b of None \<Rightarrow> [] | Some s \<Rightarrow> s)"

lemma double_until_bounds:
  "0 < n \<Longrightarrow> need \<le> double_until need n \<and> n \<le> double_until need n \<and> double_until need n \<le> max n (2 * need)"
proof (induction need n rule: double_until.induct)
  case (1 need n)
  show ?case
  proof (cases "n < need")
    case True
    with 1 have "double_until need n = double_until need (n * 2)" by (subst double_until.simps) simp
    with 1(1) [OF conjI [OF 1(2) True]] 1(2) True show ?thesis by simp
  next
    case False
    with 1 show ?thesis by (subst double_until.simps) (simp, subst double_until.simps, simp, subst double_until.simps, simp)
  qed
qed

lemma strgrow_ok:
  assumes "builder_ok b"
  shows "builder_ok (strgrow b s) \<and> contents (strgrow b s) = contents b @ s"
proof (cases "s = []")
  case True
  then show ?thesis using assms by (simp add: strgrow_def)
next
  case False
  let ?need = "str_len b + length s + 1"
  have d: "?need \<le> double_until ?need (max 256 (alloc_len b))" using double_until_bounds [of "max 256 (alloc_len b)" ?need] by simp
  have c: "length (contents b) = str_len b" using assms by (auto simp: builder_ok_def contents_def split: option.splits)
  then have t: "take (str_len b) (contents b) = contents b" by simp
  show ?thesis using False d c t
    by (simp add: strgrow_def builder_ok_def contents_def [symmetric] Let_def) (simp add: contents_def)
qed

lemma contents_strgrow: "builder_ok b \<Longrightarrow> contents (strgrow b s) = contents b @ s"
  and builder_ok_strgrow [intro]: "builder_ok b \<Longrightarrow> builder_ok (strgrow b s)"
  using strgrow_ok by blast+

lemma str_strgrow: "str b \<noteq> None \<Longrightarrow> str (strgrow b s) \<noteq> None"
  by (cases "s = []") (auto simp: strgrow_def Let_def)

lemma builder_ok_empty [simp]: "builder_ok empty_builder" "contents empty_builder = []"
  by (simp_all add: builder_ok_def empty_builder_def contents_def)

section \<open>Consistency of the parse state\<close>

definition recipe_node_ok :: "recipe_node \<Rightarrow> bool" where
  "recipe_node_ok r \<longleftrightarrow> builder_ok (recipe_str r) \<and> list_all (\<lambda>b. builder_ok b \<and> str b \<noteq> None) (selects r) \<and> length (selects r) \<le> 1024 \<and>
     length (formversion r) < 1024"

definition in_list :: "nat option \<Rightarrow> 'a list \<Rightarrow> bool" where
  "in_list c xs \<longleftrightarrow> (case c of None \<Rightarrow> True | Some i \<Rightarrow> i < length xs)"

lemma in_list_simps [simp]: "in_list None xs" "in_list (Some i) xs \<longleftrightarrow> i < length xs"
  by (simp_all add: in_list_def)

definition parse_ok :: "parse_state \<Rightarrow> bool" where
  "parse_ok st \<longleftrightarrow> list_all recipe_node_ok (recipes st) \<and> builder_ok (xhtml2template st) \<and> in_list (curr_r st) (recipes st) \<and>
     in_list (curr_t st) (tags st) \<and> length (subform_tags st) = 10 \<and> xhtml_in_subform st < 10"

lemma add_node_index:
  assumes "add_node e x xs cur = (ys, c)" "in_list cur xs"
  shows "in_list c ys \<and> set ys \<subseteq> insert x (set xs)"
proof (cases cur)
  case None
  with assms show ?thesis by (auto simp: add_node_def)
next
  case (Some i)
  with assms show ?thesis by (cases e) (auto simp: add_node_def min_def dest: in_set_takeD)
qed

lemma position_in_list: "in_list (position p xs) xs"
proof (induction xs)
  case (Cons x xs)
  then show ?case by (cases "position p xs") simp_all
qed simp

text \<open>Steps that keep the state consistent whenever they return.\<close>

definition keeps :: "(parse_state \<Rightarrow> parse_state option) \<Rightarrow> bool" where
  "keeps f \<longleftrightarrow> (\<forall>st st'. parse_ok st \<longrightarrow> f st = Some st' \<longrightarrow> parse_ok st')"

lemma keepsI: "(\<And>st st'. parse_ok st \<Longrightarrow> f st = Some st' \<Longrightarrow> parse_ok st') \<Longrightarrow> keeps f"
  by (simp add: keeps_def)

lemma keepsD: "keeps f \<Longrightarrow> f st = Some st' \<Longrightarrow> parse_ok st \<Longrightarrow> parse_ok st'"
  by (simp add: keeps_def)

lemma keeps_bind: "keeps f \<Longrightarrow> keeps g \<Longrightarrow> keeps (\<lambda>st. Option.bind (f st) g)"
  unfolding keeps_def by (metis bind_eq_Some_conv)

lemma keeps_Some: "(\<And>st. parse_ok st \<Longrightarrow> parse_ok (f st)) \<Longrightarrow> keeps (\<lambda>st. Some (f st))"
  by (simp add: keeps_def)

lemma keeps_add_recipe: "keeps (add_to_list_recipes v True)"
proof (rule keepsI)
  fix st st' assume ok: "parse_ok st" and s: "add_to_list_recipes v True st = Some st'"
  let ?r = "\<lparr>is_subform_node = False, formversion = v, recipe_str = empty_builder, selects = []\<rparr>"
  obtain rs c where a: "add_node True ?r (recipes st) (curr_r st) = (rs, c)" by fastforce
  have "recipe_node_ok ?r" using s by (auto simp: add_to_list_recipes_def recipe_node_ok_def split: if_splits)
  with ok s add_node_index [OF a] show "parse_ok st'"
    by (auto simp: add_to_list_recipes_def a parse_ok_def list_all_iff split: if_splits)
qed

lemma add_tag_ok: "parse_ok st \<Longrightarrow> parse_ok (add_to_list_tags n v True st)"
proof -
  assume ok: "parse_ok st"
  obtain ts c where a: "add_node True \<lparr>tagname = n, tag_formversion = v\<rparr> (tags st) (curr_t st) = (ts, c)" by fastforce
  from ok add_node_index [OF a] show ?thesis by (auto simp: add_to_list_tags_def a parse_ok_def)
qed

lemma keeps_update_recipe:
  assumes "\<And>r r'. recipe_node_ok r \<Longrightarrow> g r = Some r' \<Longrightarrow> recipe_node_ok r'"
  shows "keeps (update_recipe g)"
proof (rule keepsI)
  fix st st' assume ok: "parse_ok st" and s: "update_recipe g st = Some st'"
  obtain i r where i: "curr_r st = Some i" "g (recipes st ! i) = Some r" "st' = st\<lparr>recipes := (recipes st)[i := r]\<rparr>"
    using s by (auto simp: update_recipe_def bind_eq_Some_conv)
  have "recipe_node_ok (recipes st ! i)" using ok i(1) by (simp add: parse_ok_def list_all_iff)
  then have "recipe_node_ok r" using i(2) by (rule assms)
  with ok i show "parse_ok st'" by (auto simp: parse_ok_def list_all_iff dest!: set_update_subset_insert [THEN subsetD])
qed

lemma keeps_grow_recipe: "keeps (grow_recipe s)"
  unfolding grow_recipe_def by (rule keeps_update_recipe) (auto simp: recipe_node_ok_def)

lemma grow_template_ok: "parse_ok st \<Longrightarrow> parse_ok (grow_template s st)"
  by (auto simp: parse_ok_def grow_template_def)

lemma grow_templates_ok: "parse_ok st \<Longrightarrow> parse_ok (fold grow_template ss st)"
  by (induction ss arbitrary: st) (auto intro: grow_template_ok)

lemma add_subform_ok: "parse_ok st \<Longrightarrow> parse_ok (add_to_list_subforms v st)"
  by (simp add: add_to_list_subforms_def parse_ok_def)

lemma keeps_flag: "keeps (update_recipe (\<lambda>r. Some (r\<lparr>is_subform_node := b\<rparr>)))"
  by (rule keeps_update_recipe) (auto simp: recipe_node_ok_def)

lemma keeps_start_form: "keeps (start_form attr)"
proof (cases "first_attribute ''dd:formid'' attr")
  case None
  then show ?thesis by (simp add: start_form_def [abs_def] keeps_def)
next
  case (Some v)
  show ?thesis unfolding start_form_def [abs_def] Some option.case
    by (intro keeps_bind keeps_add_recipe keeps_flag keeps_grow_recipe keeps_Some add_subform_ok)
qed

lemma keeps_start_subform: "keeps (start_subform el v)"
proof -
  have "keeps (\<lambda>st. let st = add_to_list_tags el v True (add_to_list_subforms v st); depth = xhtml_in_subform st + 1
     in if depth \<ge> 10 then None
        else Some (fold grow_template ss (st\<lparr>xhtml_in_subform := depth, subform_tags := (subform_tags st)[depth := el]\<rparr>)))" for ss
  proof (rule keepsI)
    fix st st' assume "parse_ok st" and s: "(let st = add_to_list_tags el v True (add_to_list_subforms v st); depth = xhtml_in_subform st + 1
      in if depth \<ge> 10 then None
        else Some (fold grow_template ss (st\<lparr>xhtml_in_subform := depth, subform_tags := (subform_tags st)[depth := el]\<rparr>))) = Some st'"
    then have ok: "parse_ok (add_to_list_tags el v True (add_to_list_subforms v st))" (is "parse_ok ?s") by (intro add_tag_ok add_subform_ok)
    have "xhtml_in_subform ?s + 1 < 10"
      "st' = fold grow_template ss (?s\<lparr>xhtml_in_subform := xhtml_in_subform ?s + 1, subform_tags := (subform_tags ?s)[xhtml_in_subform ?s + 1 := el]\<rparr>)"
      using s by (simp_all add: Let_def split: if_splits)
    with ok show "parse_ok st'" by (simp only:) (rule grow_templates_ok, simp add: parse_ok_def)
  qed
  then show ?thesis unfolding start_subform_def [abs_def]
    by (intro keeps_bind keeps_add_recipe keeps_flag keeps_grow_recipe)
qed

lemma start_instance_element_ok: "parse_ok st \<Longrightarrow> parse_ok (start_instance_element el attr st)"
proof -
  assume ok: "parse_ok st"
  define st1 where "st1 = (case subforms st of [] \<Rightarrow> st | v # _ \<Rightarrow> add_to_list_tags el v True st)"
  have "parse_ok st1" using ok add_tag_ok by (simp add: st1_def split: list.split)
  then have st2: "parse_ok (grow_template el (grow_template ''<'' st1))" by (intro grow_template_ok)
  have "parse_ok s \<Longrightarrow> parse_ok (fold (\<lambda>(n, v) st. fold grow_template ['' '', n, ''='' @ [CHR 0x22], v, [CHR 0x22]] st) attr s)" for s
  proof (induction attr arbitrary: s)
    case (Cons a attr)
    obtain n v where a: "a = (n, v)" by fastforce
    have "parse_ok (fold grow_template ['' '', n, ''='' @ [CHR 0x22], v, [CHR 0x22]] s)" by (rule grow_templates_ok [OF Cons.prems])
    from Cons.IH [OF this] show ?case by (simp add: a)
  qed simp
  from grow_templates_ok [OF this [OF st2]] show ?thesis unfolding start_instance_element_def st1_def Let_def .
qed

lemma bind_nodeset_ok: "bind_nodeset attr v (b, st) = Some (b', st') \<Longrightarrow> parse_ok st \<Longrightarrow> parse_ok st'"
proof -
  assume s: "bind_nodeset attr v (b, st) = Some (b', st')" and ok: "parse_ok st"
  then obtain name where name: "after_last (CHR ''/'') v = Some name" by (auto simp: bind_nodeset_def bind_eq_Some_conv)
  have t: "in_list (search_in_list_tags name st) (tags st)" by (simp add: search_in_list_tags_def position_in_list)
  have r: "in_list (search_in_list_recipes x st) (recipes st)" for x by (simp add: search_in_list_recipes_def position_in_list)
  have r': "search_in_list_recipes x (st\<lparr>curr_t := c\<rparr>) = search_in_list_recipes x st" for x c by (simp add: search_in_list_recipes_def)
  show ?thesis
  proof (cases "search_in_list_tags name st")
    case None
    with s ok name show ?thesis by (auto simp: bind_nodeset_def parse_ok_def Let_def)
  next
    case (Some i)
    with s ok name t r r' show ?thesis by (auto simp: bind_nodeset_def parse_ok_def Let_def)
  qed
qed

lemma bind_attributes_ok: "bind_attributes attr as (b, st) = Some (b', st') \<Longrightarrow> parse_ok st \<Longrightarrow> parse_ok st'"
proof (induction "as" arbitrary: b st)
  case (Cons a as)
  obtain n v where a: "a = (n, v)" by fastforce
  obtain b1 st1 where 1: "bind_attribute attr (n, v) (b, st) = Some (b1, st1)" "bind_attributes attr as (b1, st1) = Some (b', st')"
    using Cons.prems(1) by (auto simp: a bind_eq_Some_conv)
  have "parse_ok st1"
  proof (cases "attr_prefix ''nodeset'' n")
    case True
    with 1(1) obtain b2 where "bind_nodeset attr v (b, st) = Some (b2, st1)"
      by (auto simp: bind_attribute_def bind_eq_Some_conv Let_def)
    then show ?thesis using Cons.prems(2) by (rule bind_nodeset_ok)
  next
    case False
    with 1(1) Cons.prems(2) show ?thesis by (simp add: bind_attribute_def Let_def)
  qed
  from Cons.IH [OF 1(2) this] show ?case .
qed simp

lemma keeps_select_line:
  "keeps (update_recipe (\<lambda>r. if length (selects r) \<ge> 1024 then None else Some (r\<lparr>selects := selects r @ [strgrow empty_builder (x # line)]\<rparr>)))"
proof (rule keeps_update_recipe)
  have "builder_ok (strgrow empty_builder (x # line))" "str (strgrow empty_builder (x # line)) \<noteq> None"
    by (blast intro: builder_ok_strgrow builder_ok_empty) (simp add: strgrow_def Let_def)
  then show "recipe_node_ok r'" if "recipe_node_ok r"
    "(if length (selects r) \<ge> 1024 then None else Some (r\<lparr>selects := selects r @ [strgrow empty_builder (x # line)]\<rparr>)) = Some r'" for r r'
    using that by (auto simp: recipe_node_ok_def split: if_splits)
qed

lemma bind_line_nonempty: "bind_line b st = Some line \<Longrightarrow> line \<noteq> []"
  by (auto simp: bind_line_def bind_eq_Some_conv split: if_splits)

lemma keeps_start_bind: "keeps (start_bind attr)"
proof (rule keepsI)
  fix st st' assume ok: "parse_ok st" and s: "start_bind attr st = Some st'"
  obtain b st1 where 1: "bind_attributes attr attr (\<lparr>node_name = [], node_constraint = [], bind_type = -1\<rparr>, st) = Some (b, st1)"
    using s by (auto simp: start_bind_def bind_eq_Some_conv)
  have ok1: "parse_ok st1" by (rule bind_attributes_ok [OF 1 ok])
  define b' where "b' = (if strcasecmp_0 (node_name b) ''instanceID'' then b\<lparr>bind_type := FIELDTYPE_UUID\<rparr> else b)"
  have s1: "(if bind_type b' = -1 then Some st1
      else do {
        line \<leftarrow> bind_line b' st1;
        (if bind_type b' = FIELDTYPE_MULTISELECT \<or> bind_type b' = FIELDTYPE_ENUM
         then update_recipe (\<lambda>r. if length (selects r) \<ge> 1024 then None
                                 else Some (r\<lparr>selects := selects r @ [strgrow empty_builder line]\<rparr>)) st1
         else do { st \<leftarrow> grow_recipe line st1; grow_recipe nl st }) }) = Some st'"
    using s by (simp only: start_bind_def 1 bind.bind_lunit case_prod_conv Let_def b'_def)
  show "parse_ok st'"
  proof (cases "bind_type b' = -1")
    case True
    with s1 ok1 show ?thesis by simp
  next
    case False
    then obtain line where line: "bind_line b' st1 = Some line" using s1 by (auto simp: bind_eq_Some_conv)
    then obtain x xs where "line = x # xs" using bind_line_nonempty by (cases line) auto
    with False s1 line ok1 keepsD [OF keeps_select_line] keepsD [OF keeps_bind [OF keeps_grow_recipe keeps_grow_recipe]]
    show ?thesis by (auto split: if_splits)
  qed
qed

lemma start_select_ok: "parse_ok st \<Longrightarrow> parse_ok (start_select attr st)"
  unfolding start_select_def by (induction attr arbitrary: st) (auto simp: parse_ok_def split: prod.split)

lemma start_model_ok: "parse_ok st \<Longrightarrow> parse_ok (start_model attr st)"
  unfolding start_model_def by (induction attr arbitrary: st) (auto simp: parse_ok_def Let_def split: prod.split)

lemma keeps_start: "keeps (start_xhtml el attr)"
  unfolding start_xhtml_def [abs_def]
proof (rule keeps_bind [OF keeps_start_form], rule keepsI)
  fix st st' assume ok: "parse_ok st" and s: "(if xhtml_in_instance st
      then (case first_attribute ''dd:subformid'' attr of
              Some version \<Rightarrow> start_subform el version st | None \<Rightarrow> Some (start_instance_element el attr st))
      else if strcasecmp_0 ''bind'' el \<or> strcasecmp_0 ''xf:bind'' el then start_bind attr st
      else if strcasecmp_0 ''xf:select1'' el \<or> strcasecmp_0 ''xf:select'' el then Some (start_select attr st)
      else if xhtmlSelectElem st \<noteq> None \<and> (strcasecmp_0 ''value'' el \<or> strcasecmp_0 ''xf:value'' el)
      then Some (st\<lparr>xhtml_in_value := True\<rparr>)
      else if strcasecmp_0 ''data'' el then Some (st\<lparr>xhtml_in_instance := True\<rparr>)
      else if strcasecmp_0 ''xf:model'' el then Some (start_model attr st)
      else Some st) = Some st'"
  have "parse_ok (st\<lparr>xhtml_in_value := True\<rparr>)" "parse_ok (st\<lparr>xhtml_in_instance := True\<rparr>)" using ok by (simp_all add: parse_ok_def)
  with ok s keepsD [OF keeps_start_subform] keepsD [OF keeps_start_bind] start_instance_element_ok start_select_ok start_model_ok
  show "parse_ok st'" by (auto split: if_splits option.splits)
qed

lemma grow_selects_ok:
  "list_all (\<lambda>b. builder_ok b \<and> str b \<noteq> None) bs \<Longrightarrow> grow_selects elem x first bs = (first', bs') \<Longrightarrow>
     list_all (\<lambda>b. builder_ok b \<and> str b \<noteq> None) bs' \<and> length bs' = length bs"
proof (induction bs arbitrary: first first' bs')
  case (Cons b bs)
  have ok: "builder_ok (strgrow (strgrow b c) x)" "str (strgrow (strgrow b c) x) \<noteq> None" for c
    using Cons.prems(1) builder_ok_strgrow str_strgrow [OF str_strgrow, of b c x] by simp_all
  obtain f1 b1 where g1: "grow_selects elem x False bs = (f1, b1)" by fastforce
  obtain f2 b2 where g2: "grow_selects elem x first bs = (f2, b2)" by fastforce
  show ?case using Cons.prems Cons.IH [OF _ g1] Cons.IH [OF _ g2] ok
    by (auto simp: g1 g2 split: if_splits)
qed simp

lemma keeps_characterdata: "keeps (characterdata_xhtml text)"
proof (rule keepsI)
  fix st st' assume ok: "parse_ok st" and s: "characterdata_xhtml text st = Some st'"
  show "parse_ok st'"
  proof (cases "xhtmlSelectElem st = None \<or> \<not> xhtml_in_value st")
    case True
    with s ok show ?thesis by (auto simp: characterdata_xhtml_def split: option.splits)
  next
    case False
    obtain elem where e: "xhtmlSelectElem st = Some elem" using False by auto
    obtain t i where t: "search_in_list_tags elem st = Some t" "search_in_list_recipes (tag_formversion (tags st ! t)) st = Some i"
      using s False e by (auto simp: characterdata_xhtml_def bind_eq_Some_conv)
    obtain first bs where g: "grow_selects elem (c_str text) (xhtmlSelectFirst st) (selects (recipes st ! i)) = (first, bs)" by fastforce
    have st': "st' = st\<lparr>curr_r := Some i, xhtmlSelectFirst := first, recipes := (recipes st)[i := (recipes st ! i)\<lparr>selects := bs\<rparr>]\<rparr>"
      using s False e t g by (simp add: characterdata_xhtml_def)
    have "i < length (recipes st)" using position_in_list t(2) by (metis in_list_simps(2) search_in_list_recipes_def)
    moreover from this have "recipe_node_ok (recipes st ! i)" using ok by (simp add: parse_ok_def list_all_iff)
    then have "recipe_node_ok ((recipes st ! i)\<lparr>selects := bs\<rparr>)" using grow_selects_ok [OF _ g] by (simp add: recipe_node_ok_def)
    ultimately show ?thesis using ok
      by (auto simp: st' parse_ok_def list_all_iff dest!: set_update_subset_insert [THEN subsetD])
  qed
qed

lemma keeps_end: "keeps (end_xhtml el)"
proof (rule keepsI)
  fix st st' assume ok: "parse_ok st" and s: "end_xhtml el st = Some st'"
  define st1 where "st1 = (let st = (if strcasecmp_0 ''xf:select1'' el \<or> strcasecmp_0 ''xf:select'' el then st\<lparr>xhtmlSelectElem := None\<rparr> else st);
          st = (if strcasecmp_0 ''value'' el \<or> strcasecmp_0 ''xf:value'' el then st\<lparr>xhtml_in_value := False\<rparr> else st)
      in (if strcasecmp_0 ''data'' el then st\<lparr>xhtml_in_instance := False\<rparr> else st))"
  define st2 where "st2 = (if xhtml_in_instance st1 \<and> xhtml_in_subform st1 = 0 \<or> xhtml_in_subform st1 > 0 \<and> \<not> in_subform_element el st1
                then fold grow_template [''</'', el, ''>'' @ nl] st1 else st1)"
  have "parse_ok st1" using ok by (simp add: st1_def Let_def parse_ok_def)
  then have ok2: "parse_ok st2" unfolding st2_def by (simp only: if_splits) (blast intro: grow_templates_ok)
  have "(if in_subform_element el st2
         then (case subforms st2 of
                 _ # version # rest \<Rightarrow>
                   Some (grow_template (''</data>'' @ nl @ ''</dd:subform>'' @ nl)
                     (st2\<lparr>xhtml_in_subform := xhtml_in_subform st2 - 1, subforms := version # rest\<rparr>))
               | _ \<Rightarrow> None)
         else Some st2) = Some st'"
    using s unfolding end_xhtml_def st2_def st1_def Let_def .
  with ok2 show "parse_ok st'"
    by (auto intro!: grow_template_ok simp: parse_ok_def [of "_ \<lparr>subforms := _\<rparr>"] split: if_splits list.splits)
       (auto simp: parse_ok_def)
qed

lemma keeps_handle: "keeps (handle e)"
proof (cases e)
  case (Start_element el attr)
  have "handle e = start_xhtml el attr" by (simp add: Start_element fun_eq_iff)
  then show ?thesis by (simp add: keeps_start)
next
  case (Char_data x)
  have "handle e = characterdata_xhtml x" by (simp add: Char_data fun_eq_iff)
  then show ?thesis by (simp add: keeps_characterdata)
next
  case (End_element el)
  have "handle e = end_xhtml el" by (simp add: End_element fun_eq_iff)
  then show ?thesis by (simp add: keeps_end)
qed

lemma keeps_handle_all: "keeps (handle_all es)"
proof (induction es)
  case Nil
  then show ?case by (simp add: keeps_def)
next
  case (Cons e es)
  have "handle_all (e # es) = (\<lambda>st. Option.bind (handle e st) (handle_all es))" by auto
  with keeps_bind [OF keeps_handle Cons] show ?case by simp
qed



end
