(* ===== verification/FormDefinition.thy ===== *)
theory FormDefinition
  imports XhtmlProps
begin

text \<open>
  From a form definition to its fields: the events of an XHTML definition (a model with the id of the form, an instance with
  one element per field, a bind for each field and a selection for each enumeration) give one recipe, whose text is read back as
  the implied fields, the fields of the definition and its enumerations.
\<close>

section \<open>The events of a definition\<close>

definition number_type :: "int \<Rightarrow> bool" where
  "number_type t \<longleftrightarrow> t = FIELDTYPE_INTEGER \<or> t = FIELDTYPE_FIXEDPOINT"

definition constraint_text :: "field \<Rightarrow> string" where
  "constraint_text f = (if number_type (field_type f)
     then ''. >= '' @ show_int (minimum f) @ '' and . <= '' @ show_int (maximum f) else [])"

definition bind_attributes_of :: "field \<Rightarrow> attributes" where
  "bind_attributes_of f = [(''nodeset'', ''/data/'' @ field_name f), (''type'', ''xsd:'' @ recipe_field_type_name (field_type f)),
     (''constraint'', constraint_text f)]"

definition bind_events :: "field \<Rightarrow> xml_event list" where
  "bind_events f = [Start_element ''bind'' (bind_attributes_of f), End_element ''bind'']"

definition value_events :: "string \<Rightarrow> xml_event list" where
  "value_events v = [Start_element ''xf:value'' [], Char_data v, End_element ''xf:value'']"

definition select_events :: "field \<Rightarrow> xml_event list" where
  "select_events f = [Start_element ''xf:select1'' [(''bind'', field_name f)]] @ concat (map value_events (enum_value f)) @
     [End_element ''xf:select1'']"

definition instance_events :: "field \<Rightarrow> xml_event list" where
  "instance_events f = [Start_element (field_name f) [], End_element (field_name f)]"

definition definition_events :: "string \<Rightarrow> field list \<Rightarrow> xml_event list" where
  "definition_events v fs =
     [Start_element ''xf:model'' [(''dd:formid'', v)], Start_element ''data'' []] @ concat (map instance_events fs) @
     [End_element ''data''] @ concat (map bind_events fs) @
     concat (map select_events (filter (\<lambda>f. enum_type (field_type f)) fs)) @ [End_element ''xf:model'']"

text \<open>Fields that a definition can carry: names without slashes and colons, no sub-form, ranges of numbers that are not
  negative and not empty (the minus sign of a limit is skipped with the rest of the constraint), no range for other types.\<close>

definition bind_text :: "field \<Rightarrow> string" where
  "bind_text f = field_name f @ '':'' @ recipe_field_type_name (field_type f) @ '':'' @ show_int (minimum f) @ '':'' @
     show_int (maximum f) @ '':0''"

definition definable :: "field \<Rightarrow> bool" where
  "definable f \<longleftrightarrow> field_line_ok f \<and> CHR ''/'' \<notin> set (field_name f) \<and> field_type f \<noteq> FIELDTYPE_SUBFORM \<and> precision f = 0 \<and>
     \<not> strcasecmp_0 (field_name f) ''instanceID'' \<and> \<not> strcasecmp_0 ''data'' (field_name f) \<and> length (bind_text f) < 4096 \<and>
     (if number_type (field_type f) then 0 \<le> minimum f \<and> minimum f < maximum f else minimum f = 0 \<and> maximum f = 0)"

section \<open>Binds\<close>

lemma after_last_name: "CHR ''/'' \<notin> set n \<Longrightarrow> after_last (CHR ''/'') (''/data/'' @ n) = Some n"
proof -
  assume n: "CHR ''/'' \<notin> set n"
  have "takeWhile (\<lambda>c. c \<noteq> CHR ''/'') (rev n @ ''/atad/'') = rev n" using n by (subst takeWhile_append2) auto
  then show ?thesis by (simp add: after_last_def)
qed

lemma after_first_type: "after_first (CHR '':'') (''xsd:'' @ t) = Some t"
  by (simp add: after_first_def)

lemma not_subform_type:
  assumes "0 \<le> t" "t \<le> 14" "t \<noteq> FIELDTYPE_SUBFORM"
  shows "\<not> strcasecmp_0 (''xsd:'' @ recipe_field_type_name t) ''xsd:subform''"
  using type_cases [OF assms(1,2)] assms(3)
  by (simp only: list.set insert_iff empty_iff) (elim disjE, simp_all only:, code_simp+)

lemma bind_range_constraint:
  assumes "0 \<le> a" "a < b" "int32 a" "int32 b"
  shows "bind_range (''. >= '' @ show_int a @ '' and . <= '' @ show_int b) = Some (a, b)"
proof -
  have digits: "list_all is_digit (show_int n) \<and> show_int n \<noteq> []" if "0 \<le> n" for n
    using that show_nat_digits [of "nat n"] by (auto simp: show_int_def)
  have a: "list_all is_digit (show_int a)" "show_int a \<noteq> []" and b: "list_all is_digit (show_int b)" "show_int b \<noteq> []"
    using digits [of a] digits [of b] assms by auto
  have nd: "\<not> is_digit (CHR ''.'')" "\<not> is_digit (CHR '' '')" "\<not> is_digit (CHR ''>'')" "\<not> is_digit (CHR ''='')" "\<not> is_digit (CHR ''a'')"
    "\<not> is_digit (CHR ''n'')" "\<not> is_digit (CHR ''d'')" "\<not> is_digit (CHR ''<'')" by code_simp+
  have skip: "dropWhile (\<lambda>c. \<not> is_digit c) (show_int n @ r) = show_int n @ r" if "0 \<le> n" for n r
    using digits [OF that] by (cases "show_int n") auto
  have p: "dropWhile (\<lambda>c. \<not> is_digit c) (''. >= '' @ show_int a @ '' and . <= '' @ show_int b) = show_int a @ '' and . <= '' @ show_int b"
    using nd skip [OF assms(1)] by simp
  have "dropWhile is_digit (show_int a @ '' and . <= '' @ show_int b) = '' and . <= '' @ show_int b"
    using a(1) nd by (subst dropWhile_append2) (auto simp: list_all_iff)
  then have q: "dropWhile (\<lambda>c. \<not> is_digit c) (dropWhile is_digit (show_int a @ '' and . <= '' @ show_int b)) = show_int b"
    using nd skip [of b "[]"] assms by simp
  have "scan_d (show_int a @ '' and . <= '' @ show_int b) = Some (a, '' and . <= '' @ show_int b)" "scan_d (show_int b @ []) = Some (b, [])"
    using assms(3,4) nd by (intro scan_d_show_int; simp add: int32_def)+
  then have "atoi (show_int a @ '' and . <= '' @ show_int b) = a" "atoi (show_int b) = b"
    by (auto simp: atoi_def scan_d_def split: option.splits)
  then show ?thesis unfolding bind_range_def Let_def p q using assms(2) by simp
qed

text \<open>The state while the binds and selections of a form are read: one recipe, with the text \<open>rec\<close> and the selections \<open>sel\<close>.\<close>

definition reading :: "string \<Rightarrow> string list \<Rightarrow> string \<Rightarrow> string list \<Rightarrow> parse_state \<Rightarrow> bool" where
  "reading v names rec sel st \<longleftrightarrow> (\<exists>r. recipes st = [r] \<and> formversion r = v \<and> builder_ok (recipe_str r) \<and> contents (recipe_str r) = rec \<and>
     list_all (\<lambda>b. builder_ok b \<and> str b \<noteq> None) (selects r) \<and> map contents (selects r) = sel) \<and> curr_r st = Some 0 \<and>
     tags st = map (\<lambda>n. \<lparr>tagname = n, tag_formversion = v\<rparr>) names \<and> \<not> xhtml_in_instance st \<and> xhtmlSelectElem st = None \<and>
     \<not> xhtml_in_value st \<and> xhtml_in_subform st = 0"

lemma position_member: "n \<in> set names \<Longrightarrow> \<exists>i. position (\<lambda>t. tagname t = n) (map (\<lambda>n. \<lparr>tagname = n, tag_formversion = v\<rparr>) names) = Some i \<and> i < length names"
  by (induction names) auto

lemma bind_attributes_read:
  assumes "definable f" "reading v names rec sel st" "field_name f \<in> set names"
  shows "\<exists>st'. bind_attributes (bind_attributes_of f) (bind_attributes_of f) (\<lparr>node_name = [], node_constraint = [], bind_type = -1\<rparr>, st) =
    Some (\<lparr>node_name = field_name f, node_constraint = constraint_text f, bind_type = field_type f\<rparr>, st') \<and> reading v names rec sel st'"
proof -
  obtain i where i: "position (\<lambda>t. tagname t = field_name f) (tags st) = Some i" "i < length names" "tag_formversion (tags st ! i) = v"
    using position_member [OF assms(3), of v] assms(2) by (auto simp: reading_def)
  have name: "after_last (CHR ''/'') (''/data/'' @ field_name f) = Some (field_name f)"
    using assms(1) by (intro after_last_name) (simp add: definable_def)
  have wf: "0 \<le> field_type f" "field_type f \<le> 14" "field_type f \<noteq> 14" using assms(1) by (auto simp: definable_def field_line_ok_def field_wf_def)
  have pre: "attr_prefix ''nodeset'' ''nodeset''" "\<not> attr_prefix ''type'' ''nodeset''" "\<not> attr_prefix ''constraint'' ''nodeset''"
    "\<not> attr_prefix ''nodeset'' ''type''" "attr_prefix ''type'' ''type''" "\<not> attr_prefix ''constraint'' ''type''"
    "\<not> attr_prefix ''nodeset'' ''constraint''" "\<not> attr_prefix ''type'' ''constraint''" "attr_prefix ''constraint'' ''constraint''"
    by code_simp+
  have lt: "last_type (bind_attributes_of f) = ''xsd:'' @ recipe_field_type_name (field_type f)"
    by (simp add: last_type_def bind_attributes_of_def pre)
  have nb: "bind_nodeset (bind_attributes_of f) (''/data/'' @ field_name f) (\<lparr>node_name = [], node_constraint = [], bind_type = -1\<rparr>, st) =
    Some (\<lparr>node_name = field_name f, node_constraint = [], bind_type = -1\<rparr>, st\<lparr>curr_t := Some i, curr_r := Some 0\<rparr>)"
    using assms(2) i not_subform_type [OF wf]
    unfolding bind_nodeset_def case_prod_conv name bind.bind_lunit lt
    by (auto simp: search_in_list_tags_def search_in_list_recipes_def reading_def Let_def)
  have "reading v names rec sel (st\<lparr>curr_t := Some i, curr_r := Some 0\<rparr>)" using assms(2) by (simp add: reading_def)
  then show ?thesis
    unfolding bind_attributes_of_def [of f] bind_attributes.simps
    using nb type_name_parsed [OF wf(1,2)]
    by (simp add: bind_attribute_def pre after_first_type bind_attributes_of_def Let_def del: append_Cons append.simps) 
qed

lemma bind_line_text:
  assumes "definable f"
  shows "bind_line \<lparr>node_name = field_name f, node_constraint = constraint_text f, bind_type = field_type f\<rparr> st = Some (bind_text f)"
proof -
  have len: "\<not> length (bind_text f) \<ge> 4096" and t: "field_type f \<noteq> 14" using assms by (auto simp: definable_def)
  show ?thesis
  proof (cases "number_type (field_type f)")
    case True
    with assms bind_range_constraint [of "minimum f" "maximum f"] have "bind_range (constraint_text f) = Some (minimum f, maximum f)"
      by (simp add: definable_def field_line_ok_def constraint_text_def)
    with True len t show ?thesis by (auto simp: bind_line_def number_type_def bind_text_def)
  next
    case False
    with assms have "minimum f = 0" "maximum f = 0" by (simp_all add: definable_def)
    with False len t show ?thesis by (auto simp: bind_line_def number_type_def bind_text_def)
  qed
qed

lemma end_other:
  assumes "reading v names rec sel st" "\<not> strcasecmp_0 ''data'' el"
  shows "\<exists>st'. end_xhtml el st = Some st' \<and> reading v names rec sel st'"
  using assms by (auto simp: end_xhtml_def in_subform_element_def reading_def Let_def)

lemma bind_read:
  assumes "definable f" "reading v names rec sel st" "field_name f \<in> set names" "length sel < 1024"
  shows "\<exists>st'. handle_all (bind_events f) st = Some st' \<and>
    (if enum_type (field_type f) then reading v names rec (sel @ [bind_text f]) st' else reading v names (rec @ bind_text f @ nl) sel st')"
proof -
  obtain st1 where st1: "bind_attributes (bind_attributes_of f) (bind_attributes_of f) (\<lparr>node_name = [], node_constraint = [], bind_type = -1\<rparr>, st) =
    Some (\<lparr>node_name = field_name f, node_constraint = constraint_text f, bind_type = field_type f\<rparr>, st1)" "reading v names rec sel st1"
    using bind_attributes_read [OF assms(1-3)] by blast
  obtain r where r: "recipes st1 = [r]" "curr_r st1 = Some 0" "builder_ok (recipe_str r)" "length (selects r) < 1024"
    using st1(2) assms(4) by (auto simp: reading_def)
  have t: "field_type f \<noteq> -1" "\<not> strcasecmp_0 (field_name f) ''instanceID''" using assms(1) by (auto simp: definable_def field_line_ok_def field_wf_def)
  have ne: "bind_text f \<noteq> []" by (simp add: bind_text_def)
  have b: "builder_ok (strgrow empty_builder (bind_text f))" "contents (strgrow empty_builder (bind_text f)) = bind_text f"
    "str (strgrow empty_builder (bind_text f)) \<noteq> None"
    using strgrow_ok [of empty_builder "bind_text f"] ne by (simp_all add: strgrow_def Let_def)
  let ?sel = "st1\<lparr>recipes := [r\<lparr>selects := selects r @ [strgrow empty_builder (bind_text f)]\<rparr>]\<rparr>"
  let ?rec = "st1\<lparr>recipes := [r\<lparr>recipe_str := strgrow (strgrow (recipe_str r) (bind_text f)) nl\<rparr>]\<rparr>"
  have s: "start_bind (bind_attributes_of f) st = Some (if enum_type (field_type f) then ?sel else ?rec)"
    unfolding start_bind_def st1(1) bind.bind_lunit case_prod_conv Let_def
    using t r bind_line_text [OF assms(1), of st1]
    by (auto simp: enum_type_def update_recipe_def grow_recipe_def)
  have "reading v names rec (sel @ [bind_text f]) ?sel" "reading v names (rec @ bind_text f @ nl) sel ?rec"
    using st1(2) r b by (auto simp: reading_def contents_strgrow builder_ok_strgrow)
  then have rd: "reading v names (if enum_type (field_type f) then rec else rec @ bind_text f @ nl) (if enum_type (field_type f) then sel @ [bind_text f] else sel)
      (if enum_type (field_type f) then ?sel else ?rec)" by simp
  have "strcasecmp_0 ''bind'' ''bind''" "\<not> strcasecmp_0 ''data'' ''bind''" "first_attribute ''dd:formid'' (bind_attributes_of f) = None"
    by (simp, code_simp, simp add: bind_attributes_of_def first_attribute_def)
  moreover from this(2) obtain st' where "end_xhtml ''bind'' (if enum_type (field_type f) then ?sel else ?rec) = Some st'"
    "reading v names (if enum_type (field_type f) then rec else rec @ bind_text f @ nl) (if enum_type (field_type f) then sel @ [bind_text f] else sel) st'"
    using end_other [OF rd] by blast
  moreover have "\<not> xhtml_in_instance st" using assms(2) by (simp add: reading_def)
  ultimately show ?thesis using s by (auto simp: bind_events_def start_xhtml_def start_form_def split: if_splits)
qed

lemma handle_all_append: "handle_all (xs @ ys) st = Option.bind (handle_all xs st) (handle_all ys)"
  by (induction xs arbitrary: st) (auto simp: bind_eq_Some_conv split: Option.bind_splits)

lemma binds_read:
  assumes "\<forall>f \<in> set fs. definable f \<and> field_name f \<in> set names" "length sel + length fs \<le> 1024" "reading v names rec sel st"
  shows "\<exists>st'. handle_all (concat (map bind_events fs)) st = Some st' \<and>
    reading v names (rec @ concat (map (\<lambda>f. bind_text f @ nl) (filter (\<lambda>f. \<not> enum_type (field_type f)) fs)))
      (sel @ map bind_text (filter (\<lambda>f. enum_type (field_type f)) fs)) st'"
  using assms
proof (induction fs arbitrary: rec sel st)
  case (Cons f fs)
  obtain st1 where st1: "handle_all (bind_events f) st = Some st1"
    "if enum_type (field_type f) then reading v names rec (sel @ [bind_text f]) st1 else reading v names (rec @ bind_text f @ nl) sel st1"
    using bind_read [of f v names rec sel st] Cons.prems by auto
  show ?case
  proof (cases "enum_type (field_type f)")
    case True
    with Cons.IH [of "sel @ [bind_text f]" rec st1] Cons.prems st1 show ?thesis by (simp add: handle_all_append)
  next
    case False
    with Cons.IH [of sel "rec @ bind_text f @ nl" st1] Cons.prems st1 show ?thesis by (simp add: handle_all_append)
  qed
qed simp

section \<open>Selections\<close>

lemma str_contents: "str b \<noteq> None \<Longrightarrow> str b = Some (contents b)"
  by (auto simp: contents_def)

lemma grow_selects_one:
  assumes "\<forall>t \<in> set (map contents bs). \<not> strncasecmp_0 elem t (length elem)" "list_all (\<lambda>b. builder_ok b \<and> str b \<noteq> None) bs"
  shows "grow_selects elem x first bs = (first, bs)"
  using assms by (induction bs) (auto simp: contents_def)

lemma grow_selects_at:
  assumes "map contents bs = s1 @ t # s2" "list_all (\<lambda>b. builder_ok b \<and> str b \<noteq> None) bs" "strncasecmp_0 elem t (length elem)"
    "\<forall>t \<in> set (s1 @ s2). \<not> strncasecmp_0 elem t (length elem)"
  shows "\<exists>bs'. grow_selects elem x first bs = (False, bs') \<and> map contents bs' = s1 @ (t @ (if first then '':'' else '','') @ x) # s2 \<and>
    list_all (\<lambda>b. builder_ok b \<and> str b \<noteq> None) bs'"
  using assms
proof (induction s1 arbitrary: bs)
  case Nil
  then obtain b bs2 where bs: "bs = b # bs2" "contents b = t" "map contents bs2 = s2" by auto
  have b: "builder_ok b" "str b = Some t" using Nil(2) bs str_contents [of b] by auto
  let ?c = "if first then '':'' else '',''"
  have "builder_ok (strgrow (strgrow b ?c) x)" "contents (strgrow (strgrow b ?c) x) = t @ ?c @ x" "str (strgrow (strgrow b ?c) x) \<noteq> None"
    using b(1) bs(2) builder_ok_strgrow contents_strgrow str_strgrow [OF str_strgrow] b(2) by simp_all
  moreover have "grow_selects elem x False bs2 = (False, bs2)"
    using Nil bs by (intro grow_selects_one) auto
  ultimately show ?case using Nil b bs by (simp add: Let_def)
next
  case (Cons u s1)
  then obtain b bs2 where bs: "bs = b # bs2" "contents b = u" "map contents bs2 = s1 @ t # s2" by auto
  have b: "str b = Some u" using Cons.prems(2) bs str_contents [of b] by auto
  obtain bs' where "grow_selects elem x first bs2 = (False, bs')" "map contents bs' = s1 @ (t @ (if first then '':'' else '','') @ x) # s2"
    "list_all (\<lambda>b. builder_ok b \<and> str b \<noteq> None) bs'"
    using Cons.IH [OF bs(3)] Cons.prems bs by auto
  with Cons.prems bs b show ?case by simp
qed

definition selecting :: "string \<Rightarrow> string \<Rightarrow> string list \<Rightarrow> string \<Rightarrow> string list \<Rightarrow> parse_state \<Rightarrow> bool" where
  "selecting n v names rec sel st \<longleftrightarrow> xhtmlSelectElem st = Some n \<and> \<not> xhtml_in_value st \<and> reading v names rec sel (st\<lparr>xhtmlSelectElem := None\<rparr>)"

lemma value_read:
  assumes "selecting n v names rec (s1 @ t # s2) st" "n \<in> set names" "strncasecmp_0 n t (length n)"
    "\<forall>t \<in> set (s1 @ s2). \<not> strncasecmp_0 n t (length n)" "c_str x = x"
  shows "\<exists>st'. handle_all (value_events x) st = Some st' \<and> \<not> xhtmlSelectFirst st' \<and>
    selecting n v names rec (s1 @ (t @ (if xhtmlSelectFirst st then '':'' else '','') @ x) # s2) st'"
proof -
  obtain r where r: "recipes st = [r]" "formversion r = v" "builder_ok (recipe_str r)" "contents (recipe_str r) = rec"
    "list_all (\<lambda>b. builder_ok b \<and> str b \<noteq> None) (selects r)" "map contents (selects r) = s1 @ t # s2" "curr_r st = Some 0"
    "tags st = map (\<lambda>n. \<lparr>tagname = n, tag_formversion = v\<rparr>) names" "\<not> xhtml_in_instance st" "xhtml_in_subform st = 0"
    "xhtmlSelectElem st = Some n" "\<not> xhtml_in_value st"
    using assms(1) by (auto simp: selecting_def reading_def)
  obtain bs where bs: "grow_selects n x (xhtmlSelectFirst st) (selects r) = (False, bs)"
    "map contents bs = s1 @ (t @ (if xhtmlSelectFirst st then '':'' else '','') @ x) # s2" "list_all (\<lambda>b. builder_ok b \<and> str b \<noteq> None) bs"
    using grow_selects_at [OF r(6,5) assms(3,4)] by blast
  obtain i where i: "position (\<lambda>t. tagname t = n) (tags st) = Some i" "tag_formversion (tags st ! i) = v"
    using position_member [OF assms(2), of v] r(8) by auto
  let ?st1 = "st\<lparr>xhtml_in_value := True\<rparr>"
  let ?st2 = "?st1\<lparr>curr_r := Some 0, xhtmlSelectFirst := False, recipes := [r\<lparr>selects := bs\<rparr>]\<rparr>"
  have names: "\<not> strcasecmp_0 ''bind'' ''xf:value''" "\<not> strcasecmp_0 ''xf:bind'' ''xf:value''" "\<not> strcasecmp_0 ''xf:select1'' ''xf:value''"
    "\<not> strcasecmp_0 ''xf:select'' ''xf:value''" "\<not> strcasecmp_0 ''data'' ''xf:value''" by code_simp+
  have 1: "handle (Start_element ''xf:value'' []) st = Some ?st1"
    using r names by (simp add: start_xhtml_def start_form_def first_attribute_def)
  have 2: "handle (Char_data x) ?st1 = Some ?st2"
    using r i bs(1) assms(5) by (simp add: characterdata_xhtml_def search_in_list_tags_def search_in_list_recipes_def)
  have 3: "handle (End_element ''xf:value'') ?st2 = Some (?st2\<lparr>xhtml_in_value := False\<rparr>)"
    using r names by (simp add: end_xhtml_def in_subform_element_def)
  have "handle_all (value_events x) st = Some (?st2\<lparr>xhtml_in_value := False\<rparr>)"
    unfolding value_events_def handle_all.simps 1 bind.bind_lunit 2 3 by simp
  then show ?thesis using r bs by (auto simp: selecting_def reading_def)
qed

lemma strncasecmp_0_append: "strncasecmp_0 n t (length n) \<Longrightarrow> length n \<le> length t \<Longrightarrow> strncasecmp_0 n (t @ r) (length n)"
  by (simp add: strncasecmp_0_def)

lemma values_read:
  assumes "selecting n v names rec (s1 @ t # s2) st" "n \<in> set names" "strncasecmp_0 n t (length n)" "length n \<le> length t"
    "\<forall>t \<in> set (s1 @ s2). \<not> strncasecmp_0 n t (length n)" "\<forall>x \<in> set xs. c_str x = x" "xhtmlSelectFirst st" "xs \<noteq> []"
  shows "\<exists>st'. handle_all (concat (map value_events xs)) st = Some st' \<and> selecting n v names rec (s1 @ (t @ '':'' @ commas xs) # s2) st'"
proof -
  have more: "\<exists>st'. handle_all (concat (map value_events ys)) st = Some st' \<and>
      selecting n v names rec (s1 @ (t @ concat (map (\<lambda>y. '','' @ y) ys)) # s2) st'"
    if "selecting n v names rec (s1 @ t # s2) st" "\<not> xhtmlSelectFirst st" "strncasecmp_0 n t (length n)" "length n \<le> length t"
      "\<forall>x \<in> set ys. c_str x = x" for ys t st
    using that
  proof (induction ys arbitrary: t st)
    case (Cons y ys)
    obtain st1 where "handle_all (value_events y) st = Some st1" "\<not> xhtmlSelectFirst st1" "selecting n v names rec (s1 @ (t @ '','' @ y) # s2) st1"
      using value_read [OF Cons.prems(1) assms(2) Cons.prems(3) assms(5), of y] Cons.prems(2,5) by auto
    with Cons.IH [of "t @ '','' @ y" st1] Cons.prems strncasecmp_0_append show ?case by (simp add: handle_all_append)
  qed auto
  obtain x ys where xs: "xs = x # ys" using assms(8) by (cases xs) auto
  obtain st1 where "handle_all (value_events x) st = Some st1" "\<not> xhtmlSelectFirst st1" "selecting n v names rec (s1 @ (t @ '':'' @ x) # s2) st1"
    using value_read [OF assms(1,2,3,5), of x] assms(6,7) xs by auto
  with more [of "t @ '':'' @ x" st1 ys] assms(3,4,6) strncasecmp_0_append xs
  have "\<exists>st'. handle_all (concat (map value_events xs)) st = Some st' \<and>
      selecting n v names rec (s1 @ (t @ '':'' @ x @ concat (map (\<lambda>y. '','' @ y) ys)) # s2) st'" by (simp add: handle_all_append)
  moreover have "commas (x # ys) = x @ concat (map (\<lambda>y. '','' @ y) ys)" by (induction ys arbitrary: x) auto
  ultimately show ?thesis using xs by simp
qed

text \<open>Whether the name of one field, case aside, starts the name of another: its values would go to both.\<close>

definition clash :: "field \<Rightarrow> field \<Rightarrow> bool" where
  "clash f g \<longleftrightarrow> length (field_name f) \<le> length (field_name g) \<and> strncasecmp_0 (field_name f) (field_name g) (length (field_name f))"

lemma lower_colon: "lower c = CHR '':'' \<longleftrightarrow> c = CHR '':''"
proof (cases "65 \<le> (of_char c :: nat) \<and> (of_char c :: nat) \<le> 90")
  case True
  then have "(of_char (lower c) :: nat) = of_char c + 32" by (simp add: lower_def)
  with True have "(of_char (lower c) :: nat) \<noteq> 58" "(of_char c :: nat) \<noteq> 58" by simp_all
  moreover have "(of_char (CHR '':'') :: nat) = 58" by simp
  ultimately show ?thesis by metis
next
  case False
  then have "lower c = c" unfolding lower_def Let_def by (simp only: if_False)
  then show ?thesis by simp
qed

lemma no_clash_line:
  assumes "\<not> clash f g" "CHR '':'' \<notin> set (field_name f)"
  shows "\<not> strncasecmp_0 (field_name f) (field_name g @ '':'' @ r) (length (field_name f))"
proof
  let ?n = "field_name f" and ?m = "field_name g"
  assume eq: "strncasecmp_0 ?n (?m @ '':'' @ r) (length ?n)"
  show False
  proof (cases "length ?n \<le> length ?m")
    case True
    with eq assms(1) show False by (simp add: clash_def strncasecmp_0_def)
  next
    case False
    then have "map lower ?n ! length ?m = map lower (take (length ?n) (?m @ '':'' @ r)) ! length ?m"
      using eq by (simp add: strncasecmp_0_def)
    then have "lower (?n ! length ?m) = lower (CHR '':'')" using False by (simp add: nth_append)
    then have "?n ! length ?m = CHR '':''" using lower_colon by (metis lower_idem)
    with assms(2) False show False by (metis nth_mem not_le)
  qed
qed

lemma bind_text_line: "definable f \<Longrightarrow> bind_text f @ '':'' @ commas (enum_value f) = field_line f"
proof -
  have "show_int 0 = ''0''" by code_simp
  then show "definable f \<Longrightarrow> ?thesis" by (simp add: bind_text_def field_line_def definable_def)
qed

lemma select_read:
  assumes "definable f" "enum_type (field_type f)" "field_name f \<in> set names" "reading v names rec (s1 @ bind_text f # s2) st"
    "\<forall>t \<in> set (s1 @ s2). \<not> strncasecmp_0 (field_name f) t (length (field_name f))"
  shows "\<exists>st'. handle_all (select_events f) st = Some st' \<and> reading v names rec (s1 @ field_line f # s2) st'"
proof -
  let ?n = "field_name f"
  let ?st1 = "st\<lparr>xhtmlSelectElem := Some ?n, xhtmlSelectFirst := True\<rparr>"
  have sel: "selecting ?n v names rec (s1 @ bind_text f # s2) ?st1"
    using assms(4) by (simp add: selecting_def reading_def)
  have n: "strncasecmp_0 ?n (bind_text f) (length ?n)" "length ?n \<le> length (bind_text f)" by (simp_all add: bind_text_def strncasecmp_0_def)
  have vs: "\<forall>x \<in> set (enum_value f). c_str x = x" "enum_value f \<noteq> []"
    using assms(1,2) by (auto simp: definable_def field_line_ok_def field_wf_def plain_def intro!: c_str_id)
  obtain st2 where st2: "handle_all (concat (map value_events (enum_value f))) ?st1 = Some st2"
    "selecting ?n v names rec (s1 @ (bind_text f @ '':'' @ commas (enum_value f)) # s2) st2"
    using values_read [OF sel assms(3) n assms(5) vs(1) _ vs(2)] by auto
  have names: "\<not> strcasecmp_0 ''bind'' ''xf:select1''" "\<not> strcasecmp_0 ''xf:bind'' ''xf:select1''" "strcasecmp_0 ''bind'' ''bind''"
    "\<not> strcasecmp_0 ''data'' ''xf:select1''" "\<not> strcasecmp_0 ''value'' ''xf:select1''" "\<not> strcasecmp_0 ''xf:value'' ''xf:select1''" by code_simp+
  have "CHR ''/'' \<notin> set ?n" using assms(1) by (simp add: definable_def)
  then have 1: "handle (Start_element ''xf:select1'' [(''bind'', ?n)]) st = Some ?st1"
    using assms(4) names by (simp add: start_xhtml_def start_form_def first_attribute_def reading_def start_select_def after_last_def)
  have 3: "handle (End_element ''xf:select1'') st2 = Some (st2\<lparr>xhtmlSelectElem := None\<rparr>)"
    using st2(2) names by (simp add: end_xhtml_def in_subform_element_def selecting_def reading_def)
  have "handle_all (select_events f) st = Some (st2\<lparr>xhtmlSelectElem := None\<rparr>)"
    unfolding select_events_def append_Cons append_Nil handle_all.simps 1 bind.bind_lunit handle_all_append st2(1) 3 by simp
  then show ?thesis using st2(2) bind_text_line [OF assms(1)] by (simp add: selecting_def)
qed

lemma selects_read:
  assumes "\<forall>f \<in> set fs. definable f \<and> enum_type (field_type f) \<and> field_name f \<in> set names"
    "\<forall>f \<in> set fs. \<forall>g \<in> set (gs @ fs). f \<noteq> g \<longrightarrow> \<not> clash f g" "distinct (gs @ fs)"
    "reading v names rec (map field_line gs @ map bind_text fs) st"
  shows "\<exists>st'. handle_all (concat (map select_events fs)) st = Some st' \<and> reading v names rec (map field_line (gs @ fs)) st'"
  using assms
proof (induction fs arbitrary: gs st)
  case (Cons f fs)
  have c: "CHR '':'' \<notin> set (field_name f)" using Cons.prems(1) by (simp add: definable_def field_line_ok_def)
  have "\<not> strncasecmp_0 (field_name f) t (length (field_name f))" if "t \<in> set (map field_line gs @ map bind_text fs)" for t
  proof -
    obtain g r where g: "g \<in> set (gs @ fs)" "t = field_name g @ '':'' @ r"
      using \<open>t \<in> _\<close> by (auto simp: field_line_def bind_text_def)
    moreover have "f \<noteq> g" using g(1) Cons.prems(3) by auto
    ultimately show ?thesis using no_clash_line [OF _ c] Cons.prems(2) by auto
  qed
  then obtain st1 where st1: "handle_all (select_events f) st = Some st1" "reading v names rec (map field_line gs @ field_line f # map bind_text fs) st1"
    using select_read [of f names v rec "map field_line gs" "map bind_text fs" st] Cons.prems(1,4) by auto
  with Cons.IH [of "gs @ [f]" st1] Cons.prems show ?case by (auto simp: handle_all_append)
qed auto

section \<open>The instance\<close>

text \<open>The state while the elements of the instance are read.\<close>

definition filling :: "string \<Rightarrow> string list \<Rightarrow> parse_state \<Rightarrow> bool" where
  "filling v names st \<longleftrightarrow> reading v names implied_meta_fields [] (st\<lparr>xhtml_in_instance := False\<rparr>) \<and> xhtml_in_instance st \<and>
     curr_t st = (if names = [] then None else Some (length names - 1)) \<and> subforms st = [v]"

lemma reading_template [simp]: "reading v names rec sel (grow_template s st) = reading v names rec sel st"
  by (simp add: reading_def grow_template_def)

lemma filling_template [simp]: "filling v names (grow_template s st) = filling v names st"
  by (simp add: filling_def grow_template_def reading_def)

lemma end_instance:
  assumes "filling v names st" "\<not> strcasecmp_0 ''data'' n"
  shows "\<exists>st'. end_xhtml n st = Some st' \<and> filling v names st'"
proof -
  define s where "s = (let st = (if strcasecmp_0 ''xf:select1'' n \<or> strcasecmp_0 ''xf:select'' n then st\<lparr>xhtmlSelectElem := None\<rparr> else st)
    in if strcasecmp_0 ''value'' n \<or> strcasecmp_0 ''xf:value'' n then st\<lparr>xhtml_in_value := False\<rparr> else st)"
  have s: "filling v names s" using assms(1) by (simp add: s_def filling_def reading_def Let_def)
  then have i: "xhtml_in_instance s" "xhtml_in_subform s = 0" "xhtml_in_subform (fold grow_template [''</'', n, ''>'' @ nl] s) = 0"
    by (auto simp: filling_def reading_def grow_template_def)
  have "end_xhtml n st = Some (fold grow_template [''</'', n, ''>'' @ nl] s)"
    unfolding end_xhtml_def Let_def s_def [unfolded Let_def, symmetric] using assms(2) i by (simp add: in_subform_element_def)
  with s show ?thesis by simp
qed

lemma instance_read:
  assumes "filling v names st" "\<not> strcasecmp_0 ''data'' n"
  shows "\<exists>st'. handle_all [Start_element n [], End_element n] st = Some st' \<and> filling v (names @ [n]) st'"
proof -
  let ?st1 = "add_to_list_tags n v True st"
  have 1: "filling v (names @ [n]) ?st1"
    using assms(1) by (cases "names = []") (auto simp: filling_def reading_def add_to_list_tags_def add_node_def Let_def)
  let ?st2 = "fold grow_template [''>$'', n, ''$''] (grow_template n (grow_template ''<'' ?st1))"
  have 2: "filling v (names @ [n]) ?st2" using 1 by simp
  have "handle (Start_element n []) st = Some ?st2"
    using assms(1) by (simp add: start_xhtml_def start_form_def first_attribute_def filling_def start_instance_element_def Let_def)
  moreover obtain st3 where "end_xhtml n ?st2 = Some st3" "filling v (names @ [n]) st3" using end_instance [OF 2 assms(2)] by blast
  ultimately show ?thesis by simp
qed

lemma instances_read:
  "filling v names st \<Longrightarrow> \<forall>f \<in> set fs. definable f \<Longrightarrow>
     \<exists>st'. handle_all (concat (map instance_events fs)) st = Some st' \<and> filling v (names @ map field_name fs) st'"
proof (induction fs arbitrary: names st)
  case (Cons f fs)
  obtain st1 where "handle_all (instance_events f) st = Some st1" "filling v (names @ [field_name f]) st1"
    using instance_read [OF Cons.prems(1), of "field_name f"] Cons.prems(2) by (auto simp: instance_events_def definable_def)
  with Cons.IH [of "names @ [field_name f]" st1] Cons.prems(2) show ?case by (simp add: handle_all_append)
qed auto

lemma model_read:
  assumes "length v < 1024"
  shows "\<exists>st. handle_all [Start_element ''xf:model'' [(''dd:formid'', v)], Start_element ''data'' []] parse_start = Some st \<and> filling v [] st"
proof -
  have names: "\<not> strcasecmp_0 ''bind'' ''xf:model''" "\<not> strcasecmp_0 ''xf:bind'' ''xf:model''" "\<not> strcasecmp_0 ''xf:select1'' ''xf:model''"
    "\<not> strcasecmp_0 ''xf:select'' ''xf:model''" "\<not> strcasecmp_0 ''data'' ''xf:model''" "\<not> strcasecmp_0 ''bind'' ''data''"
    "\<not> strcasecmp_0 ''xf:bind'' ''data''" "\<not> strcasecmp_0 ''xf:select1'' ''data''" "\<not> strcasecmp_0 ''xf:select'' ''data''" by code_simp+
  let ?r = "\<lparr>is_subform_node = False, formversion = v, recipe_str = strgrow empty_builder implied_meta_fields, selects = []\<rparr>"
  let ?st = "parse_start\<lparr>recipes := [?r], curr_r := Some 0, subforms := [v]\<rparr>"
  have 1: "start_form [(''dd:formid'', v)] parse_start = Some ?st"
    using assms by (simp add: start_form_def first_attribute_def add_to_list_recipes_def add_node_def parse_start_def update_recipe_def
        grow_recipe_def add_to_list_subforms_def)
  have sm: "start_model [(''dd:formid'', v)] ?st = ?st\<lparr>xhtmlFormVersion := (if strcasecmp_0 ''dd:formid'' ''dd:formid'' then Some v else None),
      xhtmlFormName := (if strcasecmp_0 ''id'' ''dd:formid'' then Some v else None)\<rparr>"
    by (simp add: start_model_def parse_start_def)
  have b: "builder_ok (strgrow empty_builder implied_meta_fields)" "contents (strgrow empty_builder implied_meta_fields) = implied_meta_fields"
    using strgrow_ok [of empty_builder implied_meta_fields] by simp_all
  have "handle (Start_element ''xf:model'' [(''dd:formid'', v)]) parse_start = Some (start_model [(''dd:formid'', v)] ?st)"
    using names by (simp add: start_xhtml_def 1) (simp add: parse_start_def)
  then show ?thesis using names b
    by (simp add: sm start_xhtml_def start_form_def first_attribute_def) (simp add: parse_start_def filling_def reading_def)
qed

lemma instance_ends:
  assumes "filling v names st"
  shows "\<exists>st'. end_xhtml ''data'' st = Some st' \<and> reading v names implied_meta_fields [] st'"
proof -
  have "\<not> strcasecmp_0 ''xf:select1'' ''data''" "\<not> strcasecmp_0 ''xf:select'' ''data''" "\<not> strcasecmp_0 ''value'' ''data''"
    "\<not> strcasecmp_0 ''xf:value'' ''data''" by code_simp+
  with assms show ?thesis by (simp add: end_xhtml_def in_subform_element_def filling_def reading_def)
qed

section \<open>The recipe\<close>

definition definition_fields :: "field list \<Rightarrow> field list" where
  "definition_fields fs = filter (\<lambda>f. \<not> enum_type (field_type f)) fs @ filter (\<lambda>f. enum_type (field_type f)) fs"

definition recipe_lines_of :: "field list \<Rightarrow> string list" where
  "recipe_lines_of fs = map (\<lambda>f. if enum_type (field_type f) then field_line f else bind_text f) (definition_fields fs)"

lemma finish_contents:
  assumes "builder_ok acc" "list_all (\<lambda>b. builder_ok b \<and> str b \<noteq> None) bs"
  shows "contents (fold (\<lambda>b acc. strgrow (strgrow acc (case str b of None \<Rightarrow> [] | Some s \<Rightarrow> s)) nl) bs acc) =
    contents acc @ concat (map (\<lambda>t. t @ nl) (map contents bs))"
  using assms
proof (induction bs arbitrary: acc)
  case (Cons b bs)
  have "(case str b of None \<Rightarrow> [] | Some s \<Rightarrow> s) = contents b" by (simp add: contents_def)
  with Cons show ?case by (simp add: contents_strgrow builder_ok_strgrow)
qed simp

definition definition_ok :: "string \<Rightarrow> field list \<Rightarrow> bool" where
  "definition_ok v fs \<longleftrightarrow> length v < 1024 \<and> list_all definable fs \<and> length fs \<le> 990 \<and> distinct fs \<and>
     (\<forall>f \<in> set fs. \<forall>g \<in> set fs. enum_type (field_type f) \<and> enum_type (field_type g) \<and> f \<noteq> g \<longrightarrow> \<not> clash f g)"

lemma definition_handled:
  assumes "definition_ok v fs"
  shows "\<exists>st. handle_all (definition_events v fs) parse_start = Some st \<and>
    reading v (map field_name fs) (implied_meta_fields @ concat (map (\<lambda>f. bind_text f @ nl) (filter (\<lambda>f. \<not> enum_type (field_type f)) fs)))
      (map field_line (filter (\<lambda>f. enum_type (field_type f)) fs)) st"
proof -
  let ?rec = "implied_meta_fields @ concat (map (\<lambda>f. bind_text f @ nl) (filter (\<lambda>f. \<not> enum_type (field_type f)) fs))"
  let ?names = "map field_name fs" and ?es = "filter (\<lambda>f. enum_type (field_type f)) fs"
  have ok: "length v < 1024" "\<forall>f \<in> set fs. definable f" "length fs \<le> 990" "distinct fs"
    "\<forall>f \<in> set fs. \<forall>g \<in> set fs. enum_type (field_type f) \<and> enum_type (field_type g) \<and> f \<noteq> g \<longrightarrow> \<not> clash f g"
    using assms by (auto simp: definition_ok_def list_all_iff)
  obtain st0 where 0: "handle_all [Start_element ''xf:model'' [(''dd:formid'', v)], Start_element ''data'' []] parse_start = Some st0" "filling v [] st0"
    using model_read [OF ok(1)] by blast
  obtain st1 where 1: "handle_all (concat (map instance_events fs)) st0 = Some st1" "filling v ?names st1"
    using instances_read [OF 0(2) ok(2)] by auto
  obtain st2 where 2: "handle_all [End_element ''data''] st1 = Some st2" "reading v ?names implied_meta_fields [] st2"
    using instance_ends [OF 1(2)] by auto
  obtain st3 where 3: "handle_all (concat (map bind_events fs)) st2 = Some st3"
    "reading v ?names ?rec (map bind_text ?es) st3"
    using binds_read [OF _ _ 2(2), of fs] ok(2,3) by auto
  obtain st4 where 4: "handle_all (concat (map select_events ?es)) st3 = Some st4"
    "reading v ?names ?rec (map field_line ?es) st4"
    using selects_read [of ?es ?names "[]" v ?rec st3] 3(2) ok by auto
  have "\<not> strcasecmp_0 ''data'' ''xf:model''" by code_simp
  from end_other [OF 4(2) this] obtain st5 where 5: "handle_all [End_element ''xf:model''] st4 = Some st5"
    "reading v ?names ?rec (map field_line ?es) st5"
    by auto
  have "handle_all (definition_events v fs) parse_start = Some st5"
    unfolding definition_events_def handle_all_append 0(1) 1(1) 2(1) 3(1) 4(1) 5(1) bind.bind_lunit ..
  with 5(2) show ?thesis by blast
qed

lemma definition_text:
  assumes "definition_ok v fs" "xml_parse x = (definition_events v fs, True)"
  shows "\<exists>t. xhtmlToRecipe xml_parse x = Some (Inr ([(Some (implied_meta_fields @ concat (map (\<lambda>l. l @ nl) (recipe_lines_of fs))), v)], t))"
proof -
  let ?rec = "implied_meta_fields @ concat (map (\<lambda>f. bind_text f @ nl) (filter (\<lambda>f. \<not> enum_type (field_type f)) fs))"
  let ?es = "filter (\<lambda>f. enum_type (field_type f)) fs"
  obtain st r where st: "handle_all (definition_events v fs) parse_start = Some st" "recipes st = [r]" "formversion r = v" "curr_r st = Some 0"
    "builder_ok (recipe_str r)" "contents (recipe_str r) = ?rec" "list_all (\<lambda>b. builder_ok b \<and> str b \<noteq> None) (selects r)"
    "map contents (selects r) = map field_line ?es"
    using definition_handled [OF assms(1)] by (auto simp: reading_def)
  let ?b = "fold (\<lambda>b acc. strgrow (strgrow acc (case str b of None \<Rightarrow> [] | Some s \<Rightarrow> s)) nl) (selects r) (recipe_str r)"
  have t: "?rec @ concat (map (\<lambda>t. t @ nl) (map field_line ?es)) = implied_meta_fields @ concat (map (\<lambda>l. l @ nl) (recipe_lines_of fs))"
  proof -
    have "map (\<lambda>x. (if enum_type (field_type x) then field_line x else bind_text x) @ nl) (filter (\<lambda>f. \<not> enum_type (field_type f)) fs) =
        map (\<lambda>f. bind_text f @ nl) (filter (\<lambda>f. \<not> enum_type (field_type f)) fs)"
      "map (\<lambda>x. (if enum_type (field_type x) then field_line x else bind_text x) @ nl) ?es = map (\<lambda>f. field_line f @ nl) ?es" by simp_all
    then show ?thesis by (simp only: recipe_lines_of_def definition_fields_def map_append map_map comp_def concat_append append_assoc)
  qed
  have c: "contents ?b = implied_meta_fields @ concat (map (\<lambda>l. l @ nl) (recipe_lines_of fs))"
    unfolding finish_contents [OF st(5,7)] st(6,8) by (rule t)
  have "implied_meta_fields \<noteq> []" by (simp add: implied_meta_fields_def)
  then have "contents ?b \<noteq> []" unfolding c by simp
  then have "str ?b \<noteq> None" unfolding contents_def by (cases "str ?b") simp_all
  with c have "finish_recipe r = (Some (implied_meta_fields @ concat (map (\<lambda>l. l @ nl) (recipe_lines_of fs))), v)"
    using str_contents [of ?b] by (simp add: finish_recipe_def st(3))
  then show ?thesis using st(1,2,4) assms(2) by (simp add: xhtmlToRecipe_def)
qed

section \<open>Reading the recipe\<close>

text \<open>A line that line_defines a field.\<close>

definition line_defines :: "string \<Rightarrow> field \<Rightarrow> bool" where
  "line_defines l f \<longleftrightarrow> (\<forall>n. recipe_line n l = Some (Inr f)) \<and> (\<forall>c \<in> set l. \<not> is_eol c) \<and> l \<noteq> [] \<and> hd l \<noteq> CHR ''#'' \<and> length l \<le> 16380"

lemma lines_read:
  assumes "list_all2 line_defines ls fs" "length gs + length fs \<le> 1000"
  shows "\<exists>n'. recipe_lines n [] gs (concat (map (\<lambda>l. l @ nl) ls) @ rest) = recipe_lines n' [] (gs @ fs) rest"
  using assms
proof (induction ls fs arbitrary: n gs rule: list_all2_induct)
  case (Cons l ls f fs)
  have "recipe_lines n [] gs (l @ CHR 0x0A # concat (map (\<lambda>l. l @ nl) ls) @ rest) =
      recipe_lines (n + 1) [] (gs @ [f]) (concat (map (\<lambda>l. l @ nl) ls) @ rest)"
    using recipe_lines_line [of l "[]" n gs] Cons.hyps(1) Cons.prems by (simp add: line_defines_def recipe_line_end_def)
  moreover obtain n' where "recipe_lines (n + 1) [] (gs @ [f]) (concat (map (\<lambda>l. l @ nl) ls) @ rest) = recipe_lines n' [] ((gs @ [f]) @ fs) rest"
    using Cons.IH [of "gs @ [f]" "n + 1"] Cons.prems by auto
  ultimately show ?case by (auto simp: nl_def)
qed auto

lemma defines_field_line: "field_line_ok f \<Longrightarrow> line_defines (field_line f) f"
  using recipe_line_field [of f] plain_no_eol [OF field_line_plain [of f]] field_line_start [of f]
  by (simp add: line_defines_def field_line_ok_def)

lemma scan_bind_text:
  assumes "definable f"
  shows "scan_field (c_str (bind_text f)) = Some (field_name f, recipe_field_type_name (field_type f), minimum f, maximum f, 0, [])"
proof -
  have f: "field_line_ok f" "field_wf f" using assms by (auto simp: definable_def field_line_ok_def)
  have "c_str (bind_text f) = bind_text f"
    using type_name_plain [of "field_type f"] show_int_plain' [of "minimum f"] show_int_plain' [of "maximum f"] f(1)
    by (intro c_str_id) (auto simp: bind_text_def plain_def field_line_ok_def)
  moreover have "CHR '':'' \<notin> set (field_name f)" "field_name f \<noteq> []" using f by (auto simp: field_line_ok_def field_wf_def)
  note scan_not_Some(1) [OF this]
  moreover note scan_not_Some(1) [of "CHR '':''" "recipe_field_type_name (field_type f)"] type_name_plain [of "field_type f"]
  moreover have colon: "\<not> is_digit CHR '':''" by (simp add: is_digit_def)
  have "scan_d (show_int v @ CHR '':'' # r) = Some (v, CHR '':'' # r)" if "int32 v" for v r
    using scan_d_show_int [of v "CHR '':'' # r"] colon that by (simp add: int32_def)
  moreover have "scan_d ''0'' = Some (0, [])" by code_simp
  ultimately show ?thesis
    using f(1) by (simp add: scan_field_def bind_text_def field_line_ok_def) (simp add: scan_lit_def)
qed

lemma defines_bind_text:
  assumes "definable f" "\<not> enum_type (field_type f)"
  shows "line_defines (bind_text f) f"
proof -
  have f: "field_line_ok f" "field_wf f" "precision f = 0" using assms by (auto simp: definable_def field_line_ok_def)
  have t: "recipe_parse_fieldtype (recipe_field_type_name (field_type f)) = field_type f"
    using f(2) by (intro type_name_parsed) (auto simp: field_wf_def)
  have "recipe_line n (bind_text f) = Some (Inr f)" for n
    using f assms(2) unfolding recipe_line_def scan_bind_text [OF assms(1)] option.case case_prod_conv t Let_def
    by (auto simp: field_wf_def enum_type_def intro!: field.equality)
  moreover have "plain (bind_text f)"
    using type_name_plain [of "field_type f"] show_int_plain' [of "minimum f"] show_int_plain' [of "maximum f"] f(1)
    by (auto simp: bind_text_def plain_def field_line_ok_def)
  from plain_no_eol [OF this] have "\<forall>c \<in> set (bind_text f). \<not> is_eol c" by blast
  moreover have "bind_text f \<noteq> []" "hd (bind_text f) \<noteq> CHR ''#''" using f(1,2) by (auto simp: bind_text_def field_line_ok_def field_wf_def)
  ultimately show ?thesis using assms(1) by (simp add: line_defines_def definable_def)
qed

lemma definition_lines:
  assumes "definition_ok v fs"
  shows "list_all2 line_defines (recipe_lines_of fs) (definition_fields fs)"
proof -
  have "\<forall>f \<in> set (definition_fields fs). definable f" using assms by (auto simp: definition_fields_def definition_ok_def list_all_iff)
  then have "\<forall>f \<in> set (definition_fields fs). line_defines (if enum_type (field_type f) then field_line f else bind_text f) f"
    by (auto simp: definable_def intro: defines_field_line defines_bind_text)
  then show ?thesis by (simp add: recipe_lines_of_def list_all2_map1 list_all2_same)
qed

text \<open>The fields of every form.\<close>

definition meta_field :: "string \<Rightarrow> int \<Rightarrow> int \<Rightarrow> int \<Rightarrow> field" where
  "meta_field n t mn mx = \<lparr>field_name = n, field_type = t, minimum = mn, maximum = mx, precision = 0, enum_value = [], enum_count = 0\<rparr>"

definition meta_fields :: "field list" where
  "meta_fields = [meta_field ''userid'' FIELDTYPE_TEXT 0 0, meta_field ''accesstoken'' FIELDTYPE_TEXT 0 0, meta_field ''formid'' FIELDTYPE_TEXT 0 0,
     meta_field ''lastsubmittime'' FIELDTYPE_MAGPITIMEDATE 0 0, meta_field ''endrecordtime'' FIELDTYPE_MAGPITIMEDATE 0 0,
     meta_field ''startrecordtime'' FIELDTYPE_MAGPITIMEDATE 0 0, meta_field ''version'' FIELDTYPE_TEXT 0 0, meta_field ''uuid'' FIELDTYPE_MAGPIUUID 0 0,
     meta_field ''latitude'' FIELDTYPE_FLOAT (-90) 90, meta_field ''longitude'' FIELDTYPE_FLOAT (-200) 200]"

definition meta_lines :: "string list" where
  "meta_lines = [''userid:string:0:0:0'', ''accesstoken:string:0:0:0'', ''formid:string:0:0:0'', ''lastsubmittime:magpitimestamp:0:0:0'',
     ''endrecordtime:magpitimestamp:0:0:0'', ''startrecordtime:magpitimestamp:0:0:0'', ''version:string:0:0:0'', ''uuid:magpiuuid:0:0:0'',
     ''latitude:float:-90:90:0'', ''longitude:float:-200:200:0'']"

lemma meta_text: "implied_meta_fields = concat (map (\<lambda>l. l @ nl) meta_lines)"
  by (simp add: implied_meta_fields_def meta_lines_def)

lemma meta_defined: "list_all2 line_defines meta_lines meta_fields"
proof -
  have types: "recipe_parse_fieldtype ''string'' = FIELDTYPE_TEXT" "recipe_parse_fieldtype ''magpitimestamp'' = FIELDTYPE_MAGPITIMEDATE"
    "recipe_parse_fieldtype ''magpiuuid'' = FIELDTYPE_MAGPIUUID" "recipe_parse_fieldtype ''float'' = FIELDTYPE_FLOAT" by code_simp+
  have scans: "list_all2 (\<lambda>l f. scan_field (c_str l) = Some f) meta_lines
    [(''userid'', ''string'', 0, 0, 0, []), (''accesstoken'', ''string'', 0, 0, 0, []), (''formid'', ''string'', 0, 0, 0, []),
     (''lastsubmittime'', ''magpitimestamp'', 0, 0, 0, []), (''endrecordtime'', ''magpitimestamp'', 0, 0, 0, []),
     (''startrecordtime'', ''magpitimestamp'', 0, 0, 0, []), (''version'', ''string'', 0, 0, 0, []), (''uuid'', ''magpiuuid'', 0, 0, 0, []),
     (''latitude'', ''float'', -90, 90, 0, []), (''longitude'', ''float'', -200, 200, 0, [])]" by code_simp
  have "list_all2 (\<lambda>l f. recipe_line n l = Some (Inr f)) meta_lines meta_fields" for n
    using scans by (simp add: meta_lines_def meta_fields_def meta_field_def recipe_line_def types)
  moreover have "\<forall>l \<in> set meta_lines. (\<forall>c \<in> set l. \<not> is_eol c) \<and> l \<noteq> [] \<and> hd l \<noteq> CHR ''#'' \<and> length l \<le> 16380"
    by (simp add: meta_lines_def is_eol_def)
  ultimately show ?thesis by (auto simp: line_defines_def list_all2_conv_all_nth)
qed

text \<open>From the definition of a form to its fields: the events of an XHTML definition give one recipe under the id of the form, and
  the text of this recipe is read as the implied fields, then the plain fields of the definition and then its enumerations with
  all their values, each with its type and range.\<close>

lemma definition_read:
  assumes "definition_ok v fs" "xml_parse x = (definition_events v fs, True)" "form_basename file = Some name"
    and "length (concat (map (\<lambda>l. l @ nl) (recipe_lines_of fs))) \<le> 1048000"
  shows "\<exists>text t hash. xhtmlToRecipe xml_parse x = Some (Inr ([(Some text, v)], t)) \<and> recipe_form_hash junk file = Some (hash, name) \<and>
    recipe_read junk file text =
      Some (Inr \<lparr>formhash = hash, formname = name, field_list = meta_fields @ definition_fields fs, field_count = 10 + length fs\<rparr>)"
proof -
  let ?text = "implied_meta_fields @ concat (map (\<lambda>l. l @ nl) (recipe_lines_of fs))"
  obtain t where t: "xhtmlToRecipe xml_parse x = Some (Inr ([(Some ?text, v)], t))" using definition_text [OF assms(1), of xml_parse x] assms(2) by blast
  have len: "length (definition_fields fs) = length fs" "length meta_fields = 10" "length fs \<le> 990"
    using sum_length_filter_compl [of "\<lambda>f. enum_type (field_type f)" fs] assms(1)
    by (auto simp: definition_fields_def meta_fields_def definition_ok_def)
  have l: "list_all2 line_defines (meta_lines @ recipe_lines_of fs) (meta_fields @ definition_fields fs)"
    using meta_defined definition_lines [OF assms(1)] by (rule list_all2_appendI)
  obtain n where "recipe_lines 1 [] [] (concat (map (\<lambda>l. l @ nl) (meta_lines @ recipe_lines_of fs)) @ []) =
      recipe_lines n [] ([] @ meta_fields @ definition_fields fs) []"
    using lines_read [OF l, of "[]" 1 "[]"] len by auto
  then have "recipe_lines 1 [] [] ?text = Some (Inr (meta_fields @ definition_fields fs))"
    using len by (simp add: meta_text recipe_line_end_def)
  moreover have "length implied_meta_fields \<le> 500" "implied_meta_fields \<noteq> []" by (simp_all add: implied_meta_fields_def nl_def)
  ultimately show ?thesis using t len assms(4) unfolding recipe_read_def recipe_form_hash_eq assms(3)
    by (auto simp: recipe_form_hash_eq assms(3))
qed

definition sample_definition :: "field list" where
  "sample_definition =
    [\<lparr>field_name = ''age'', field_type = FIELDTYPE_INTEGER, minimum = 0, maximum = 120, precision = 0, enum_value = [], enum_count = 0\<rparr>,
     \<lparr>field_name = ''crop'', field_type = FIELDTYPE_ENUM, minimum = 0, maximum = 0, precision = 0, enum_value = [''rice'', ''maize''], enum_count = 2\<rparr>,
     \<lparr>field_name = ''remark'', field_type = FIELDTYPE_TEXT, minimum = 0, maximum = 0, precision = 0, enum_value = [], enum_count = 0\<rparr>]"

lemma sample_definition_ok: "definition_ok ''7'' sample_definition"
proof -
  have sn: "show_int 0 = ''0''" "show_int 120 = ''120''" by code_simp+
  have names: "\<not> strcasecmp_0 n ''instanceID'' \<and> \<not> strcasecmp_0 ''data'' n" if "n \<in> {''age'', ''crop'', ''remark''}" for n
    using that by (simp only: insert_iff empty_iff) (elim disjE, simp_all only:, code_simp+)
  have "list_all definable sample_definition"
    by (simp add: sample_definition_def definable_def field_line_ok_def field_wf_def enum_type_def plain_def int32_def field_line_def sn
        recipe_field_type_name_def number_type_def bind_text_def names)
  moreover have "distinct sample_definition" by (simp add: sample_definition_def)
  ultimately show ?thesis by (auto simp: definition_ok_def sample_definition_def enum_type_def)
qed

lemma sample_definition_size: "length (concat (map (\<lambda>l. l @ nl) (recipe_lines_of sample_definition))) \<le> 1048000"
proof -
  have sn: "show_int 0 = ''0''" "show_int 120 = ''120''" by code_simp+
  show ?thesis
    by (simp add: recipe_lines_of_def definition_fields_def sample_definition_def enum_type_def field_line_def bind_text_def sn
        recipe_field_type_name_def nl_def)
qed

section \<open>A lost recipe\<close>

definition subform_last :: "xml_event list" where
  "subform_last =
    [Start_element ''xf:model'' [(''dd:formid'', ''1'')], Start_element ''data'' [], Start_element ''a'' [], End_element ''a'',
     Start_element ''s'' [(''dd:subformid'', ''2'')], Start_element ''b'' [], End_element ''b'', End_element ''s'', End_element ''data'',
     Start_element ''bind'' [(''nodeset'', ''/data/a''), (''type'', ''xsd:string'')], End_element ''bind'',
     Start_element ''bind'' [(''nodeset'', ''/data/s''), (''type'', ''xsd:subform'')], End_element ''bind'',
     Start_element ''bind'' [(''nodeset'', ''/data/s/b''), (''type'', ''xsd:string'')], End_element ''bind'', End_element ''xf:model'']"


end
