(* ===== verification/SmacPrefix.thy ===== *)
theory SmacPrefix
  imports Smac
begin

text \<open>
  The compressor of \<^verbatim>\<open>forms/smac.c\<close> with its length argument: a form field may ask for the first \<open>len\<close> bytes of a longer
  text. The letter model looks at \<open>len\<close> bytes (a character that starts before that limit may extend over it), the
  packed ASCII model writes \<open>len\<close> as the length but then all characters of the text. For the whole text these
  are the functions of the theory \<^verbatim>\<open>Smac\<close>.
\<close>

section \<open>Model\<close>

fun utf8toutf16_prefix :: "nat \<Rightarrow> u8 list \<Rightarrow> u16 list \<Rightarrow> (int \<times> u16 list) option" where
  "utf8toutf16_prefix 0 bs out = Some (0, out)"
| "utf8toutf16_prefix (Suc n) [] out = None"
| "utf8toutf16_prefix (Suc n) (b # rest) out =
     (if b AND 0xc0 = 0x80 then Some (-1, out)
      else if b AND 0xc0 < 0x80 then utf8toutf16_prefix n rest (out @ [ucast b])
      else if b < 0xe0 then
        (case rest of
           [] \<Rightarrow> None
         | b1 # rest' \<Rightarrow>
             utf8toutf16_prefix (n - 1) rest' (out @ [push_bit 6 (ucast (b AND 0x1f)) OR ucast (b1 AND 0x3f)]))
      else if b < 0xf8 then
        (if n = 0 then Some (-1, out)
         else case rest of
           b1 # b2 # rest' \<Rightarrow>
             utf8toutf16_prefix (n - 2) rest' (out @ [(push_bit 12 (ucast (b AND 0x0f)) OR push_bit 6 (ucast (b1 AND 0x3f)))
                                       OR ucast (b2 AND 0x3f)])
         | _ \<Rightarrow> None)
      else Some (-1, out))"

definition compress_radix_prefix :: "stats_handle \<Rightarrow> u8 list \<Rightarrow> nat \<Rightarrow> range_coder \<Rightarrow> (range_coder \<times> int) option" where
  "compress_radix_prefix h m len c = do {
     (c1, _) \<leftarrow> encode_preamble h 0 len c;
     Some (encodePackedASCII m c1) }"

definition compress_model1_prefix ::
    "stats_handle \<Rightarrow> (int \<Rightarrow> u32 list option) \<Rightarrow> u8 list \<Rightarrow> nat \<Rightarrow> range_coder \<Rightarrow> (range_coder \<times> int) option" where
  "compress_model1_prefix h unicode m len c = do {
     (r, utf16) \<leftarrow> utf8toutf16_prefix len m [];
     (if length utf16 > 1024 then None
      else if r \<noteq> 0 then Some (c, -1)
      else do {
        (c1, _) \<leftarrow> encode_preamble h 1 (length utf16) c;
        (c2, _) \<leftarrow> encodeNonAlpha utf16 c1;
        let alpha = stripNonAlpha utf16;
        let lcalpha = stripCase alpha;
        (c3, _) \<leftarrow> encodeLCAlphaSpace h unicode lcalpha c2;
        let alpha = mungeCase alpha;
        (c4, _) \<leftarrow> encodeCaseModel1 h alpha c3;
        Some (c4, 0) }) }"

definition compress_append_prefix ::
    "(nat \<Rightarrow> u8) \<Rightarrow> stats_handle \<Rightarrow> (int \<Rightarrow> u32 list option) \<Rightarrow> u8 list \<Rightarrow> nat \<Rightarrow> range_coder \<Rightarrow> (range_coder \<times> int) option" where
  "compress_append_prefix junk h unicode m len c = do {
     (t1, _) \<leftarrow> compress_model1_prefix h unicode m len (range_new_coder junk 1024);
     let b1 = bits_used (fst (range_conclude t1));
     (t2, r2) \<leftarrow> compress_radix_prefix h m len (range_new_coder junk 1024);
     let b2 = (if r2 \<noteq> 0 then 999999 else bits_used (fst (range_conclude t2)));
     let b3 = 999999;
     (if b1 < b2 \<and> b1 < b3 then compress_model1_prefix h unicode m len c
      else if b2 < b3 \<or> first_byte m AND 0x80 \<noteq> 0 then compress_radix_prefix h m len c
      else Some (stats3_compress_uncompressed_append (take len m) c)) }"

section \<open>The whole text\<close>

lemma utf8toutf16_prefix_all: "utf8toutf16_prefix (length bs) bs out = utf8toutf16 bs out"
  by (induction bs out rule: utf8toutf16.induct) (auto split: list.split)

lemma compress_prefix_all:
  "compress_model1_prefix h unicode m (length m) = stats3_compress_model1_append h unicode m"
  "compress_radix_prefix h m (length m) = stats3_compress_radix_append h m"
  by (simp_all add: fun_eq_iff compress_model1_prefix_def stats3_compress_model1_append_def compress_radix_prefix_def
      stats3_compress_radix_append_def utf8toutf16_prefix_all)

lemma compress_append_prefix_all:
  "compress_append_prefix junk h unicode m (length m) = stats3_compress_append junk h unicode m"
  by (rule ext) (simp only: compress_append_prefix_def stats3_compress_append_def compress_prefix_all take_all_iff order_refl
      take_all)

end
