(* ===== verification/RecipeCompress.thy ===== *)
theory RecipeCompress
  imports SmacPrefix RecipeText
begin

text \<open>
  \<^verbatim>\<open>forms/recipe_compress.c\<close>: a filled-in form is written field by field in the order of its recipe, a presence bit and
  then the value as equiprobable symbols or as compressed text. For each field type there is a function that computes the
  symbols from the text of the value; \<open>Undefined\<close> is behaviour the C standard leaves undefined (an uninitialised variable
  read, a read behind the terminating NUL, a signed overflow, a shift by 32 or more).

  What the value of a floating-point number or of a calendar time is depends on the floating-point unit and on the time zone of
  the device; the model takes the results as arguments, in \<open>c_env\<close>, next to the scratch memory and the
  statistics of the text compressor.
\<close>

section \<open>Environment\<close>

text \<open>\<open>float_parts\<close>: sign, exponent and mantissa as computed by \<^verbatim>\<open>atof\<close>, \<^verbatim>\<open>frexp\<close> and the product with 0xffffff. \<open>latlong\<close>: no match,
  or whether the coordinates are in range, the coordinates rounded to degrees and the coordinates in units of 1/112000 degree.\<close>

record c_env =
  scratch :: "nat \<Rightarrow> u8"
  stats :: stats_handle
  unicode_pages :: "int \<Rightarrow> u32 list option"
  float_parts :: "string \<Rightarrow> bool \<times> int \<times> int"
  latlong :: "string \<Rightarrow> (bool \<times> int \<times> int \<times> int \<times> int) option"
  mktime :: "int list \<Rightarrow> int"

section \<open>Values\<close>

definition recipe_parse_boolean :: "string \<Rightarrow> int" where
  "recipe_parse_boolean b =
     (if b \<noteq> [] \<and> hd b \<in> {CHR ''y'', CHR ''Y'', CHR ''t'', CHR ''T'', CHR ''1''} then 1 else 0)"

definition parseHexDigit :: "char \<Rightarrow> int" where
  "parseHexDigit c =
     (let n = of_char c :: int
      in if 48 \<le> n \<and> n \<le> 57 then n - 48
         else if 65 \<le> n \<and> n \<le> 70 then n - 65 + 10
         else if 97 \<le> n \<and> n \<le> 102 then n - 97 + 10 else 0)"

definition parseHexByte :: "char \<Rightarrow> char \<Rightarrow> int" where
  "parseHexByte a b = push_bit 4 (parseHexDigit a) OR parseHexDigit b"

text \<open>What is written for a value: nothing (the field is refused), symbols, symbols followed by the compressed text, or the
  compressed text of a number of bytes. \<open>Coded\<close> returns the code of the last symbol, \<open>Coded_0\<close> returns 0.\<close>

datatype field_code =
    Undefined
  | Rejected
  | Coded "(int \<times> int) list"
  | Coded_0 "(int \<times> int) list"
  | Escaped "(int \<times> int) list"
  | Texted nat

definition integer_code :: "field \<Rightarrow> string \<Rightarrow> field_code" where
  "integer_code f value =
     (let mn = minimum f; mx = maximum f; n = atoi value - mn
      in if \<not> int32 n then Undefined
         else if mx \<le> mn then Rejected
         else if \<not> int32 (mx - mn + 2) then Undefined
         else if n < 0 \<or> n > mx - mn + 1 then Escaped [(mx - mn + 2, mx - mn + 1)]
         else Coded [(mx - mn + 2, n)])"

definition float_code :: "c_env \<Rightarrow> string \<Rightarrow> field_code" where
  "float_code env value =
     (let (neg, exponent, mantissa) = float_parts env value;
          sign = (if neg then 1 else 0);
          exponent = (if exponent < -127 then -127 else exponent);
          exponent = (if exponent > 127 then 127 else exponent)
      in Coded [(2, sign), (256, exponent + 128), (256, drop_bit 16 mantissa AND 0xff),
                (256, drop_bit 8 mantissa AND 0xff), (256, mantissa AND 0xff)])"

definition boolean_code :: "string \<Rightarrow> field_code" where
  "boolean_code value = Coded [(2, recipe_parse_boolean value)]"

text \<open>A value below \<open>maxi\<close>, shortened to the precision asked for; \<open>full\<close> is the number of bits of \<open>maxi\<close>.\<close>

definition shortened :: "int \<Rightarrow> int \<Rightarrow> int \<Rightarrow> int \<Rightarrow> (int \<times> int) option" where
  "shortened full p maxi n =
     (let p = (if p = 0 then full else p)
      in if p < full
         then if full - p \<ge> 32 then None
              else let k = nat (full - p) in Some (drop_bit k maxi + 1 + 1, drop_bit k n)
         else Some (maxi + 1, n))"

definition timeofday_code :: "field \<Rightarrow> string \<Rightarrow> field_code" where
  "timeofday_code f value =
     (case scan_ints [Some (CHR '':''), Some (CHR ''.'')] value of
        h # m # r \<Rightarrow>
          if h < 0 \<or> h > 23 \<or> m < 0 \<or> m > 59 then Rejected
          else (case r of
            [] \<Rightarrow> Undefined
          | s # _ \<Rightarrow>
              if s < 0 \<or> s > 59 then Rejected
              else (case shortened 17 (precision f) (24 * 60 * 60) (h * 3600 + m * 60 + s) of
                      None \<Rightarrow> Undefined | Some x \<Rightarrow> Coded [x]))
      | _ \<Rightarrow> Rejected)"

definition timedate_code :: "c_env \<Rightarrow> string \<Rightarrow> field_code" where
  "timedate_code env value =
     (case scan_ints [Some (CHR ''-''), Some (CHR ''-''), Some (CHR ''T''), Some (CHR '':''), Some (CHR '':''),
                      Some (CHR ''.''), None, Some (CHR '':'')] value of
        year # mon # mday # hour # mins # sec # r \<Rightarrow>
          if year < 0 \<or> year > 2299 \<or> mon < 1 \<or> mon > 12 \<or> mday < 1 \<or> mday > 31 \<or> hour < 0 \<or> hour > 24 \<or>
             mins < 0 \<or> mins > 59 \<or> sec < 0 \<or> sec > 61 then Rejected
          else (case r of
            [] \<Rightarrow> Undefined
          | csec # zone \<Rightarrow>
              (let tzh = (case zone of [] \<Rightarrow> 0 | z # _ \<Rightarrow> z);
                   tzm = (case zone of _ # z # _ \<Rightarrow> z | _ \<Rightarrow> 0)
               in if csec > 99 \<or> tzh < -15 \<or> tzh > 15 \<or> tzm < 0 \<or> tzm > 59 then Rejected
                  else let t = mktime env [year - 1900, mon - 1, mday, hour, mins, sec, tzm * 60 + tzh * 3600]
                       in Coded [(0x8000, to_int32 (drop_bit 16 t)), (0x10000, t AND 0xffff)]))
      | _ \<Rightarrow> Rejected)"

definition magpitimedate_code :: "string \<Rightarrow> field_code" where
  "magpitimedate_code value =
     (case scan_ints [Some (CHR ''-''), Some (CHR ''-''), Some (CHR '' ''), Some (CHR '':''), Some (CHR '':'')] value of
        [year, mon, mday, hour, mins, sec] \<Rightarrow>
          if year < 0 \<or> year > 9999 \<or> mon < 1 \<or> mon > 12 \<or> mday < 1 \<or> mday > 31 \<or> hour < 0 \<or> hour > 24 \<or>
             mins < 0 \<or> mins > 59 \<or> sec < 0 \<or> sec > 61 then Rejected
          else Coded [(10000, year), (12, mon - 1), (31, mday - 1), (25, hour), (60, mins), (62, sec)]
      | _ \<Rightarrow> Rejected)"

definition date_code :: "field \<Rightarrow> string \<Rightarrow> field_code" where
  "date_code f value =
     (let slashed = scan_ints [Some (CHR ''/''), Some (CHR ''/'')] value;
          dashed = scan_ints [Some (CHR ''-''), Some (CHR ''-'')] value;
          code = (\<lambda>sep y m d.
            if y < 1 \<or> y > 9999 \<or> m < 1 \<or> m > 31 \<or> d < 1 \<or> d > 31 then Rejected
            else (case shortened 24 (precision f) (10000 * 31 * 31) (y * (31 * 31) + (m - 1) * 31 + (d - 1)) of
                    None \<Rightarrow> Undefined | Some x \<Rightarrow> Coded [(2, sep), x]))
      in case slashed of
           [y, m, d] \<Rightarrow> code 1 y m d
         | _ \<Rightarrow> (case dashed of [d, m, y] \<Rightarrow> code 0 y m d | _ \<Rightarrow> Rejected))"

definition latlong_code :: "c_env \<Rightarrow> field \<Rightarrow> string \<Rightarrow> field_code" where
  "latlong_code env f value =
     (case latlong env value of
        None \<Rightarrow> Rejected
      | Some (in_range, ilat, ilon, flat, flon) \<Rightarrow>
          if \<not> in_range then Rejected
          else if precision f = 16 then Coded [(182, ilat + 90), (361, ilon + 180)]
          else if precision f = 0 \<or> precision f = 34
          then Coded [(182 * 112000, flat + 90 * 112000), (361 * 112000, flon + 180 * 112000)]
          else Rejected)"

text \<open>The position of a value in the list of the enumeration, its length if there is none.\<close>

definition enum_position :: "field \<Rightarrow> string \<Rightarrow> nat" where
  "enum_position f value = length (takeWhile (\<lambda>v. \<not> strcasecmp_0 value v) (enum_value f))"

text \<open>The selected items of a multiple choice; \<^verbatim>\<open>1 << v\<close> is an \<^verbatim>\<open>int\<close> that is extended to 64 bits.\<close>

function multiselect_bits :: "field \<Rightarrow> string \<Rightarrow> u64 \<Rightarrow> u64" where
  "multiselect_bits f value bits =
     (if value = [] then bits
      else let item = takeWhile (\<lambda>c. c \<noteq> CHR ''|'') value;
               v = enum_position f (take 1000 item);
               bits = (if int v < enum_count f then bits OR scast (push_bit v 1 :: u32) else bits)
           in multiselect_bits f (drop (length item + 1) value) bits)"
  by pat_completeness auto
termination
  by (relation "measure (\<lambda>(f, value, bits). length value)") auto

declare multiselect_bits.simps [simp del]

definition multiselect_code :: "field \<Rightarrow> string \<Rightarrow> field_code" where
  "multiselect_code f value =
     (let bits = multiselect_bits f value 0
      in Coded_0 (map (\<lambda>i. (2, of_bool (bit bits i))) [0..<nat (enum_count f)]))"

definition enum_code :: "field \<Rightarrow> string \<Rightarrow> field_code" where
  "enum_code f value =
     (let n = int (enum_position f value)
      in if n \<ge> enum_count f then Rejected else Coded [(enum_count f, n)])"

definition text_code :: "field \<Rightarrow> string \<Rightarrow> field_code" where
  "text_code f value =
     (let len = length value
      in Texted (if precision f > 0 \<and> int len > precision f then nat (precision f) else len))"

fun hex_bytes :: "string \<Rightarrow> int list" where
  "hex_bytes (a # b # r) = parseHexByte a b # hex_bytes r"
| "hex_bytes _ = []"

text \<open>Sixteen hexadecimal digits, one character that is not looked at, and a decimal number.\<close>

definition magpiuuid_code :: "string \<Rightarrow> field_code" where
  "magpiuuid_code value =
     (if length value < 17 then Undefined
      else let timestamp = take_bit 48 (strtoll (drop 17 value))
           in Coded_0 (map (\<lambda>b. (256, b)) (hex_bytes (take 16 value)) @
                       map (\<lambda>i. (256, drop_bit (40 - 8 * i) timestamp AND 0xff)) [0..<6]))"

text \<open>The loop over the text of a UUID: the bytes found, or \<open>None\<close> when it runs over the terminating NUL after an odd digit.
  A seventeenth byte ends it; what it returns then has the wrong length.\<close>

fun uuid_bytes :: "string \<Rightarrow> int list \<Rightarrow> int list option" where
  "uuid_bytes [] acc = Some acc"
| "uuid_bytes (x # rest) acc =
     (if length acc = 16 then Some (acc @ [0])
      else if x \<noteq> CHR ''-''
      then (case rest of [] \<Rightarrow> None | y # rest' \<Rightarrow> uuid_bytes rest' (acc @ [parseHexByte x y]))
      else uuid_bytes rest acc)"

definition uuid_code :: "field \<Rightarrow> string \<Rightarrow> field_code" where
  "uuid_code f value =
     (case uuid_bytes (if strncasecmp_0 value ''uuid:'' 5 then drop 5 value else value) [] of
        None \<Rightarrow> Undefined
      | Some bs \<Rightarrow>
          if length bs \<noteq> 16 then Rejected
          else let p = (if precision f < 1 \<or> precision f > 16 then 16 else precision f)
               in Coded_0 (map (\<lambda>b. (256, b)) (take (nat p) bs)))"

text \<open>The switch over the type; a fixed-point field is treated like a boolean one, and there is no case for sub-forms.\<close>

definition value_code :: "c_env \<Rightarrow> field \<Rightarrow> string \<Rightarrow> field_code" where
  "value_code env f value =
     (let t = field_type f
      in if t = FIELDTYPE_INTEGER then integer_code f value
         else if t = FIELDTYPE_FLOAT then float_code env value
         else if t = FIELDTYPE_FIXEDPOINT \<or> t = FIELDTYPE_BOOLEAN then boolean_code value
         else if t = FIELDTYPE_TIMEOFDAY then timeofday_code f value
         else if t = FIELDTYPE_TIMEDATE then timedate_code env value
         else if t = FIELDTYPE_MAGPITIMEDATE then magpitimedate_code value
         else if t = FIELDTYPE_DATE then date_code f value
         else if t = FIELDTYPE_LATLONG then latlong_code env f value
         else if t = FIELDTYPE_MULTISELECT then multiselect_code f value
         else if t = FIELDTYPE_ENUM then enum_code f value
         else if t = FIELDTYPE_TEXT then text_code f value
         else if t = FIELDTYPE_MAGPIUUID then magpiuuid_code value
         else if t = FIELDTYPE_UUID then uuid_code f value
         else Rejected)"

section \<open>Writing\<close>

fun encode_symbols :: "(int \<times> int) list \<Rightarrow> range_coder \<Rightarrow> range_coder \<times> int" where
  "encode_symbols [] c = (c, 0)"
| "encode_symbols [(a, k)] c = range_encode_equiprobable c a k"
| "encode_symbols ((a, k) # s # ss) c = encode_symbols (s # ss) (fst (range_encode_equiprobable c a k))"

definition compress_text :: "c_env \<Rightarrow> string \<Rightarrow> nat \<Rightarrow> range_coder \<Rightarrow> (range_coder \<times> int) option" where
  "compress_text env value len c =
     compress_append_prefix (scratch env) (stats env) (unicode_pages env) (bytes_of value) len c"

definition recipe_encode_field :: "c_env \<Rightarrow> field \<Rightarrow> string \<Rightarrow> range_coder \<Rightarrow> (range_coder \<times> int) option" where
  "recipe_encode_field env f value c =
     (case value_code env f value of
        Undefined \<Rightarrow> None
      | Rejected \<Rightarrow> Some (c, -1)
      | Coded ss \<Rightarrow> Some (encode_symbols ss c)
      | Coded_0 ss \<Rightarrow> Some (fst (encode_symbols ss c), 0)
      | Escaped ss \<Rightarrow> compress_text env value (length value) (fst (encode_symbols ss c))
      | Texted len \<Rightarrow> map_option (\<lambda>(c', r). (c', if r \<noteq> 0 then -1 else 0)) (compress_text env value len c))"

section \<open>Records\<close>

text \<open>How the loop over the fields ends: with the coder, or with -1 and the coder either still there or freed.\<close>

datatype outcome = Running range_coder | Failed range_coder | Freed

definition is_subform :: "field \<Rightarrow> bool" where
  "is_subform f \<longleftrightarrow> strncasecmp_0 (field_name f) ''subform/'' 8"

definition has_formid :: "string \<Rightarrow> record_field list \<Rightarrow> bool" where
  "has_formid formid s = list_ex (\<lambda>x. case x of
     Key_value k v \<Rightarrow> strcasecmp_0 k ''formid'' \<and> strcasecmp_0 v formid | Subrecord _ \<Rightarrow> False) s"

fun lookup_key :: "string \<Rightarrow> record_field list \<Rightarrow> string option" where
  "lookup_key name [] = None"
| "lookup_key name (Key_value k v # r) = (if strcasecmp_0 k name then Some v else lookup_key name r)"
| "lookup_key name (Subrecord _ # r) = lookup_key name r"

text \<open>The loops over the fields, over the enclosures of a sub-form and over its instances. The result of an instance is not
  looked at, so a freed coder is used afterwards.\<close>

function (sequential) compress_fields ::
    "c_env \<Rightarrow> (string \<Rightarrow> recipe option) \<Rightarrow> field list \<Rightarrow> record_field list \<Rightarrow> range_coder \<Rightarrow> outcome option"
  and compress_enclosures ::
    "c_env \<Rightarrow> (string \<Rightarrow> recipe option) \<Rightarrow> recipe \<Rightarrow> string \<Rightarrow> record_field list \<Rightarrow> range_coder \<Rightarrow> range_coder option"
  and compress_instances ::
    "c_env \<Rightarrow> (string \<Rightarrow> recipe option) \<Rightarrow> recipe \<Rightarrow> record_field list \<Rightarrow> range_coder \<Rightarrow> range_coder option" where
  "compress_fields env find_recipe [] r c = Some (Running c)"
| "compress_fields env find_recipe (f # fs) r c =
     (if is_subform f
      then (let formid = drop 8 (field_name f)
            in case find_recipe formid of
                 None \<Rightarrow> Some (Failed c)
               | Some sub \<Rightarrow>
                   (case compress_enclosures env find_recipe sub formid r c of
                      None \<Rightarrow> None
                    | Some c1 \<Rightarrow> compress_fields env find_recipe fs r (fst (range_encode_equiprobable c1 2 0))))
      else (case lookup_key (field_name f) r of
              Some v \<Rightarrow>
                (case recipe_encode_field env f v (fst (range_encode_equiprobable c 2 1)) of
                   None \<Rightarrow> None
                 | Some (c1, e) \<Rightarrow> if e \<noteq> 0 then Some Freed else compress_fields env find_recipe fs r c1)
            | None \<Rightarrow> compress_fields env find_recipe fs r (fst (range_encode_equiprobable c 2 0))))"
| "compress_enclosures env find_recipe sub formid [] c = Some c"
| "compress_enclosures env find_recipe sub formid (Key_value k v # r) c = compress_enclosures env find_recipe sub formid r c"
| "compress_enclosures env find_recipe sub formid (Subrecord s # r) c =
     (if has_formid formid s
      then (case compress_instances env find_recipe sub s c of
              None \<Rightarrow> None | Some c1 \<Rightarrow> compress_enclosures env find_recipe sub formid r c1)
      else compress_enclosures env find_recipe sub formid r c)"
| "compress_instances env find_recipe sub [] c = Some c"
| "compress_instances env find_recipe sub (Key_value k v # r) c = compress_instances env find_recipe sub r c"
| "compress_instances env find_recipe sub (Subrecord s # r) c =
     (case compress_fields env find_recipe (field_list sub) s (fst (range_encode_equiprobable c 2 1)) of
        Some (Running c1) \<Rightarrow> compress_instances env find_recipe sub r c1
      | Some (Failed c1) \<Rightarrow> compress_instances env find_recipe sub r c1
      | _ \<Rightarrow> None)"
  by pat_completeness auto
termination
  by (relation "measures [\<lambda>x. case x of
       Inl (env, find_recipe, fs, r, c) \<Rightarrow> size_list size r
     | Inr (Inl (env, find_recipe, sub, formid, r, c)) \<Rightarrow> size_list size r
     | Inr (Inr (env, find_recipe, sub, r, c)) \<Rightarrow> size_list size r,
     \<lambda>x. case x of Inl (env, find_recipe, fs, r, c) \<Rightarrow> Suc (length fs) | _ \<Rightarrow> 0]") auto

definition compress_record_with_subforms ::
    "c_env \<Rightarrow> (string \<Rightarrow> recipe option) \<Rightarrow> recipe \<Rightarrow> record_field list \<Rightarrow> range_coder \<Rightarrow> outcome option" where
  "compress_record_with_subforms env find_recipe r rec c = compress_fields env find_recipe (field_list r) rec c"

text \<open>A freed coder is freed a second time: undefined. The result of \<^verbatim>\<open>range_conclude\<close> is not looked at.\<close>

definition recipe_compress ::
    "c_env \<Rightarrow> (string \<Rightarrow> recipe option) \<Rightarrow> recipe \<Rightarrow> string \<Rightarrow> nat \<Rightarrow> (int + u8 list) option" where
  "recipe_compress env find_recipe r inp out_size =
     (let c = range_new_coder (scratch env) 1024;
          c = fst (encode_symbols (map (\<lambda>b. (256, uint b)) (formhash r)) c)
      in case parse_stripped_with_subforms inp of
           Inl _ \<Rightarrow> Some (Inl (-1))
         | Inr rec \<Rightarrow>
             (case compress_record_with_subforms env find_recipe r rec c of
                None \<Rightarrow> None
              | Some Freed \<Rightarrow> None
              | Some (Failed _) \<Rightarrow> Some (Inl (-1))
              | Some (Running c1) \<Rightarrow>
                  (let c2 = fst (range_conclude c1);
                       bytes = bits_used c2 div 8 + (if bits_used c2 AND 7 \<noteq> 0 then 1 else 0)
                   in if bytes > out_size then Some (Inl (-1)) else Some (Inr (take bytes (bit_stream c2))))))"

end
