(* ===== verification/Capacity.thy ===== *)
theory Capacity
  imports CoderProps
begin

text \<open>
  How much room encoding takes: every doubling of the interval writes or defers one bit, and the interval of a symbol can be
  doubled at most 32 times, so a symbol of a table takes at most 32 bits and an equiprobable symbol at most 64. A sequence
  of symbols therefore always fits a buffer of proportional size.
\<close>

section \<open>Doublings\<close>

definition width :: "range_coder \<Rightarrow> nat" where
  "width c = unat (high c) + 1 - unat (low c)"

text \<open>Enough room for the doublings that are still possible, \<open>m\<close> at most.\<close>

definition spare :: "nat \<Rightarrow> range_coder \<Rightarrow> bool" where
  "spare m c \<longleftrightarrow> 4294967296 \<le> width c * 2 ^ m \<and> enc_pos c + m < bit_stream_length c"

lemma stable_step_length:
  "range_emit_stable_step c = (c', 0) \<Longrightarrow> \<not> decodingP c \<Longrightarrow> bit_stream_length c' = bit_stream_length c"
  using buf_kept_stable_step [of c] by (simp add: buf_kept_def)

lemma width_shift:
  assumes "low c < high c" "\<not> bit (low c XOR high c) 31"
    and "low c' = push_bit 1 (low c)" "high c' = push_bit 1 (high c) OR 1"
  shows "width c' = 2 * width c" "width c \<le> 2147483648"
proof -
  note top = iffD1 [OF same_top_bit_iff assms(2)]
  have lt: "unat (low c) < unat (high c)" using assms(1) by (simp add: word_less_nat_alt)
  show "width c' = 2 * width c"
    unfolding width_def assms(3,4) unat_shift_out unat_shift_out_1 using top lt by auto
  show "width c \<le> 2147483648"
    unfolding width_def using top lt unat_lt_32 [of "high c"] by (cases "2147483648 \<le> unat (low c)") linarith+
qed

lemma stable_loop_spare:
  assumes "enc_core c" "low c < high c" "spare m c"
  shows "\<exists>c' m'. range_emit_stable_loop c = (c', 0) \<and> enc_core c' \<and> spare m' c' \<and> enc_pos c' + m' = enc_pos c + m \<and>
     bit_stream_length c' = bit_stream_length c \<and> unat (low c') < 2147483648 \<and> 2147483648 \<le> unat (high c')"
  using assms
proof (induction c arbitrary: m rule: range_emit_stable_loop.induct)
  case (1 c)
  show ?case
  proof (cases "bit (low c XOR high c) 31")
    case True
    with "1.prems" top_bits_apart [OF "1.prems"(2) True] show ?thesis
      by (subst range_emit_stable_loop.simps) auto
  next
    case False
    have "room c" using "1.prems"(3) by (auto simp: spare_def room_def)
    from enc_stable_step_ok [OF "1.prems"(1) False this] obtain c' where
      c': "range_emit_stable_step c = (c', 0)" "enc_core c'" "enc_pos c' = Suc (enc_pos c)"
      "low c' = push_bit 1 (low c)" "high c' = push_bit 1 (high c) OR 1" by blast
    note w = width_shift [OF "1.prems"(2) False c'(4,5)]
    have len: "bit_stream_length c' = bit_stream_length c"
      using stable_step_length [OF c'(1)] "1.prems"(1) by (simp add: enc_core_def)
    have "m \<noteq> 0" using "1.prems"(3) w(2) by (intro notI) (simp add: spare_def)
    then obtain n where n: "m = Suc n" by (cases m) auto
    have "spare n c'" using "1.prems"(3) w(1) len c'(3) by (simp add: spare_def n)
    moreover have "low c' < high c'" using shift_keeps_order [OF "1.prems"(2) False] by (simp only: c'(4,5))
    moreover have "range_emit_stable_loop c = range_emit_stable_loop c'"
      using False c'(1) by (subst range_emit_stable_loop.simps) simp
    ultimately show ?thesis using "1.IH" [OF False c'(1) [symmetric]] c'(2,3) len n by fastforce
  qed
qed

lemma rescale_spare:
  assumes "enc_core c" "unat (low c) < 2147483648" "2147483648 \<le> unat (high c)" "spare m c"
  shows "\<exists>c' m'. range_rescale c = (c', 0) \<and> enc_core c' \<and> normalised (low c') (high c') \<and> spare m' c' \<and>
     enc_pos c' + m' = enc_pos c + m \<and> bit_stream_length c' = bit_stream_length c"
  using assms
proof (induction c arbitrary: m rule: range_rescale.induct)
  case (1 c)
  show ?case
  proof (cases "underflow_position c")
    case False
    with "1.prems" show ?thesis
      by (subst range_rescale.simps) (auto simp: normalised_def underflow_position_iff)
  next
    case True
    from enc_rescale_step_ok [OF "1.prems"(1) True] obtain c' where
      c': "range_rescale_step c = (c', 0)" "enc_core c'" "enc_pos c' = Suc (enc_pos c)" by blast
    note r = range_rescale_step_range [OF c'(1) True]
    have b: "unat (low c') < 2147483648" "2147483648 \<le> unat (high c')" and w: "width c' = 2 * width c" "width c \<le> 2147483648"
      using r True by (auto simp: underflow_position_iff width_def)
    have len: "bit_stream_length c' = bit_stream_length c"
      using c'(1) "1.prems"(1) by (auto simp: range_rescale_step_def Let_def enc_core_def split: if_splits)
    have "m \<noteq> 0" using "1.prems"(4) w(2) by (intro notI) (simp add: spare_def)
    then obtain n where n: "m = Suc n" by (cases m) auto
    have "spare n c'" using "1.prems"(4) w(1) len c'(3) by (simp add: spare_def n)
    moreover have "range_rescale c = range_rescale c'"
      using True c'(1) by (subst range_rescale.simps) simp
    ultimately show ?thesis using "1.IH" [OF True c'(1) [symmetric]] b c'(2,3) len n by fastforce
  qed
qed

section \<open>The cost of a symbol\<close>

lemma range_encode_cost:
  assumes inv: "enc_inv c" and ok: "sym_ok p q" and fits: "enc_pos c + 32 < bit_stream_length c"
  shows "\<exists>c'. range_encode c p q = (c', 0) \<and> enc_inv c' \<and> enc_pos c' \<le> enc_pos c + 32 \<and> bit_stream_length c' = bit_stream_length c"
proof -
  have n: "normalised (low c) (high c)" and dec: "\<not> decodingP c" using inv by (auto simp: enc_inv_def enc_core_def)
  let ?n = "narrow c p q"
  have core: "enc_core ?n" and lt: "low ?n < high ?n"
    using inv narrow_bounds [OF n ok] by (auto simp: enc_inv_def enc_core_def narrow_def wf_buf_def)
  have same: "enc_pos ?n = enc_pos c" "bit_stream_length ?n = bit_stream_length c" by (simp_all add: narrow_def enc_pos_def)
  have "spare 32 ?n" using lt fits same by (simp add: spare_def width_def word_less_nat_alt)
  from stable_loop_spare [OF core lt this] obtain c1 m1 where c1: "range_emit_stable_loop ?n = (c1, 0)" "enc_core c1" "spare m1 c1"
    "enc_pos c1 + m1 = enc_pos c + 32" "bit_stream_length c1 = bit_stream_length c" "unat (low c1) < 2147483648" "2147483648 \<le> unat (high c1)"
    using same by auto
  from rescale_spare [OF c1(2,6,7,3)] obtain c2 m2 where c2: "range_rescale c1 = (c2, 0)" "enc_core c2" "normalised (low c2) (high c2)"
    "enc_pos c2 + m2 = enc_pos c + 32" "bit_stream_length c2 = bit_stream_length c" using c1(4,5) by auto
  have "range_emit_stable_bits ?n = (c2, 0)"
    using c1(1,2) c2(1) by (simp add: range_emit_stable_bits_def enc_core_def)
  with range_encode_narrow [OF n ok dec] have "range_encode c p q = (c2, 0)" by (metis fst_conv prod.collapse snd_conv)
  with c2 show ?thesis by (auto simp: enc_inv_def)
qed

text \<open>Encoders that succeed whenever \<open>n\<close> bits are left, and use no more.\<close>

definition costs :: "(range_coder \<Rightarrow> range_coder \<times> int) \<Rightarrow> nat \<Rightarrow> bool" where
  "costs enc n \<longleftrightarrow> (\<forall>c. enc_inv c \<and> enc_pos c + n < bit_stream_length c \<longrightarrow>
     (\<exists>c'. enc c = (c', 0) \<and> enc_inv c' \<and> enc_pos c' \<le> enc_pos c + n \<and> bit_stream_length c' = bit_stream_length c))"

lemma costs_mono: "costs enc n \<Longrightarrow> n \<le> m \<Longrightarrow> costs enc m"
  unfolding costs_def by (meson add_le_cancel_left le_trans less_le_trans not_less)

lemma costs_seq:
  assumes "costs enc1 n" "costs enc2 m"
  shows "costs (\<lambda>c. enc2 (fst (enc1 c))) (n + m)"
  unfolding costs_def
proof (intro allI impI)
  fix c assume c: "enc_inv c \<and> enc_pos c + (n + m) < bit_stream_length c"
  then have "enc_inv c \<and> enc_pos c + n < bit_stream_length c" by simp
  then obtain c1 where c1: "enc1 c = (c1, 0)" "enc_inv c1" "enc_pos c1 \<le> enc_pos c + n" "bit_stream_length c1 = bit_stream_length c"
    using assms(1) unfolding costs_def by blast
  with c have "enc_inv c1 \<and> enc_pos c1 + m < bit_stream_length c1" by simp
  then obtain c2 where "enc2 c1 = (c2, 0)" "enc_inv c2" "enc_pos c2 \<le> enc_pos c1 + m" "bit_stream_length c2 = bit_stream_length c1"
    using assms(2) unfolding costs_def by blast
  with c1 show "\<exists>c'. enc2 (fst (enc1 c)) = (c', 0) \<and> enc_inv c' \<and> enc_pos c' \<le> enc_pos c + (n + m) \<and>
      bit_stream_length c' = bit_stream_length c" by auto
qed

lemma costs_cong:
  assumes "costs enc n" "\<And>c c'. enc_inv c \<Longrightarrow> enc_pos c + n < bit_stream_length c \<Longrightarrow> enc c = (c', 0) \<Longrightarrow> enc' c = (c', 0)"
  shows "costs enc' n"
  unfolding costs_def
proof (intro allI impI)
  fix c assume c: "enc_inv c \<and> enc_pos c + n < bit_stream_length c"
  then obtain c' where "enc c = (c', 0)" "enc_inv c'" "enc_pos c' \<le> enc_pos c + n" "bit_stream_length c' = bit_stream_length c"
    using assms(1) unfolding costs_def by blast
  with assms(2) c show "\<exists>c'. enc' c = (c', 0) \<and> enc_inv c' \<and> enc_pos c' \<le> enc_pos c + n \<and>
      bit_stream_length c' = bit_stream_length c" by blast
qed

lemma costs_range_encode: "sym_ok p q \<Longrightarrow> costs (\<lambda>c. range_encode c p q) 32"
  unfolding costs_def using range_encode_cost by blast

lemma costs_equiprobable_small:
  assumes "0 \<le> k" "k < A" "A < 4194304"
  shows "costs (\<lambda>c. range_encode_equiprobable c A k) 32"
proof -
  obtain p q where pq: "range_equiprobable_range A k = (p, q)" by fastforce
  have "range_encode_equiprobable c A k = range_encode c p q" for c
    using assms pq by (subst range_encode_equiprobable.simps) simp
  then show ?thesis using costs_range_encode [OF sym_ok_equiprobable(1) [OF assms pq]] by simp
qed

lemma costs_equiprobable:
  assumes k: "0 \<le> k" "k < A" "A < 2 ^ 31"
  shows "costs (\<lambda>c. range_encode_equiprobable c A k) 64"
proof (cases "A < 4194304")
  case True
  from costs_mono [OF costs_equiprobable_small [OF k(1,2) True]] show ?thesis by simp
next
  case False
  let ?h = "1 + A div 65536"
  have h: "0 \<le> k div 65536" "k div 65536 < ?h" "?h < 4194304" "0 \<le> k mod 65536" "k mod 65536 < 65536"
    using k zdiv_mono1 [of k A 65536] by simp_all
  let ?both = "\<lambda>c. range_encode_equiprobable (fst (range_encode_equiprobable c ?h (k div 65536))) 65536 (k mod 65536)"
  have "(65536 :: int) < 4194304" by simp
  from costs_seq [OF costs_equiprobable_small [OF h(1-3)] costs_equiprobable_small [OF h(4,5) this]]
  have both: "costs ?both 64" by simp
  have "c_div k 65536 = k div 65536" "k AND 65535 = k mod 65536" using k by (simp_all add: and_ffff)
  then have halves: "range_encode_equiprobable c A k = (fst (?both c), 0)" for c
    using False by (subst range_encode_equiprobable.simps) (simp add: Let_def)
  show ?thesis by (rule costs_cong [OF both]) (simp only: halves fst_conv)
qed

lemma costs_conclude:
  assumes "costs enc n" "enc_inv c" "enc_pos c + n + 32 < bit_stream_length c"
  shows "\<exists>c1 c2. enc c = (c1, 0) \<and> range_conclude c1 = (c2, 0) \<and> bits_used c2 \<le> enc_pos c + n + 32"
proof -
  obtain c1 where c1: "enc c = (c1, 0)" "enc_inv c1" "enc_pos c1 \<le> enc_pos c + n" "bit_stream_length c1 = bit_stream_length c"
    using assms unfolding costs_def by (metis add_lessD1)
  with range_conclude_total [OF c1(2)] assms(3) show ?thesis by fastforce
qed

section \<open>Sequences of symbols\<close>

text \<open>Symbols \<open>(alphabet size, symbol)\<close> written one after another; the first failure ends the run.\<close>

fun write_symbols :: "(int \<times> int) list \<Rightarrow> range_coder \<Rightarrow> range_coder \<times> int" where
  "write_symbols [] c = (c, 0)"
| "write_symbols ((a, k) # ss) c =
     (let (c1, r) = range_encode_equiprobable c a k in if r \<noteq> 0 then (c1, r) else write_symbols ss c1)"

lemma costs_write_symbols:
  "\<forall>(a, k) \<in> set ss. 0 \<le> k \<and> k < a \<and> a < 2 ^ 31 \<Longrightarrow> costs (write_symbols ss) (64 * length ss)"
proof (induction ss)
  case Nil
  then show ?case by (simp add: costs_def)
next
  case (Cons s ss)
  obtain a k where s: "s = (a, k)" by fastforce
  have one: "costs (\<lambda>c. range_encode_equiprobable c a k) 64"
    using Cons.prems s by (intro costs_equiprobable) auto
  have rest: "costs (write_symbols ss) (64 * length ss)" using Cons by auto
  have "write_symbols (s # ss) c = write_symbols ss (fst (range_encode_equiprobable c a k))"
    if room: "enc_inv c" "enc_pos c + 64 < bit_stream_length c" for c
  proof -
    obtain c' where "range_encode_equiprobable c a k = (c', 0)" using one room unfolding costs_def by blast
    then show ?thesis by (simp add: s)
  qed
  then have "costs (write_symbols (s # ss)) (64 + 64 * length ss)"
    by (intro costs_cong [OF costs_seq [OF one rest]]) auto
  then show ?case by simp
qed

text \<open>(C24) Room: any sequence of equiprobable symbols, each below its alphabet size, is written without an error into a new
  coder with 64 bits per symbol and 33 bits to spare, and the stream can then be ended within the buffer.\<close>

theorem symbols_always_fit:
  assumes "\<forall>(a, k) \<in> set ss. 0 \<le> k \<and> k < a \<and> a < 2 ^ 31" "8 * bytes < 2 ^ 31" "64 * length ss + 33 \<le> 8 * bytes"
  shows "\<exists>c1 c2. write_symbols ss (range_new_coder junk bytes) = (c1, 0) \<and> range_conclude c1 = (c2, 0) \<and>
    bits_used c2 \<le> 64 * length ss + 32"
proof -
  let ?c = "range_new_coder junk bytes"
  have "enc_pos ?c = 0" "bit_stream_length ?c = 8 * bytes" 
    by (simp_all add: range_new_coder_def range_coder_reset_def enc_pos_def)
  with costs_conclude [OF costs_write_symbols [OF assms(1)] range_new_coder_inv [OF assms(2)], of junk] assms(3)
  show ?thesis by simp
qed

theorem symbols_always_fit_witness:
  "\<exists>c1 c2. write_symbols [(10, 3), (2000000000, 1999999999)] (range_new_coder (\<lambda>_. 7) 32) = (c1, 0) \<and>
    range_conclude c1 = (c2, 0) \<and> bits_used c2 \<le> 160"
  using symbols_always_fit [of "[(10, 3), (2000000000, 1999999999)]" 32 "\<lambda>_. 7"] by simp

end
