(* ===== verification/RecipeCodec.thy ===== *)
theory RecipeCodec
  imports RecipeCompress TextProps Capacity
begin

text \<open>
  What the field encoder of \<^verbatim>\<open>forms/recipe_compress.c\<close> writes can be read back: the alphabets of the symbols depend on the
  field definition alone, every symbol lies in its alphabet, and a reader that knows the recipe recovers from
  the bytes of a compressed form its hash and, field by field, whether it is present and with which symbols or
  text. The program's own decompressor is not among the sources; the reader here is the specification of one.
\<close>

section \<open>Sequences of equiprobable symbols\<close>

fun decode_symbols :: "int list \<Rightarrow> range_coder \<Rightarrow> range_coder \<times> int list" where
  "decode_symbols [] d = (d, [])"
| "decode_symbols (a # as) d =
     (let (d1, k) = range_decode_equiprobable d a; (d2, ks) = decode_symbols as d1 in (d2, k # ks))"

definition in_alphabet :: "int \<times> int \<Rightarrow> bool" where
  "in_alphabet s \<longleftrightarrow> 0 \<le> snd s \<and> snd s < fst s \<and> fst s < 2 ^ 31"

lemma codec_encode_symbols:
  "\<forall>s \<in> set ss. in_alphabet s \<Longrightarrow>
     rc.codec (\<lambda>c. Some (encode_symbols ss c)) (\<lambda>d. Some (decode_symbols (map fst ss) d)) (map snd ss)"
proof (induction ss)
  case Nil
  have "(\<lambda>d. Some (decode_symbols (map fst []) d)) = (\<lambda>d. Some (d, []))" by auto
  then show ?case using rc.codec_return by simp
next
  case (Cons s ss)
  obtain a k where s: "s = (a, k)" by fastforce
  have one: "rc.codec (\<lambda>c. Some (range_encode_equiprobable c a k)) (\<lambda>d. Some (range_decode_equiprobable d a)) k"
    using Cons.prems s by (intro codec_equiprobable) (auto simp: in_alphabet_def)
  show ?case
  proof (cases ss)
    case Nil
    with rc.codec_value_map [OF one, of "\<lambda>k. [k]"] show ?thesis
      by (simp add: s case_prod_unfold Let_def)
  next
    case (Cons t ts)
    define dec2 where "dec2 = (\<lambda>k' d. map_option (\<lambda>(d', v). (d', k' # v)) (Some (decode_symbols (map fst ss) d)))"
    have "rc.codec (\<lambda>c. Some (encode_symbols ss c)) (dec2 k) (k # map snd ss)"
      unfolding dec2_def using Cons.IH Cons.prems by (intro rc.codec_value_map) auto
    from rc.codec_seq [OF one, where ?dec2.0 = dec2, OF this]
    have "rc.codec (\<lambda>c. Option.bind (Some (range_encode_equiprobable c a k)) (\<lambda>(c1, r). Some (encode_symbols ss c1)))
      (\<lambda>d. Option.bind (Some (range_decode_equiprobable d a)) (\<lambda>(d', x). dec2 x d')) (map snd (s # ss))" by (simp add: s)
    then show ?thesis
      by (rule rc.codec_enc_dec_cong) (simp_all add: s Cons dec2_def case_prod_unfold Let_def)
  qed
qed

section \<open>The alphabets of a field\<close>

definition shortened_size :: "int \<Rightarrow> int \<Rightarrow> int \<Rightarrow> int" where
  "shortened_size full p maxi = (case shortened full p maxi 0 of None \<Rightarrow> 0 | Some (a, _) \<Rightarrow> a)"

definition field_alphabets :: "field \<Rightarrow> int list" where
  "field_alphabets f =
     (let t = field_type f
      in if t = FIELDTYPE_INTEGER then [maximum f - minimum f + 2]
         else if t = FIELDTYPE_FLOAT then [2, 256, 256, 256, 256]
         else if t = FIELDTYPE_FIXEDPOINT \<or> t = FIELDTYPE_BOOLEAN then [2]
         else if t = FIELDTYPE_TIMEOFDAY then [shortened_size 17 (precision f) 86400]
         else if t = FIELDTYPE_TIMEDATE then [0x8000, 0x10000]
         else if t = FIELDTYPE_MAGPITIMEDATE then [10000, 12, 31, 25, 60, 62]
         else if t = FIELDTYPE_DATE then [2, shortened_size 24 (precision f) 9610000]
         else if t = FIELDTYPE_LATLONG then if precision f = 16 then [182, 361] else [20384000, 40432000]
         else if t = FIELDTYPE_MULTISELECT then replicate (nat (enum_count f)) 2
         else if t = FIELDTYPE_ENUM then [enum_count f]
         else if t = FIELDTYPE_MAGPIUUID then replicate 14 256
         else if t = FIELDTYPE_UUID then replicate (if precision f < 1 \<or> precision f > 16 then 16 else nat (precision f)) 256
         else [])"

text \<open>What is relied on of the platform: calendar times from 1970 to 2038, and rounded coordinates inside the limits that
  were checked before rounding.\<close>

definition env_ok :: "c_env \<Rightarrow> bool" where
  "env_ok env \<longleftrightarrow> (\<forall>tm. 0 \<le> mktime env tm \<and> mktime env tm < 2 ^ 31) \<and>
     (\<forall>v ilat ilon flat flon. latlong env v = Some (True, ilat, ilon, flat, flon) \<longrightarrow>
        - 90 \<le> ilat \<and> ilat \<le> 90 \<and> - 180 \<le> ilon \<and> ilon \<le> 180 \<and>
        - 10080000 \<le> flat \<and> flat \<le> 10080000 \<and> - 20160000 \<le> flon \<and> flon \<le> 20160000)"

lemma shortened_in_alphabet:
  assumes "shortened full p maxi n = Some x" "0 \<le> n" "n \<le> maxi" "maxi < 2 ^ 30"
  shows "in_alphabet x \<and> fst x = shortened_size full p maxi"
proof -
  have le: "drop_bit k n \<le> drop_bit k maxi" "0 \<le> drop_bit k n" "drop_bit k maxi \<le> maxi" for k
    using assms(2,3) zdiv_mono2 [of maxi 1 "2 ^ k"] by (simp_all add: drop_bit_eq_div zdiv_mono1 pos_imp_zdiv_nonneg_iff)
  have "in_alphabet (2 + drop_bit k maxi, drop_bit k n)" for k
    using le [of k] assms(4) by (simp add: in_alphabet_def)
  moreover have "in_alphabet (maxi + 1, n)" using assms(2-4) by (simp add: in_alphabet_def)
  ultimately show ?thesis
    using assms(1) by (auto simp: shortened_def shortened_size_def Let_def split: if_splits)
qed

lemma byte_in_alphabet: "in_alphabet (256, x AND 0xff)"
proof -
  have "x AND 0xff = x mod 256" using take_bit_eq_mask [of 8 x] by (simp add: take_bit_eq_mod mask_eq_exp_minus_1)
  then show ?thesis by (simp add: in_alphabet_def)
qed

lemma parseHexDigit_range: "0 \<le> parseHexDigit c \<and> parseHexDigit c < 16"
  by (auto simp: parseHexDigit_def Let_def)

lemma parseHexByte_range: "in_alphabet (256, parseHexByte a b)"
proof -
  have "0 \<le> push_bit 4 (parseHexDigit a)" "push_bit 4 (parseHexDigit a) < 2 ^ 8" "0 \<le> parseHexDigit b" "parseHexDigit b < 2 ^ 8"
    using parseHexDigit_range [of a] parseHexDigit_range [of b] by (simp_all add: push_bit_eq_mult)
  from OR_upper [OF this(1,2,4)] this(1,3) show ?thesis
    by (simp add: parseHexByte_def in_alphabet_def)
qed

lemma hex_bytes_range: "\<forall>b \<in> set (hex_bytes s). in_alphabet (256, b)"
  by (induction s rule: hex_bytes.induct) (auto simp: parseHexByte_range)

lemma length_hex_bytes: "length (hex_bytes s) = length s div 2"
  by (induction s rule: hex_bytes.induct) auto

lemma uuid_bytes_range:
  "uuid_bytes s acc = Some bs \<Longrightarrow> \<forall>b \<in> set acc. in_alphabet (256, b) \<Longrightarrow> \<forall>b \<in> set bs. in_alphabet (256, b)"
proof (induction s acc rule: uuid_bytes.induct)
  case (2 x rest acc)
  have z: "in_alphabet (256, 0)" by (simp add: in_alphabet_def)
  show ?case
  proof (cases "length acc = 16")
    case True
    then have "bs = acc @ [0]" using 2(3) by simp
    with 2(4) z show ?thesis by simp
  next
    case False
    show ?thesis
    proof (cases "x = CHR ''-''")
      case True
      with False 2(2-4) show ?thesis by simp
    next
      case x: False
      obtain y rest' where "rest = y # rest'" using False x 2(3) by (cases rest) simp_all
      with False x 2(1) [OF False x] 2(3,4) parseHexByte_range [of x y] show ?thesis by simp
    qed
  qed
qed simp

section \<open>Every symbol lies in its alphabet\<close>

lemma timeofday_fits:
  assumes "timeofday_code f v = Coded ss" 
  shows "(\<forall>s \<in> set ss. in_alphabet s) \<and> map fst ss = [shortened_size 17 (precision f) 86400]"
  using assms shortened_in_alphabet [of 17 "precision f" 86400]
  by (auto simp: timeofday_code_def split: list.splits if_splits option.splits)

lemma magpitimedate_fits:
  assumes "magpitimedate_code v = Coded ss"
  shows "(\<forall>s \<in> set ss. in_alphabet s) \<and> map fst ss = [10000, 12, 31, 25, 60, 62]"
  using assms by (auto simp: magpitimedate_code_def in_alphabet_def split: list.splits if_splits)

lemma timedate_fits:
  assumes "timedate_code env v = Coded ss" "env_ok env"
  shows "(\<forall>s \<in> set ss. in_alphabet s) \<and> map fst ss = [0x8000, 0x10000]"
proof -
  have "in_alphabet (0x8000, to_int32 (drop_bit 16 t)) \<and> in_alphabet (0x10000, t AND 0xffff)" if "0 \<le> t" "t < 2 ^ 31" for t
  proof -
    define q where "q = drop_bit 16 t"
    have q: "0 \<le> q" "q < 0x8000" using that
      by (simp_all add: q_def drop_bit_eq_div pos_imp_zdiv_nonneg_iff div_less_iff_less_mult)
    then have "to_int32 q = q" by (intro to_int32_id) simp_all
    moreover have "t AND 0xffff = t mod 0x10000" by (simp add: and_ffff)
    ultimately show ?thesis unfolding q_def [symmetric] using q by (simp add: in_alphabet_def)
  qed
  with assms show ?thesis
    by (auto simp: timedate_code_def env_ok_def Let_def split: list.splits if_splits)
qed

lemma date_fits:
  assumes "date_code f v = Coded ss"
  shows "(\<forall>s \<in> set ss. in_alphabet s) \<and> map fst ss = [2, shortened_size 24 (precision f) 9610000]"
proof -
  have "in_alphabet x \<and> fst x = shortened_size 24 (precision f) 9610000"
    if "shortened 24 (precision f) 9610000 (y * 961 + (m - 1) * 31 + (d - 1)) = Some x"
      "1 \<le> y" "y \<le> 9999" "1 \<le> m" "m \<le> 31" "1 \<le> d" "d \<le> 31" for x y m d
    using that by (intro shortened_in_alphabet [OF that(1)]) auto
  moreover have "in_alphabet (2, 0)" "in_alphabet (2, 1)" by (simp_all add: in_alphabet_def)
  ultimately show ?thesis using assms
    by (auto simp: date_code_def Let_def split: list.splits if_splits option.splits)
qed

lemma latlong_fits:
  assumes "latlong_code env f v = Coded ss" "env_ok env"
  shows "(\<forall>s \<in> set ss. in_alphabet s) \<and> map fst ss = (if precision f = 16 then [182, 361] else [20384000, 40432000])"
proof -
  obtain ilat ilon flat flon where l: "latlong env v = Some (True, ilat, ilon, flat, flon)"
    using assms(1) by (auto simp: latlong_code_def split: option.splits if_splits)
  then have "- 90 \<le> ilat \<and> ilat \<le> 90 \<and> - 180 \<le> ilon \<and> ilon \<le> 180 \<and>
        - 10080000 \<le> flat \<and> flat \<le> 10080000 \<and> - 20160000 \<le> flon \<and> flon \<le> 20160000"
    using assms(2) unfolding env_ok_def by blast
  with assms(1) l show ?thesis by (auto simp: latlong_code_def in_alphabet_def split: if_splits)
qed

lemma float_fits:
  assumes "float_code env v = Coded ss"
  shows "(\<forall>s \<in> set ss. in_alphabet s) \<and> map fst ss = [2, 256, 256, 256, 256]"
proof -
  obtain neg e m where p: "float_parts env v = (neg, e, m)" by (metis prod_cases3)
  define e' where "e' = (let e = (if e < -127 then -127 else e) in if e > 127 then 127 else e)"
  have "in_alphabet (256, e' + 128)" "in_alphabet (2, if neg then 1 else 0)" by (auto simp: e'_def in_alphabet_def Let_def)
  moreover have "ss = [(2, if neg then 1 else 0), (256, e' + 128), (256, drop_bit 16 m AND 0xff),
                (256, drop_bit 8 m AND 0xff), (256, m AND 0xff)]"
    using assms by (simp add: float_code_def p e'_def Let_def)
  ultimately show ?thesis using byte_in_alphabet by simp
qed

lemma multiselect_fits:
  assumes "multiselect_code f v = Coded_0 ss"
  shows "(\<forall>s \<in> set ss. in_alphabet s) \<and> map fst ss = replicate (nat (enum_count f)) 2"
  using assms by (auto simp: multiselect_code_def in_alphabet_def Let_def comp_def map_replicate_const)

lemma enum_fits:
  assumes "enum_code f v = Coded ss" "enum_count f \<le> 32"
  shows "(\<forall>s \<in> set ss. in_alphabet s) \<and> map fst ss = [enum_count f]"
  using assms by (auto simp: enum_code_def in_alphabet_def Let_def split: if_splits)

lemma magpiuuid_fits:
  assumes "magpiuuid_code v = Coded_0 ss"
  shows "(\<forall>s \<in> set ss. in_alphabet s) \<and> map fst ss = replicate 14 256"
proof -
  have len: "\<not> length v < 17" using assms by (auto simp: magpiuuid_code_def)
  define t where "t = take_bit 48 (strtoll (drop 17 v))"
  have ss: "ss = map (\<lambda>b. (256, b)) (hex_bytes (take 16 v)) @ map (\<lambda>i. (256, drop_bit (40 - 8 * i) t AND 0xff)) [0..<6]"
    using assms len by (simp add: magpiuuid_code_def t_def Let_def)
  have "length (hex_bytes (take 16 v)) = 8" using len by (simp add: length_hex_bytes)
  then have "map fst ss = replicate 14 256" by (simp add: ss comp_def map_replicate_const replicate_add [symmetric])
  moreover have "\<forall>s \<in> set ss. in_alphabet s"
    using hex_bytes_range [of "take 16 v"] byte_in_alphabet by (auto simp: ss)
  ultimately show ?thesis by blast
qed

lemma uuid_fits:
  assumes "uuid_code f v = Coded_0 ss"
  shows "(\<forall>s \<in> set ss. in_alphabet s) \<and>
    map fst ss = replicate (if precision f < 1 \<or> precision f > 16 then 16 else nat (precision f)) 256"
proof -
  obtain bs where bs: "uuid_bytes (if strncasecmp_0 v ''uuid:'' 5 then drop 5 v else v) [] = Some bs" "length bs = 16"
    "ss = map (\<lambda>b. (256, b)) (take (nat (if precision f < 1 \<or> precision f > 16 then 16 else precision f)) bs)"
    using assms by (auto simp: uuid_code_def Let_def split: option.splits if_splits)
  have "\<forall>b \<in> set bs. in_alphabet (256, b)" using uuid_bytes_range [OF bs(1)] by simp
  then have "\<forall>s \<in> set ss. in_alphabet s" by (auto simp: bs(3) dest: in_set_takeD)
  moreover have "map fst ss = replicate (if precision f < 1 \<or> precision f > 16 then 16 else nat (precision f)) 256"
    using bs(2) by (auto simp: bs(3) comp_def map_replicate_const)
  ultimately show ?thesis by blast
qed

text \<open>Symbols of any field: in range, with alphabets that depend on the definition of the field only.\<close>

definition fits :: "(int \<times> int) list \<Rightarrow> int list \<Rightarrow> bool" where
  "fits ss as \<longleftrightarrow> (\<forall>s \<in> set ss. in_alphabet s) \<and> map fst ss = as"

lemmas code_fits = float_fits [folded fits_def] timeofday_fits [folded fits_def] timedate_fits [folded fits_def]
  magpitimedate_fits [folded fits_def] date_fits [folded fits_def] latlong_fits [folded fits_def]
  multiselect_fits [folded fits_def] enum_fits [folded fits_def] magpiuuid_fits [folded fits_def] uuid_fits [folded fits_def]

lemma symbols_fit:
  assumes "env_ok env" "field_wf f" "value_code env f v = Coded ss \<or> value_code env f v = Coded_0 ss"
  shows "fits ss (field_alphabets f)"
proof -
  have simple: "boolean_code v = Coded ss \<Longrightarrow> fits ss [2]"
    "integer_code f v = Coded ss \<Longrightarrow> fits ss [maximum f - minimum f + 2]"
    by (auto simp: fits_def boolean_code_def in_alphabet_def recipe_parse_boolean_def integer_code_def int32_def Let_def
        split: if_splits)
  have never: "boolean_code v \<noteq> Coded_0 ss" "integer_code f v \<noteq> Coded_0 ss" "float_code env v \<noteq> Coded_0 ss"
    "timeofday_code f v \<noteq> Coded_0 ss" "timedate_code env v \<noteq> Coded_0 ss" "magpitimedate_code v \<noteq> Coded_0 ss"
    "date_code f v \<noteq> Coded_0 ss" "latlong_code env f v \<noteq> Coded_0 ss" "enum_code f v \<noteq> Coded_0 ss"
    "multiselect_code f v \<noteq> Coded ss" "magpiuuid_code v \<noteq> Coded ss" "uuid_code f v \<noteq> Coded ss"
    by (auto simp: boolean_code_def integer_code_def float_code_def timeofday_code_def timedate_code_def magpitimedate_code_def
        date_code_def latlong_code_def enum_code_def multiselect_code_def magpiuuid_code_def uuid_code_def Let_def
        split: list.splits option.splits prod.splits if_splits)
  have ec: "enum_count f \<le> 32" using assms(2) by (auto simp: field_wf_def split: if_splits)
  have "field_type f \<in> set [0, 1, 2, 3, 4, 5, 6, 7, 8, 9, 10, 11, 12, 13, 14]"
    using assms(2) by (intro type_cases) (simp_all add: field_wf_def)
  then show ?thesis
    using assms(3) unfolding value_code_def field_alphabets_def Let_def
    by (simp only: list.set insert_iff empty_iff)
      (elim disjE, simp_all add: never simple code_fits code_fits(3) [OF _ assms(1)] code_fits(6) [OF _ assms(1)]
        code_fits(8) [OF _ ec] text_code_def Let_def)
qed

section \<open>Reading a field\<close>

datatype content = Symbols "int list" | Escaped_text "u8 list" | Text "u8 list"

text \<open>\<open>P\<close> and \<open>V\<close> are the uninitialised arrays of the text decompressor.\<close>

definition decode_text :: "c_env \<Rightarrow> int list \<Rightarrow> u8 list \<Rightarrow> range_coder \<Rightarrow> (range_coder \<times> u8 list) option" where
  "decode_text env P V d = stats3_decompress_bits P V (stats env) (unicode_pages env) d"

definition decode_field :: "c_env \<Rightarrow> int list \<Rightarrow> u8 list \<Rightarrow> field \<Rightarrow> range_coder \<Rightarrow> (range_coder \<times> content) option" where
  "decode_field env P V f d =
     (if field_type f = FIELDTYPE_TEXT then map_option (\<lambda>(d', m). (d', Text m)) (decode_text env P V d)
      else let (d1, ks) = decode_symbols (field_alphabets f) d
           in if field_type f = FIELDTYPE_INTEGER \<and> ks = [maximum f - minimum f + 1]
              then map_option (\<lambda>(d', m). (d', Escaped_text m)) (decode_text env P V d1)
              else Some (d1, Symbols ks))"

definition text_ok :: "string \<Rightarrow> bool" where
  "text_ok v \<longleftrightarrow> (\<exists>us. bytes_of v = concat (map utf8_unit us) \<and> length us < 1024 \<and> length v < 1024)"

text \<open>Values that can be told apart: accepted by the encoder, not one more than the maximum of an integer field (which is
  written like the escape), and not a text that is cut off.\<close>

definition value_ok :: "c_env \<Rightarrow> field \<Rightarrow> string \<Rightarrow> bool" where
  "value_ok env f v =
     (case value_code env f v of
        Undefined \<Rightarrow> False
      | Rejected \<Rightarrow> False
      | Coded ss \<Rightarrow> field_type f = FIELDTYPE_INTEGER \<longrightarrow> map snd ss \<noteq> [maximum f - minimum f + 1]
      | Coded_0 ss \<Rightarrow> True
      | Escaped ss \<Rightarrow> text_ok v
      | Texted len \<Rightarrow> len = length v \<and> text_ok v)"

definition value_content :: "c_env \<Rightarrow> field \<Rightarrow> string \<Rightarrow> content" where
  "value_content env f v =
     (case value_code env f v of
        Coded ss \<Rightarrow> Symbols (map snd ss)
      | Coded_0 ss \<Rightarrow> Symbols (map snd ss)
      | Escaped ss \<Rightarrow> Escaped_text (bytes_of v)
      | _ \<Rightarrow> Text (bytes_of v))"

lemma length_bytes_of [simp]: "length (bytes_of v) = length v"
  by (simp add: bytes_of_def)

lemma codec_text:
  assumes "smac_stats_ok (stats env) (unicode_pages env)" "1024 \<le> length P" "1024 \<le> length V" "text_ok v"
  shows "rc.codec (compress_text env v (length v)) (decode_text env P V) (bytes_of v)"
proof -
  obtain us where us: "bytes_of v = concat (map utf8_unit us)" "length us < 1024" "length v < 1024"
    using assms(4) by (auto simp: text_ok_def)
  then have len: "length (concat (map utf8_unit us)) < 1024" by (metis length_bytes_of)
  have "compress_text env v (length v) = stats3_compress_append (scratch env) (stats env) (unicode_pages env) (bytes_of v)"
    using compress_append_prefix_all [of "scratch env" "stats env" "unicode_pages env" "bytes_of v"]
    by (simp add: compress_text_def [abs_def])
  moreover have "decode_text env P V = stats3_decompress_bits P V (stats env) (unicode_pages env)"
    by (simp add: decode_text_def [abs_def])
  ultimately show ?thesis using codec_append [OF assms(1-3) us(2) len] us(1) by simp
qed

lemma codec_symbol_field:
  assumes "fits ss (field_alphabets f)" "field_type f \<noteq> FIELDTYPE_TEXT"
    and "field_type f = FIELDTYPE_INTEGER \<Longrightarrow> map snd ss \<noteq> [maximum f - minimum f + 1]"
  shows "rc.codec (\<lambda>c. Some (encode_symbols ss c)) (decode_field env P V f) (Symbols (map snd ss))"
proof -
  have "rc.codec (\<lambda>c. Some (encode_symbols ss c)) (\<lambda>d. Some (decode_symbols (field_alphabets f) d)) (map snd ss)"
    using codec_encode_symbols [of ss] assms(1) by (auto simp: fits_def)
  then show ?thesis
    by (rule rc.codec_dec_mono) (use assms(2,3) in \<open>auto simp: decode_field_def\<close>)
qed

lemma codec_escaped:
  assumes "smac_stats_ok (stats env) (unicode_pages env)" "1024 \<le> length P" "1024 \<le> length V" "text_ok v"
    and f: "field_type f = FIELDTYPE_INTEGER" "integer_code f v = Escaped ss"
  shows "rc.codec (\<lambda>c. compress_text env v (length v) (fst (encode_symbols ss c))) (decode_field env P V f) (Escaped_text (bytes_of v))"
proof -
  let ?A = "maximum f - minimum f"
  have ss: "ss = [(?A + 2, ?A + 1)]" "in_alphabet (?A + 2, ?A + 1)"
    using f(2) by (auto simp: integer_code_def in_alphabet_def int32_def Let_def split: if_splits)
  have sym: "rc.codec (\<lambda>c. Some (encode_symbols ss c)) (\<lambda>d. Some (decode_symbols (field_alphabets f) d)) [?A + 1]"
    using codec_encode_symbols [of ss] ss f(1) by (simp add: field_alphabets_def)
  define dec2 where "dec2 = (\<lambda>ks d. if ks = [?A + 1] then map_option (\<lambda>(d', m). (d', Escaped_text m)) (decode_text env P V d)
      else Some (d, Symbols ks))"
  have "rc.codec (compress_text env v (length v)) (dec2 [?A + 1]) (Escaped_text (bytes_of v))"
    using rc.codec_value_map [OF codec_text [OF assms(1-4)], of Escaped_text] by (simp add: dec2_def)
  from rc.codec_seq [OF sym, where ?dec2.0 = dec2, OF this] show ?thesis
    by (rule rc.codec_enc_dec_cong) (simp_all add: decode_field_def f(1) dec2_def case_prod_unfold Let_def)
qed

lemma escaped_integer: "value_code env f v = Escaped ss \<Longrightarrow> field_type f = FIELDTYPE_INTEGER \<and> integer_code f v = Escaped ss"
  by (auto simp: value_code_def float_code_def boolean_code_def timeofday_code_def timedate_code_def magpitimedate_code_def
      date_code_def latlong_code_def enum_code_def multiselect_code_def magpiuuid_code_def uuid_code_def text_code_def Let_def
      split: if_splits list.splits option.splits prod.splits)

lemma texted_text: "value_code env f v = Texted n \<Longrightarrow> field_type f = FIELDTYPE_TEXT"
  by (auto simp: value_code_def integer_code_def float_code_def boolean_code_def timeofday_code_def timedate_code_def
      magpitimedate_code_def date_code_def latlong_code_def enum_code_def multiselect_code_def magpiuuid_code_def uuid_code_def Let_def
      split: if_splits list.splits option.splits prod.splits)

lemma symbols_not_text: "value_code env f v = Coded ss \<or> value_code env f v = Coded_0 ss \<Longrightarrow> field_type f \<noteq> FIELDTYPE_TEXT"
  by (auto simp: value_code_def text_code_def Let_def)

lemma coded_0_not_integer: "value_code env f v = Coded_0 ss \<Longrightarrow> field_type f \<noteq> FIELDTYPE_INTEGER"
  by (auto simp: value_code_def integer_code_def Let_def split: if_splits)

lemma codec_field:
  assumes env: "env_ok env" "smac_stats_ok (stats env) (unicode_pages env)" and arrays: "1024 \<le> length P" "1024 \<le> length V"
    and f: "field_wf f" "value_ok env f v"
  shows "rc.codec (recipe_encode_field env f v) (decode_field env P V f) (value_content env f v)"
proof (cases "value_code env f v")
  case (Coded ss)
  with f(2) have "rc.codec (\<lambda>c. Some (encode_symbols ss c)) (decode_field env P V f) (Symbols (map snd ss))"
    by (intro codec_symbol_field symbols_fit [OF env(1) f(1)] symbols_not_text [of env f v ss]) (auto simp: value_ok_def)
  then show ?thesis by (simp add: recipe_encode_field_def [abs_def] value_content_def Coded)
next
  case (Coded_0 ss)
  with coded_0_not_integer [OF Coded_0]
  have "rc.codec (\<lambda>c. Some (encode_symbols ss c)) (decode_field env P V f) (Symbols (map snd ss))"
    by (intro codec_symbol_field symbols_fit [OF env(1) f(1)] symbols_not_text [of env f v ss]) auto
  from rc.codec_code [OF this, of "\<lambda>_. 0"] show ?thesis
    by (simp add: recipe_encode_field_def [abs_def] value_content_def Coded_0 case_prod_unfold)
next
  case (Escaped ss)
  with f(2) codec_escaped [OF env(2) arrays] escaped_integer [OF Escaped] show ?thesis
    by (simp add: recipe_encode_field_def [abs_def] value_content_def value_ok_def)
next
  case (Texted n)
  then have t: "field_type f = FIELDTYPE_TEXT" "n = length v" "text_ok v"
    using f(2) texted_text [OF Texted] by (simp_all add: value_ok_def)
  from rc.codec_code [OF rc.codec_value_map [OF codec_text [OF env(2) arrays t(3)], of Text], of "\<lambda>r. if r \<noteq> 0 then -1 else 0"]
  show ?thesis
    by (simp add: recipe_encode_field_def [abs_def] decode_field_def [abs_def] value_content_def Texted t(1,2))
qed (use f(2) in \<open>simp_all add: value_ok_def\<close>)

section \<open>Reading a form\<close>

text \<open>The encoder of a record without sub-forms, as one that keeps the coder when a field fails.\<close>

fun encode_fields :: "c_env \<Rightarrow> field list \<Rightarrow> record_field list \<Rightarrow> range_coder \<Rightarrow> (range_coder \<times> int) option" where
  "encode_fields env [] r c = Some (c, 0)"
| "encode_fields env (f # fs) r c =
     (case lookup_key (field_name f) r of
        None \<Rightarrow> Option.bind (Some (range_encode_equiprobable c 2 0)) (\<lambda>(c1, _). encode_fields env fs r c1)
      | Some v \<Rightarrow> Option.bind (Some (range_encode_equiprobable c 2 1)) (\<lambda>(c1, _).
          Option.bind (recipe_encode_field env f v c1) (\<lambda>(c2, e). if e \<noteq> 0 then Some (c2, e) else encode_fields env fs r c2)))"

fun decode_fields :: "c_env \<Rightarrow> int list \<Rightarrow> u8 list \<Rightarrow> field list \<Rightarrow> range_coder \<Rightarrow> (range_coder \<times> content option list) option" where
  "decode_fields env P V [] d = Some (d, [])"
| "decode_fields env P V (f # fs) d =
     Option.bind (Some (range_decode_equiprobable d 2)) (\<lambda>(d1, b).
       if b = 0 then map_option (\<lambda>(d', xs). (d', None # xs)) (decode_fields env P V fs d1)
       else Option.bind (decode_field env P V f d1) (\<lambda>(d2, x).
         map_option (\<lambda>(d', xs). (d', Some x # xs)) (decode_fields env P V fs d2)))"

definition record_content :: "c_env \<Rightarrow> field list \<Rightarrow> record_field list \<Rightarrow> content option list" where
  "record_content env fs r = map (\<lambda>f. map_option (value_content env f) (lookup_key (field_name f) r)) fs"

lemma encode_fields_running:
  assumes "\<forall>f \<in> set fs. \<not> is_subform f" "compress_fields env fr fs r c = Some (Running c')"
  shows "encode_fields env fs r c = Some (c', 0)"
  using assms
proof (induction fs arbitrary: c)
  case (Cons f fs)
  then show ?case by (auto simp: case_prod_unfold split: option.splits if_splits)
qed simp

lemma codec_fields:
  assumes env: "env_ok env" "smac_stats_ok (stats env) (unicode_pages env)" and arrays: "1024 \<le> length P" "1024 \<le> length V"
  shows "(\<forall>f \<in> set fs. field_wf f \<and> (\<forall>v. lookup_key (field_name f) r = Some v \<longrightarrow> value_ok env f v)) \<Longrightarrow>
    rc.codec (encode_fields env fs r) (decode_fields env P V fs) (record_content env fs r)"
proof (induction fs)
  case Nil
  have "encode_fields env [] r = (\<lambda>c. Some (c, 0))" "decode_fields env P V [] = (\<lambda>d. Some (d, []))" by auto
  then show ?case using rc.codec_return by (simp add: record_content_def)
next
  case (Cons f fs)
  define dec1 where "dec1 = (\<lambda>b d1. if b = (0 :: int) then map_option (\<lambda>(d', xs). (d', None # xs)) (decode_fields env P V fs d1)
       else Option.bind (decode_field env P V f d1) (\<lambda>(d2, x). map_option (\<lambda>(d', xs). (d', Some x # xs)) (decode_fields env P V fs d2)))"
  have flag: "rc.codec (\<lambda>c. Some (range_encode_equiprobable c 2 b)) (\<lambda>d. Some (range_decode_equiprobable d 2)) b" if "b = 0 \<or> b = 1" for b
    using that by (intro codec_equiprobable) auto
  have rest: "rc.codec (encode_fields env fs r) (decode_fields env P V fs) (record_content env fs r)"
    using Cons by simp
  show ?case
  proof (cases "lookup_key (field_name f) r")
    case None
    have "rc.codec (encode_fields env fs r) (dec1 0) (None # record_content env fs r)"
      using rc.codec_value_map [OF rest, of "\<lambda>xs. None # xs"] by (simp add: dec1_def)
    from rc.codec_seq [OF flag, where ?dec2.0 = dec1, OF _ this] 
    have "rc.codec (\<lambda>c. Option.bind (Some (range_encode_equiprobable c 2 0)) (\<lambda>(c1, r'). encode_fields env fs r c1))
      (\<lambda>d. Option.bind (Some (range_decode_equiprobable d 2)) (\<lambda>(d', x). dec1 x d')) (None # record_content env fs r)" by simp
    moreover have "record_content env (f # fs) r = None # record_content env fs r" by (simp add: record_content_def None)
    ultimately show ?thesis
      by (simp only:) (erule rc.codec_enc_dec_cong, simp_all add: None dec1_def)
  next
    case (Some v)
    have field: "rc.codec (recipe_encode_field env f v) (decode_field env P V f) (value_content env f v)"
      using Cons.prems Some by (intro codec_field [OF env arrays]) auto
    define dec2 where "dec2 = (\<lambda>x d2. map_option (\<lambda>(d', xs). (d', Some x # xs)) (decode_fields env P V fs d2))"
    have "rc.codec (encode_fields env fs r) (dec2 (value_content env f v)) (Some (value_content env f v) # record_content env fs r)"
      unfolding dec2_def by (rule rc.codec_value_map [OF rest])
    from rc.codec_seq_checked [OF field, where ?dec2.0 = dec2 and f = "\<lambda>e. e", OF this refl]
    have "rc.codec (\<lambda>c. Option.bind (recipe_encode_field env f v c) (\<lambda>(c1, e). if e \<noteq> 0 then Some (c1, e) else encode_fields env fs r c1))
      (dec1 1) (Some (value_content env f v) # record_content env fs r)"
      by (rule rc.codec_enc_dec_cong) (simp_all add: dec1_def dec2_def)
    from rc.codec_seq [OF flag, where ?dec2.0 = dec1, OF _ this]
    have "rc.codec (\<lambda>c. Option.bind (Some (range_encode_equiprobable c 2 1)) (\<lambda>(c1, r').
          Option.bind (recipe_encode_field env f v c1) (\<lambda>(c1, e). if e \<noteq> 0 then Some (c1, e) else encode_fields env fs r c1)))
      (\<lambda>d. Option.bind (Some (range_decode_equiprobable d 2)) (\<lambda>(d', x). dec1 x d')) (Some (value_content env f v) # record_content env fs r)"
      by simp
    moreover have "record_content env (f # fs) r = Some (value_content env f v) # record_content env fs r"
      by (simp add: record_content_def Some)
    ultimately show ?thesis
      by (simp only:) (erule rc.codec_enc_dec_cong, simp_all add: Some dec1_def)
  qed
qed

text \<open>The whole form: six bytes of hash, then the fields.\<close>

definition hash_symbols :: "recipe \<Rightarrow> (int \<times> int) list" where
  "hash_symbols r = map (\<lambda>b. (256, uint b)) (formhash r)"

definition decode_form :: "c_env \<Rightarrow> int list \<Rightarrow> u8 list \<Rightarrow> recipe \<Rightarrow> range_coder \<Rightarrow> (range_coder \<times> int list \<times> content option list) option" where
  "decode_form env P V r d =
     Option.bind (Some (decode_symbols (replicate 6 256) d)) (\<lambda>(d1, hash).
       map_option (\<lambda>(d2, xs). (d2, hash, xs)) (decode_fields env P V (field_list r) d1))"

lemma codec_form:
  assumes env: "env_ok env" "smac_stats_ok (stats env) (unicode_pages env)" and arrays: "1024 \<le> length P" "1024 \<le> length V"
    and r: "length (formhash r) = 6"
      "\<forall>f \<in> set (field_list r). field_wf f \<and> (\<forall>v. lookup_key (field_name f) rec = Some v \<longrightarrow> value_ok env f v)"
  shows "rc.codec (\<lambda>c. encode_fields env (field_list r) rec (fst (encode_symbols (hash_symbols r) c))) (decode_form env P V r)
    (map uint (formhash r), record_content env (field_list r) rec)"
proof -
  have "in_alphabet (256, uint (b :: u8))" for b
    using unsigned_less [of b] by (simp add: in_alphabet_def)
  then have "rc.codec (\<lambda>c. Some (encode_symbols (hash_symbols r) c))
      (\<lambda>d. Some (decode_symbols (map fst (hash_symbols r)) d)) (map snd (hash_symbols r))"
    by (intro codec_encode_symbols) (auto simp: hash_symbols_def)
  then have hash: "rc.codec (\<lambda>c. Some (encode_symbols (hash_symbols r) c))
      (\<lambda>d. Some (decode_symbols (replicate 6 256) d)) (map uint (formhash r))"
    using r(1) by (simp add: hash_symbols_def comp_def map_replicate_const)
  define dec2 where "dec2 = (\<lambda>hash d. map_option (\<lambda>(d2, xs). (d2, hash :: int list, xs)) (decode_fields env P V (field_list r) d))"
  have "rc.codec (encode_fields env (field_list r) rec) (dec2 (map uint (formhash r))) (map uint (formhash r), record_content env (field_list r) rec)"
    unfolding dec2_def by (rule rc.codec_value_map [OF codec_fields [OF env arrays r(2)]])
  from rc.codec_seq [OF hash, where ?dec2.0 = dec2, OF this] show ?thesis
    by (rule rc.codec_enc_dec_cong) (simp_all add: decode_form_def dec2_def case_prod_unfold)
qed

text \<open>The test that \<^const>\<open>recipe_compress\<close> leaves out: that the form fitted the coder's kilobyte.\<close>

definition form_fits :: "c_env \<Rightarrow> (string \<Rightarrow> recipe option) \<Rightarrow> recipe \<Rightarrow> record_field list \<Rightarrow> bool" where
  "form_fits env fr r rec \<longleftrightarrow>
     (case compress_record_with_subforms env fr r rec (fst (encode_symbols (hash_symbols r) (range_new_coder (scratch env) 1024))) of
        Some (Running c1) \<Rightarrow> snd (range_conclude c1) = 0 | _ \<Rightarrow> False)"

section \<open>Forms that fit\<close>

lemma costs_encode_symbols: "\<forall>s \<in> set ss. in_alphabet s \<Longrightarrow> costs (encode_symbols ss) (64 * length ss)"
proof (induction ss rule: induct_list012)
  case (2 s)
  obtain a k where s: "s = (a, k)" by fastforce
  with 2 have "costs (\<lambda>c. range_encode_equiprobable c a k) 64" by (intro costs_equiprobable) (auto simp: in_alphabet_def)
  then show ?case by (simp add: s costs_def)
next
  case (3 s t ss)
  obtain a k where s: "s = (a, k)" by fastforce
  have "costs (\<lambda>c. range_encode_equiprobable c a k) 64" using 3(3) s by (intro costs_equiprobable) (auto simp: in_alphabet_def)
  from costs_seq [OF this 3(2)] 3(3) have "costs (encode_symbols (s # t # ss)) (64 + 64 * length (t # ss))"
    by (simp add: s costs_def)
  then show ?case by simp
qed (simp add: costs_def)

lemma costs_fits: "fits ss as \<Longrightarrow> costs (encode_symbols ss) (64 * length as)"
  using costs_encode_symbols [of ss] unfolding fits_def by (metis length_map)

definition symbols_only :: "c_env \<Rightarrow> field \<Rightarrow> string \<Rightarrow> bool" where
  "symbols_only env f v = (case value_code env f v of Coded _ \<Rightarrow> True | Coded_0 _ \<Rightarrow> True | _ \<Rightarrow> False)"

definition field_cost :: "field \<Rightarrow> nat" where
  "field_cost f = 64 * Suc (length (field_alphabets f))"

definition running_costs :: "(range_coder \<Rightarrow> outcome option) \<Rightarrow> nat \<Rightarrow> bool" where
  "running_costs run n \<longleftrightarrow> (\<forall>c. enc_inv c \<and> enc_pos c + n < bit_stream_length c \<longrightarrow>
     (\<exists>c'. run c = Some (Running c') \<and> enc_inv c' \<and> enc_pos c' \<le> enc_pos c + n \<and> bit_stream_length c' = bit_stream_length c))"

lemma running_after:
  assumes "costs enc n" "running_costs run m"
    and "\<And>c c'. enc_inv c \<Longrightarrow> enc_pos c + n < bit_stream_length c \<Longrightarrow> enc c = (c', 0) \<Longrightarrow> run' c = run c'"
  shows "running_costs run' (n + m)"
  unfolding running_costs_def
proof (intro allI impI)
  fix c assume c: "enc_inv c \<and> enc_pos c + (n + m) < bit_stream_length c"
  then have c': "enc_inv c" "enc_pos c + n < bit_stream_length c" by simp_all
  then obtain c1 where c1: "enc c = (c1, 0)" "enc_inv c1" "enc_pos c1 \<le> enc_pos c + n" "bit_stream_length c1 = bit_stream_length c"
    using assms(1) unfolding costs_def by blast
  with c have "enc_inv c1 \<and> enc_pos c1 + m < bit_stream_length c1" by simp
  then obtain c2 where "run c1 = Some (Running c2)" "enc_inv c2" "enc_pos c2 \<le> enc_pos c1 + m" "bit_stream_length c2 = bit_stream_length c1"
    using assms(2) unfolding running_costs_def by blast
  with c1 assms(3) [OF c' c1(1)]
  show "\<exists>c'. run' c = Some (Running c') \<and> enc_inv c' \<and> enc_pos c' \<le> enc_pos c + (n + m) \<and> bit_stream_length c' = bit_stream_length c" by auto
qed

lemma running_costs_mono: "running_costs run n \<Longrightarrow> n \<le> m \<Longrightarrow> running_costs run m"
  unfolding running_costs_def by (meson add_le_cancel_left le_less_trans le_trans)

lemma costs_flag: "b = 0 \<or> b = 1 \<Longrightarrow> costs (\<lambda>c. range_encode_equiprobable c 2 b) 64"
  by (intro costs_equiprobable) auto

lemma costs_encode_field:
  assumes "env_ok env" "field_wf f" "symbols_only env f v"
  shows "\<exists>enc. costs enc (64 * length (field_alphabets f)) \<and> recipe_encode_field env f v = (\<lambda>c. Some (enc c))"
proof (cases "value_code env f v")
  case (Coded ss)
  with symbols_fit [OF assms(1,2)] have "fits ss (field_alphabets f)" by blast
  then have "costs (encode_symbols ss) (64 * length (field_alphabets f))" by (rule costs_fits)
  then show ?thesis by (intro exI [of _ "encode_symbols ss"]) (simp add: recipe_encode_field_def [abs_def] Coded)
next
  case (Coded_0 ss)
  with symbols_fit [OF assms(1,2)] have "fits ss (field_alphabets f)" by blast
  then have "costs (encode_symbols ss) (64 * length (field_alphabets f))" by (rule costs_fits)
  then have "costs (\<lambda>c. (fst (encode_symbols ss c), 0)) (64 * length (field_alphabets f))" by (rule costs_cong) simp
  then show ?thesis
    by (intro exI [of _ "\<lambda>c. (fst (encode_symbols ss c), 0)"]) (simp add: recipe_encode_field_def [abs_def] Coded_0)
qed (use assms(3) in \<open>simp_all add: symbols_only_def\<close>)

lemma fields_running:
  assumes env: "env_ok env"
  shows "\<forall>f \<in> set fs. field_wf f \<and> \<not> is_subform f \<and> (\<forall>v. lookup_key (field_name f) r = Some v \<longrightarrow> symbols_only env f v) \<Longrightarrow>
    running_costs (compress_fields env fr fs r) (sum_list (map field_cost fs))"
proof (induction fs)
  case Nil
  then show ?case by (simp add: running_costs_def)
next
  case (Cons f fs)
  let ?rest = "sum_list (map field_cost fs)" and ?n = "64 * length (field_alphabets f)"
  have rest: "running_costs (compress_fields env fr fs r) ?rest" using Cons by simp
  show ?case
  proof (cases "lookup_key (field_name f) r")
    case None
    have "running_costs (compress_fields env fr (f # fs) r) (64 + ?rest)"
      by (rule running_after [OF costs_flag [of 0] rest]) (use Cons.prems None in simp_all)
    then show ?thesis by (rule running_costs_mono) (simp add: field_cost_def [of f])
  next
    case (Some v)
    obtain enc where enc: "costs enc ?n" "recipe_encode_field env f v = (\<lambda>c. Some (enc c))"
      using costs_encode_field [OF env, of f v] Cons.prems Some by auto
    have "running_costs (\<lambda>c. case enc c of (c1, e) \<Rightarrow> if e \<noteq> 0 then Some Freed else compress_fields env fr fs r c1) (?n + ?rest)"
      by (rule running_after [OF enc(1) rest]) simp
    then have "running_costs (compress_fields env fr (f # fs) r) (64 + (?n + ?rest))"
      by (rule running_after [OF costs_flag [OF disjI2 [OF refl]]]) (use Cons.prems Some enc(2) in simp_all)
    moreover have "sum_list (map field_cost (f # fs)) = 64 + (?n + ?rest)" by (simp add: field_cost_def [of f])
    ultimately show ?thesis by (simp only:)
  qed
qed

lemma form_fitsI:
  "\<exists>c1 c2. compress_fields env fr (field_list r) rec (fst (encode_symbols (hash_symbols r) (range_new_coder (scratch env) 1024)))
      = Some (Running c1) \<and> range_conclude c1 = (c2, 0) \<and> P c2 \<Longrightarrow> form_fits env fr r rec"
  by (auto simp: form_fits_def compress_record_with_subforms_def)

lemma form_concludes:
  assumes env: "env_ok env"
    and f: "\<forall>f \<in> set (field_list r). field_wf f \<and> \<not> is_subform f \<and> (\<forall>v. lookup_key (field_name f) rec = Some v \<longrightarrow> symbols_only env f v)"
    and small: "64 * length (formhash r) + sum_list (map field_cost (field_list r)) < 8160"
  shows "\<exists>c1 c2. compress_fields env fr (field_list r) rec (fst (encode_symbols (hash_symbols r) (range_new_coder (scratch env) 1024)))
      = Some (Running c1) \<and> range_conclude c1 = (c2, 0) \<and>
    bits_used c2 \<le> 64 * length (formhash r) + sum_list (map field_cost (field_list r)) + 32"
proof -
  let ?c = "range_new_coder (scratch env) 1024" and ?n = "64 * length (formhash r) + sum_list (map field_cost (field_list r))"
  have c: "enc_pos ?c = 0" "bit_stream_length ?c = 8192" "enc_inv ?c"
    using range_new_coder_inv [of 1024 "scratch env"] by (simp_all add: range_new_coder_def range_coder_reset_def enc_pos_def)
  have hash: "costs (encode_symbols (hash_symbols r)) (64 * length (formhash r))"
  proof -
    have "in_alphabet (256, uint (b :: u8))" for b using unsigned_less [of b] by (simp add: in_alphabet_def)
    then show ?thesis using costs_encode_symbols [of "hash_symbols r"] by (simp add: hash_symbols_def)
  qed
  have "running_costs (\<lambda>c. compress_fields env fr (field_list r) rec (fst (encode_symbols (hash_symbols r) c))) ?n"
    by (rule running_after [OF hash fields_running [OF env f]]) simp
  moreover have "enc_inv ?c \<and> enc_pos ?c + ?n < bit_stream_length ?c" using c small by simp
  ultimately obtain c1 where c1: "compress_fields env fr (field_list r) rec (fst (encode_symbols (hash_symbols r) ?c)) = Some (Running c1)"
    "enc_inv c1" "enc_pos c1 \<le> enc_pos ?c + ?n" "bit_stream_length c1 = bit_stream_length ?c"
    unfolding running_costs_def by blast
  then have "enc_pos c1 + 32 \<le> bit_stream_length c1" using c small by simp
  from range_conclude_total [OF c1(2) this] obtain c2 where "range_conclude c1 = (c2, 0)"
    "bits_used c2 \<le> enc_pos c1 + 32" by blast
  with c1 c(1) show ?thesis by auto
qed

lemmas form_fits_symbols = form_concludes [THEN form_fitsI]

lemma recipe_compress_concluded:
  assumes "parse_stripped_with_subforms inp = Inr rec"
    "compress_fields env fr (field_list r) rec (fst (encode_symbols (hash_symbols r) (range_new_coder (scratch env) 1024))) = Some (Running c1)"
    "range_conclude c1 = (c2, e)" "bits2bytes (bits_used c2) \<le> out_size"
  shows "recipe_compress env fr r inp out_size = Some (Inr (stream_bytes c2))"
  using assms
  by (simp add: recipe_compress_def compress_record_with_subforms_def hash_symbols_def [symmetric] Let_def stream_bytes_def
      bits2bytes_def drop_bit_eq_div)

section \<open>Round trip\<close>

lemma form_transmitted:
  assumes env: "env_ok env" "smac_stats_ok (stats env) (unicode_pages env)" and arrays: "1024 \<le> length P" "1024 \<le> length V"
    and r: "length (formhash r) = 6" "\<forall>f \<in> set (field_list r). \<not> is_subform f"
      "\<forall>f \<in> set (field_list r). field_wf f \<and> (\<forall>v. lookup_key (field_name f) rec = Some v \<longrightarrow> value_ok env f v)"
    and run: "parse_stripped_with_subforms inp = Inr rec" "form_fits env fr r rec" "1024 \<le> out_size" "\<not> norescale d"
  shows "\<exists>out d'. recipe_compress env fr r inp out_size = Some (Inr out) \<and>
    decode_form env P V r (range_decode_prefetch (load_stream d out)) =
      Some (d', map uint (formhash r), record_content env (field_list r) rec)"
proof -
  let ?c0 = "range_new_coder (scratch env) 1024"
  obtain c1 c2 where c1: "compress_fields env fr (field_list r) rec (fst (encode_symbols (hash_symbols r) ?c0)) = Some (Running c1)"
    and c2: "range_conclude c1 = (c2, 0)"
    using run(2) by (auto simp: form_fits_def compress_record_with_subforms_def split: option.splits outcome.splits)
      (metis prod.collapse)
  note codec = codec_form [OF env arrays r(1,3)]
  have enc: "encode_fields env (field_list r) rec (fst (encode_symbols (hash_symbols r) ?c0)) = Some (c1, 0)"
    by (rule encode_fields_running [OF r(2) c1])
  have "bits_used c2 \<le> 8 * 1024" using concluded_size [OF codec _ enc] c2 by simp
  then have "bits2bytes (bits_used c2) \<le> out_size" using run(3) by (simp add: bits2bytes_eq)
  from recipe_compress_concluded [OF run(1) c1 c2 this]
  have "recipe_compress env fr r inp out_size = Some (Inr (stream_bytes c2))" .
  with codec_round_trip [OF codec _ enc c2 run(4)] show ?thesis by simp
qed

definition sample_env :: c_env where
  "sample_env = \<lparr>scratch = sample_junk, stats = sample_handle, unicode_pages = sample_unicode,
     float_parts = (\<lambda>_. (False, 0, 0)), latlong = (\<lambda>_. None), mktime = (\<lambda>_. 0)\<rparr>"

definition sample_recipe :: recipe where
  "sample_recipe = \<lparr>formhash = [1, 2, 3, 4, 5, 6], formname = ''f'', field_list = sample_fields, field_count = 2\<rparr>"

abbreviation sample_answers :: "record_field list" where
  "sample_answers \<equiv> [Key_value ''AGE'' ''42'']"

lemma sample_env_ok: "env_ok sample_env" "smac_stats_ok (stats sample_env) (unicode_pages sample_env)"
  using smac_stats_ok_sample by (simp_all add: sample_env_def env_ok_def)

lemma sample_code: "value_code sample_env (sample_fields ! 0) ''42'' = Coded [(127, 47)]"
  by code_simp

lemma sample_names:
  "field_list sample_recipe = [sample_fields ! 0, sample_fields ! Suc 0]" "field_name (sample_fields ! 0) = ''age''"
  "field_name (sample_fields ! Suc 0) = ''crop''" "maximum (sample_fields ! 0) - minimum (sample_fields ! 0) + 1 = 126"
  by (simp_all add: sample_recipe_def sample_fields_def)

lemma sample_lookup: "lookup_key ''age'' sample_answers = Some ''42''" "lookup_key ''crop'' sample_answers = None"
  by code_simp+

lemma sample_content: "record_content sample_env (field_list sample_recipe) sample_answers = [Some (Symbols [47]), None]"
  by (simp add: record_content_def sample_names sample_lookup value_content_def sample_code del: lookup_key.simps)

lemma sample_fields_ok:
  "\<forall>f \<in> set (field_list sample_recipe). \<not> is_subform f"
  "\<forall>f \<in> set (field_list sample_recipe). field_wf f \<and> (\<forall>v. lookup_key (field_name f) sample_answers = Some v \<longrightarrow> value_ok sample_env f v)"
  "\<forall>f \<in> set (field_list sample_recipe). field_wf f \<and> \<not> is_subform f \<and>
     (\<forall>v. lookup_key (field_name f) sample_answers = Some v \<longrightarrow> symbols_only sample_env f v)"
proof -
  have wf: "field_wf (sample_fields ! 0)" "field_wf (sample_fields ! Suc 0)"
    by (simp_all add: sample_fields_def field_wf_def enum_type_def)
  have sub: "\<not> is_subform (sample_fields ! 0)" "\<not> is_subform (sample_fields ! Suc 0)"
    unfolding sample_fields_def nth_Cons_0 nth_Cons_Suc by code_simp+
  have ok: "value_ok sample_env (sample_fields ! 0) ''42''" "symbols_only sample_env (sample_fields ! 0) ''42''"
    using sample_names(4) by (simp_all add: value_ok_def symbols_only_def sample_code)
  show "\<forall>f \<in> set (field_list sample_recipe). \<not> is_subform f"
    "\<forall>f \<in> set (field_list sample_recipe). field_wf f \<and> (\<forall>v. lookup_key (field_name f) sample_answers = Some v \<longrightarrow> value_ok sample_env f v)"
    "\<forall>f \<in> set (field_list sample_recipe). field_wf f \<and> \<not> is_subform f \<and>
      (\<forall>v. lookup_key (field_name f) sample_answers = Some v \<longrightarrow> symbols_only sample_env f v)"
    unfolding sample_names(1) using wf sub ok by (simp_all add: sample_names sample_lookup del: lookup_key.simps)
qed

lemma sample_hash: "length (formhash sample_recipe) = 6" "map uint (formhash sample_recipe) = [1, 2, 3, 4, 5, 6]"
  by (simp_all add: sample_recipe_def)

lemma sample_fits: "form_fits sample_env (\<lambda>_. None) sample_recipe sample_answers"
proof (rule form_fits_symbols [OF sample_env_ok(1) sample_fields_ok(3)])
  have "sum_list (map field_cost sample_fields) = 256" by code_simp
  then show "64 * length (formhash sample_recipe) + sum_list (map field_cost (field_list sample_recipe)) < 8160"
    by (simp add: sample_recipe_def)
qed

lemma sample_decoder: "\<not> norescale (range_new_coder (\<lambda>_. 0) 0)"
  by (simp add: range_new_coder_def range_coder_reset_def)

end
