(* ===== verification/FormProps.thy ===== *)
theory FormProps
  imports RecipeCodec
begin

text \<open>
  Limits of the form compressor: how long the result can be, and what happens to values it cannot express.
\<close>



lemma rejected_field:
  assumes "\<forall>f \<in> set fs. \<not> is_subform f" "f \<in> set fs" "lookup_key (field_name f) r = Some v" "value_code env f v = Rejected"
  shows "compress_fields env fr fs r c \<in> {None, Some Freed}"
  using assms
proof (induction fs arbitrary: c)
  case (Cons g gs)
  have "recipe_encode_field env f v = (\<lambda>c. Some (c, -1))" by (simp add: recipe_encode_field_def [abs_def] Cons.prems(4))
  with Cons show ?case by (auto split: option.splits prod.splits simp del: lookup_key.simps)
qed simp

text \<open>(C39) A value that its field refuses (a date without a month, an enumeration value that is not listed, \<open>\<dots>\<close>) makes the
  compression of the form undefined rather than fail: the coder is freed by the loop over the fields and once more by its caller.\<close>

theorem rejected_value_undefined:
  assumes "\<forall>f \<in> set (field_list r). \<not> is_subform f" "f \<in> set (field_list r)"
    and "parse_stripped_with_subforms inp = Inr rec" "lookup_key (field_name f) rec = Some v" "value_code env f v = Rejected"
  shows "recipe_compress env fr r inp out_size = None"
  using rejected_field [OF assms(1,2,4,5), where fr = fr and c = "fst (encode_symbols (hash_symbols r) (range_new_coder (scratch env) 1024))"]
  by (auto simp: recipe_compress_def compress_record_with_subforms_def hash_symbols_def assms(3) Let_def)

theorem rejected_value_undefined_witness:
  "recipe_compress sample_env (\<lambda>_. None) sample_recipe ''CROP=barley'' 1024 = None"
proof -
  let ?f = "sample_fields ! 1"
  have fs: "field_list sample_recipe = sample_fields" by (simp add: sample_recipe_def)
  have "list_all (\<lambda>f. \<not> is_subform f) sample_fields" by code_simp
  then have "\<forall>f \<in> set (field_list sample_recipe). \<not> is_subform f" unfolding fs by (simp add: list_all_iff)
  moreover have "?f \<in> set (field_list sample_recipe)" by (simp add: fs sample_fields_def)
  moreover have "parse_stripped_with_subforms ''CROP=barley'' = Inr [Key_value ''CROP'' ''barley'']" by code_simp
  moreover have "lookup_key (field_name ?f) [Key_value ''CROP'' ''barley''] = Some ''barley''" by code_simp
  moreover have "value_code sample_env ?f ''barley'' = Rejected" by code_simp
  ultimately show ?thesis by (rule rejected_value_undefined)
qed

text \<open>An integer that is one more than the maximum of its field passes the test of the range and is written with the symbol that
  announces free text: a reader takes what follows for compressed text.\<close>

theorem integer_escape_clash:
  assumes "field_type f = FIELDTYPE_INTEGER" "minimum f < maximum f" "int32 (minimum f)" "int32 (maximum f - minimum f + 2)"
    and "atoi v = maximum f + 1" "atoi w < minimum f" "int32 (atoi w - minimum f)"
  shows "\<exists>s. value_code env f v = Coded [s] \<and> value_code env f w = Escaped [s] \<and> field_alphabets f = [fst s]"
proof -
  have "int32 (maximum f + 1 - minimum f)" using assms(2,4) by (simp add: int32_def)
  with assms show ?thesis
    by (simp add: value_code_def integer_code_def field_alphabets_def Let_def)
qed

theorem integer_escape_clash_witness:
  "\<exists>s. value_code sample_env (sample_fields ! 0) ''121'' = Coded [s] \<and>
     value_code sample_env (sample_fields ! 0) ''-100'' = Escaped [s] \<and> field_alphabets (sample_fields ! 0) = [fst s]"
proof -
  have "field_type (sample_fields ! 0) = FIELDTYPE_INTEGER" "minimum (sample_fields ! 0) = -5" "maximum (sample_fields ! 0) = 120"
    "atoi ''121'' = 121" "atoi ''-100'' = -100"
    by code_simp+
  then show ?thesis by (intro integer_escape_clash) (simp_all add: int32_def)
qed

end
