(* ===== verification/Bridge.thy ===== *)
theory Bridge
  imports FormDefinition DexmlProps FormProps
begin

text \<open>
  \<^verbatim>\<open>forms/compression.cpp\<close>: the entry points through which the application uses the parts for forms. Conversion between Java
  and C strings is left out. The inner option is a null reference returned to Java, the outer \<open>None\<close> undefined behaviour. The look-up
  of recipes of sub-forms, whose loop starts at an uninitialised index, is an argument.
\<close>

section \<open>Entry points\<close>

text \<open>The recipes of a definition: those up to the first without text are read; an entry that cannot be read is a null pointer, which is
  followed if it is the first and ends the array otherwise.\<close>

fun read_recipes :: "(nat \<Rightarrow> u8) \<Rightarrow> (string option \<times> string) list \<Rightarrow> recipe option list option" where
  "read_recipes junk [] = Some []"
| "read_recipes junk ((None, name) # rs) = Some []"
| "read_recipes junk ((Some text, name) # rs) = do {
     r \<leftarrow> recipe_read junk name text;
     rest \<leftarrow> read_recipes junk rs;
     Some ((case r of Inl _ \<Rightarrow> None | Inr x \<Rightarrow> Some x) # rest) }"

definition build_recipe ::
    "(nat \<Rightarrow> u8) \<Rightarrow> (string \<Rightarrow> xml_event list \<times> bool) \<Rightarrow> string \<Rightarrow> (u8 list \<times> recipe list) option option" where
  "build_recipe junk xml_parse specification =
     (case xhtmlToRecipe xml_parse specification of
        None \<Rightarrow> None
      | Some (Inl _) \<Rightarrow> Some None
      | Some (Inr (rs, _)) \<Rightarrow> do {
          recipies \<leftarrow> read_recipes junk rs;
          (case recipies of
             [] \<Rightarrow> Some None
           | None # _ \<Rightarrow> None
           | Some r # _ \<Rightarrow> Some (Some (formhash r, map the (takeWhile (\<lambda>x. x \<noteq> None) recipies)))) })"

definition strip_form :: "bool \<Rightarrow> string \<Rightarrow> string option option" where
  "strip_form sgn_char form_instance =
     map_option (\<lambda>(stripped_len, text). if stripped_len = 0 then None else Some text) (xml2stripped sgn_char None form_instance 0x10000)"

definition compress_form :: "c_env \<Rightarrow> (string \<Rightarrow> recipe option) \<Rightarrow> recipe list \<Rightarrow> string \<Rightarrow> u8 list option option" where
  "compress_form env lookup_recipe recipies stripped_form =
     (case recipies of
        [] \<Rightarrow> None
      | r # _ \<Rightarrow> map_option (\<lambda>x. case x of Inl _ \<Rightarrow> None | Inr out \<Rightarrow> Some out) (recipe_compress env lookup_recipe r stripped_form 1024))"

text \<open>The output buffer has the size of the input.\<close>

definition compress_string :: "(nat \<Rightarrow> u8) \<Rightarrow> stats_handle \<Rightarrow> (int \<Rightarrow> u32 list option) \<Rightarrow> u8 list \<Rightarrow> u8 list option option" where
  "compress_string junk h unicode text =
     (case stats3_compress junk h unicode text of
        None \<Rightarrow> None
      | Some (Inl _) \<Rightarrow> Some None
      | Some (Inr out) \<Rightarrow> if length out > length text then None else Some (Some out))"

section \<open>Building the recipe of a form\<close>



end
