(* ===== verification/SyncTree.thy ===== *)
theory SyncTree
  imports Prelude "HOL-Library.Monad_Syntax" "HOL-Library.Multiset"
begin

text \<open>
  \<^verbatim>\<open>sync_keys.cpp\<close>, first part: the binary tree of keys that two peers compare to find out which keys the
  other is missing. A leaf holds a key; an inner node stands for all keys below it and holds their common
  prefix followed by the exclusive or of the remaining bits. The tree is owned by one pointer, so a
  pointer to a node is a path and an update in place returns the new tree. \<open>None\<close> as a result is a failed
  assertion or the use of a null pointer.
\<close>

section \<open>Model\<close>

abbreviation KEY_LEN :: nat where "KEY_LEN \<equiv> 8"
abbreviation KEY_LEN_BITS :: nat where "KEY_LEN_BITS \<equiv> 64"

text \<open>The lengths fit their bit fields: 7 and 8 bits.\<close>

record key_message =
  min_prefix_len :: nat
  stored :: bool
  prefix_len :: nat
  key :: "u8 list"

datatype 'c node = Node (message: key_message) (context_ptr: "'c option") (child0: "'c node option") (child1: "'c node option")

definition children :: "'c node \<Rightarrow> nat \<Rightarrow> 'c node option" where
  "children n i = (if i = 0 then child0 n else child1 n)"

definition set_child :: "nat \<Rightarrow> 'c node option \<Rightarrow> 'c node \<Rightarrow> 'c node" where
  "set_child i c n = (if i = 0 then Node (message n) (context_ptr n) c (child1 n)
     else Node (message n) (context_ptr n) (child0 n) c)"

definition set_message :: "key_message \<Rightarrow> 'c node \<Rightarrow> 'c node" where
  "set_message m n = Node m (context_ptr n) (child0 n) (child1 n)"

definition message_from_key :: "u8 list \<Rightarrow> key_message" where
  "message_from_key k = \<lparr>min_prefix_len = 0, stored = False, prefix_len = KEY_LEN_BITS, key = k\<rparr>"

text \<open>The three loops of \<^verbatim>\<open>sync_xor\<close> run over the bytes below, at and above the end of the prefix.\<close>

definition sync_xor :: "u8 list \<Rightarrow> key_message \<Rightarrow> key_message option" where
  "sync_xor src_key dest_key =
     (if \<not> prefix_len dest_key < KEY_LEN_BITS then None
      else let whole = prefix_len dest_key div 8;
               part = prefix_len dest_key mod 8;
               mask = ucast (drop_bit part (0xff00 :: u16)) :: u8
           in Some (dest_key\<lparr>key := map (\<lambda>i.
                if i < whole then src_key ! i
                else if i = whole \<and> part \<noteq> 0 then (mask AND src_key ! i) OR (key dest_key ! i XOR src_key ! i)
                else key dest_key ! i XOR src_key ! i) [0..<KEY_LEN]\<rparr>))"

definition sync_get_bits :: "nat \<Rightarrow> nat \<Rightarrow> u8 list \<Rightarrow> nat option" where
  "sync_get_bits offset len k =
     (if \<not> len \<le> 8 \<or> \<not> offset + len < KEY_LEN_BITS then None
      else let start_byte = offset div 8;
               context = push_bit 8 (ucast (k ! start_byte)) :: u16;
               context = (if start_byte + 1 < KEY_LEN then context OR ucast (k ! (start_byte + 1)) else context)
           in Some (unat (drop_bit (16 - offset mod 8 - len) context AND (2 ^ len - 1))))"

text \<open>The first difference of two byte arrays, as \<^verbatim>\<open>memcmp\<close> reports it.\<close>

fun memcmp :: "u8 list \<Rightarrow> u8 list \<Rightarrow> int" where
  "memcmp (x # xs) (y # ys) = (if x = y then memcmp xs ys else uint x - uint y)"
| "memcmp xs ys = 0"

definition xor_begin :: "key_message \<Rightarrow> nat" where
  "xor_begin m = (if prefix_len m = KEY_LEN_BITS then min_prefix_len m else prefix_len m)"

definition cmp_message :: "key_message \<Rightarrow> key_message \<Rightarrow> int" where
  "cmp_message first second =
     (let common_prefix_len = min (prefix_len first) (prefix_len second);
          xor_begin_offset = max (xor_begin first) (xor_begin second)
      in if common_prefix_len < xor_begin_offset
         then if common_prefix_len \<ge> 8 \<and>
                 memcmp (take (common_prefix_len div 8) (key first)) (take (common_prefix_len div 8) (key second)) \<noteq> 0 then -1
              else let xor_begin_byte = (xor_begin_offset + 7) div 8
                   in if xor_begin_byte < KEY_LEN \<and>
                         memcmp (drop xor_begin_byte (key first)) (drop xor_begin_byte (key second)) \<noteq> 0 then -1 else 0
         else memcmp (key first) (key second))"

fun xor_children :: "'c node \<Rightarrow> key_message \<Rightarrow> key_message option" where
  "xor_children (Node m ctx l r) dest =
     (if prefix_len m = KEY_LEN_BITS then sync_xor (key m) dest
      else do {
        dest \<leftarrow> (case l of None \<Rightarrow> Some dest | Some n \<Rightarrow> xor_children n dest);
        (case r of None \<Rightarrow> Some dest | Some n \<Rightarrow> xor_children n dest) })"

definition new_parent :: "nat \<Rightarrow> nat \<Rightarrow> bool \<Rightarrow> nat \<Rightarrow> 'c node \<Rightarrow> 'c node option" where
  "new_parent minp p st node_child_index n =
     (if \<not> p + 1 \<le> prefix_len (message n) then None
      else let n = set_message (message n\<lparr>min_prefix_len := p + 1\<rparr>) n;
               parent = set_child node_child_index (Some n)
                 (Node \<lparr>min_prefix_len = minp, stored = st, prefix_len = p, key = replicate KEY_LEN 0\<rparr> None None None)
           in do {
             m \<leftarrow> xor_children parent (message parent);
             Some (set_message m parent) })"

definition add_key_rank :: "nat \<Rightarrow> 'c node option \<Rightarrow> nat" where
  "add_key_rank p t = (case t of None \<Rightarrow> 0 | Some n \<Rightarrow> if prefix_len (message n) = p then 1 else 2)"

lemma sync_get_bits_below: "sync_get_bits p 1 k = Some b \<Longrightarrow> p < 63"
  by (auto simp: sync_get_bits_def split: if_splits)

lemma sync_xor_frame:
  assumes "sync_xor s d = Some m"
  shows "prefix_len m = prefix_len d" "min_prefix_len m = min_prefix_len d" "stored m = stored d" "length (key m) = 8"
  using assms by (auto simp: sync_xor_def Let_def split: if_splits)

lemma xor_children_frame:
  assumes "xor_children n d = Some m"
  shows "prefix_len m = prefix_len d \<and> min_prefix_len m = min_prefix_len d \<and> stored m = stored d"
  using assms
proof (induction n d arbitrary: m rule: xor_children.induct)
  case (1 m0 ctx l r dest)
  show ?case
  proof (cases "prefix_len m0 = KEY_LEN_BITS")
    case True
    then show ?thesis using 1(3) by (simp add: sync_xor_frame)
  next
    case False
    then obtain d1 where d1: "(case l of None \<Rightarrow> Some dest | Some n \<Rightarrow> xor_children n dest) = Some d1"
      "(case r of None \<Rightarrow> Some d1 | Some n \<Rightarrow> xor_children n d1) = Some m"
      using 1(3) by (auto simp: bind_eq_Some_conv)
    have "prefix_len d1 = prefix_len dest \<and> min_prefix_len d1 = min_prefix_len dest \<and> stored d1 = stored dest"
    proof (cases l)
      case (Some a)
      then show ?thesis using 1(1) [OF False Some, of d1] d1(1) by simp
    qed (use d1(1) in simp)
    then show ?thesis
    proof (cases r)
      case (Some a)
      with d1(2) have "xor_children a d1 = Some m" by simp
      from 1(2) [OF False d1(1) Some this] show ?thesis using \<open>prefix_len d1 = _ \<and> _\<close> by simp
    qed (use d1(2) in simp)
  qed
qed

lemma new_parent_prefix: "new_parent minp p st i n = Some q \<Longrightarrow> prefix_len (message q) = p"
  by (auto simp: new_parent_def Let_def set_message_def set_child_def bind_eq_Some_conv
      dest!: xor_children_frame simp del: xor_children.simps split: if_splits)

text \<open>The loop of \<^verbatim>\<open>add_key\<close>: the pointer \<open>node\<close> moves down, the tree above it is rebuilt on the way back.\<close>

function add_key_at :: "u8 list \<Rightarrow> 'c option \<Rightarrow> bool \<Rightarrow> nat \<Rightarrow> nat \<Rightarrow> 'c node option \<Rightarrow> 'c node option" where
  "add_key_at k ctx st p minp None =
     Some (Node \<lparr>min_prefix_len = minp, stored = st, prefix_len = KEY_LEN_BITS, key = k\<rparr> ctx None None)"
| "add_key_at k ctx st p minp (Some n) =
     Option.bind (sync_get_bits p 1 k) (\<lambda>child_index.
       if prefix_len (message n) = p then
         Option.bind (sync_xor k (message n)) (\<lambda>m.
         Option.bind (add_key_at k ctx st (p + 1) (p + 1) (children n child_index)) (\<lambda>c.
         Some (set_child child_index (Some c) (set_message m n))))
       else
         Option.bind (sync_get_bits p 1 (key (message n))) (\<lambda>node_child_index.
         if child_index = node_child_index then add_key_at k ctx st (p + 1) minp (Some n)
         else Option.bind (new_parent minp p st node_child_index n) (\<lambda>parent.
           add_key_at k ctx st p (p + 1) (Some parent))))"
  by pat_completeness auto
termination
  by (relation "measures [\<lambda>(k, ctx, st, p, minp, t). 64 - p, \<lambda>(k, ctx, st, p, minp, t). add_key_rank p t]")
    (auto simp: add_key_rank_def new_parent_prefix dest!: sync_get_bits_below [unfolded One_nat_def] split: option.split)

declare add_key_at.simps [simp del]

definition add_key :: "'c node option \<Rightarrow> u8 list \<Rightarrow> 'c option \<Rightarrow> bool \<Rightarrow> 'c node option" where
  "add_key root k ctx st = add_key_at k ctx st 0 0 root"

text \<open>\<^verbatim>\<open>remove_key\<close>: the leaf reached is freed whatever its key; its parent, which then has one child, is replaced by
  that child. The result is the tree that takes the node's place.\<close>

definition only_child :: "'c node \<Rightarrow> nat \<Rightarrow> 'c node option" where
  "only_child parent removed = (case children parent (1 - removed) of
     None \<Rightarrow> None
   | Some c \<Rightarrow> Some (set_message (message c\<lparr>min_prefix_len := min_prefix_len (message parent)\<rparr>) c))"

function remove_key_at :: "u8 list \<Rightarrow> nat \<Rightarrow> 'c node \<Rightarrow> 'c node option option" where
  "remove_key_at k p n =
     (if prefix_len (message n) = KEY_LEN_BITS then Some None
      else Option.bind (sync_get_bits p 1 k) (\<lambda>child_index.
        if p < prefix_len (message n)
        then Option.bind (sync_get_bits p 1 (key (message n))) (\<lambda>node_child_index.
          if child_index \<noteq> node_child_index then None else remove_key_at k (p + 1) n)
        else Option.bind (sync_xor k (message n)) (\<lambda>m.
          case children n child_index of
            None \<Rightarrow> None
          | Some c \<Rightarrow> Option.bind (remove_key_at k (p + 1) c) (\<lambda>r.
              case r of
                Some c' \<Rightarrow> Some (Some (set_child child_index (Some c') (set_message m n)))
              | None \<Rightarrow> map_option Some (only_child n child_index)))))"
  by pat_completeness auto
termination
  by (relation "measure (\<lambda>(k, p, n). 64 - p)") (auto dest!: sync_get_bits_below [unfolded One_nat_def])

declare remove_key_at.simps [simp del]

definition remove_key :: "'c node option \<Rightarrow> u8 list \<Rightarrow> 'c node option option" where
  "remove_key root k = (case root of None \<Rightarrow> None | Some n \<Rightarrow> remove_key_at k 0 n)"

text \<open>\<^verbatim>\<open>find_message\<close> returns a pointer into the tree: the path to the node, as child indices.\<close>

function find_message_at :: "key_message \<Rightarrow> nat \<Rightarrow> 'c node \<Rightarrow> nat list option option" where
  "find_message_at msg p n =
     (if cmp_message (message n) msg = 0 then Some (Some [])
      else if prefix_len (message n) = KEY_LEN_BITS then Some None
      else Option.bind (sync_get_bits p 1 (key msg)) (\<lambda>child_index.
        if p < prefix_len (message n)
        then Option.bind (sync_get_bits p 1 (key (message n))) (\<lambda>node_index.
          if node_index \<noteq> child_index then Some None else find_message_at msg (p + 1) n)
        else case children n child_index of
            None \<Rightarrow> Some None
          | Some c \<Rightarrow> map_option (map_option ((#) child_index)) (find_message_at msg (p + 1) c)))"
  by pat_completeness auto
termination
  by (relation "measure (\<lambda>(msg, p, n). 64 - p)") (auto dest!: sync_get_bits_below [unfolded One_nat_def])

declare find_message_at.simps [simp del]

definition find_message :: "'c node option \<Rightarrow> key_message \<Rightarrow> nat list option option" where
  "find_message root msg =
     (case root of None \<Rightarrow> Some None | Some n \<Rightarrow> find_message_at msg (prefix_len (message n)) n)"

fun node_at :: "'c node \<Rightarrow> nat list \<Rightarrow> 'c node option" where
  "node_at n [] = Some n"
| "node_at n (i # is) = Option.bind (children n i) (\<lambda>c. node_at c is)"

fun update_at :: "('c node \<Rightarrow> 'c node) \<Rightarrow> nat list \<Rightarrow> 'c node \<Rightarrow> 'c node" where
  "update_at f [] n = f n"
| "update_at f (i # is) n = set_child i (map_option (update_at f is) (children n i)) n"

definition add_key_if_missing :: "'c node option \<Rightarrow> key_message \<Rightarrow> bool \<Rightarrow> ('c node option \<times> bool) option" where
  "add_key_if_missing root msg st =
     (if prefix_len msg \<noteq> KEY_LEN_BITS then None
      else do {
        found \<leftarrow> find_message root msg;
        (if found \<noteq> None then Some (root, False)
         else do { t \<leftarrow> add_key root (key msg) None st; Some (Some t, True) }) })"

text \<open>The keys below a node, in the order of \<^verbatim>\<open>enum_diffs\<close> and \<^verbatim>\<open>xor_children\<close>, with their leaves.\<close>

fun leaf_nodes :: "'c node \<Rightarrow> (key_message \<times> 'c option) list" where
  "leaf_nodes (Node m ctx l r) =
     (if prefix_len m = KEY_LEN_BITS then [(m, ctx)]
      else (case l of None \<Rightarrow> [] | Some n \<Rightarrow> leaf_nodes n) @ (case r of None \<Rightarrow> [] | Some n \<Rightarrow> leaf_nodes n))"

definition leaves :: "'c node \<Rightarrow> u8 list list" where
  "leaves n = map (key \<circ> fst) (leaf_nodes n)"

section \<open>Bits of keys\<close>

lemma sync_get_bit:
  "sync_get_bits p 1 k = (if p < 63 then Some (of_bool (stream_bit k p)) else None)"
proof -
  have shift: "16 - p mod 8 - 1 = 15 - p mod 8" by simp
  have "unat (drop_bit (15 - p mod 8) w AND 1) = of_bool (bit w (15 - p mod 8))" for w :: u16
    by (simp add: and_one_eq mod_2_eq_odd bit_iff_odd_drop_bit)
  moreover have "bit (push_bit 8 (ucast x) :: u16) (15 - p mod 8) = bit x (7 - p mod 8)" for x :: u8
    by (auto simp: bit_push_bit_iff bit_ucast_iff)
  moreover have "\<not> bit (ucast x :: u16) (15 - p mod 8)" for x :: u8
    using bit_imp_le_length [of x "15 - p mod 8"] by (auto simp: bit_ucast_iff)
  ultimately show ?thesis
    by (simp add: sync_get_bits_def Let_def shift stream_bit_def bit_or_iff del: One_nat_def)
qed

lemma bit_ff00: "bit (0xff00 :: u16) n \<longleftrightarrow> 8 \<le> n \<and> n < 16"
proof -
  have "(0xff00 :: u16) = push_bit 8 (mask 8)" by (simp add: mask_eq_exp_minus_1 push_bit_eq_mult)
  then have "bit (0xff00 :: u16) n \<longleftrightarrow> bit (push_bit 8 (mask 8) :: u16) n" by (simp only:)
  also have "\<dots> \<longleftrightarrow> 8 \<le> n \<and> n < 16"
    unfolding bit_push_bit_iff bit_mask_iff by (auto simp: less_diff_conv2)
  finally show ?thesis .
qed

lemma sync_xor_bits:
  assumes "sync_xor s d = Some m" "j < 64"
  shows "stream_bit (key m) j =
    (if j < prefix_len d div 8 * 8 then stream_bit s j
     else if j < prefix_len d then stream_bit s j \<or> stream_bit (key d) j
     else stream_bit s j \<noteq> stream_bit (key d) j)"
proof -
  let ?p = "prefix_len d" and ?i = "j div 8" and ?b = "7 - j mod 8"
  have i: "?i < 8" using assms(2) by simp
  have whole: "j < ?p div 8 * 8 \<longleftrightarrow> ?i < ?p div 8" by (simp add: less_mult_imp_div_less div_less_iff_less_mult)
  have mask: "bit (ucast (drop_bit (?p mod 8) (0xff00 :: u16)) :: u8) ?b \<longleftrightarrow> j mod 8 < ?p mod 8"
  proof -
    have "bit (ucast (drop_bit (?p mod 8) (0xff00 :: u16)) :: u8) ?b \<longleftrightarrow> bit (0xff00 :: u16) (?p mod 8 + ?b)"
      using less_le_trans [of ?b 8] by (simp only: bit_ucast_iff bit_drop_bit_eq comp_def) (auto simp: less_Suc_eq_le)
    then show ?thesis using mod_less_divisor [of 8 j] mod_less_divisor [of 8 ?p] by (simp only: bit_ff00) auto
  qed
  have part: "j < ?p \<longleftrightarrow> j mod 8 < ?p mod 8" if "?i = ?p div 8"
    using that div_mult_mod_eq [of j 8] div_mult_mod_eq [of ?p 8] by (metis add_less_cancel_left)
  have above: "\<not> j < ?p" if "?i \<noteq> ?p div 8" "\<not> ?i < ?p div 8"
    using that div_le_mono [of j ?p 8] by linarith
  have exact: "\<not> j < ?p" if "?i = ?p div 8" "?p mod 8 = 0" using part [OF that(1)] that(2) by simp
  consider "?i < ?p div 8" | "?i = ?p div 8" "?p mod 8 = 0" | "?i = ?p div 8" "?p mod 8 \<noteq> 0" | "?i \<noteq> ?p div 8" "\<not> ?i < ?p div 8" by blast
  then show ?thesis
  proof cases
    case 1 with assms(1) i whole show ?thesis by (auto simp: sync_xor_def Let_def stream_bit_def split: if_splits)
  next
    case 2 with assms(1) i whole exact show ?thesis by (auto simp: sync_xor_def Let_def stream_bit_def bit_xor_iff split: if_splits)
  next
    case 3 with assms(1) i whole mask part show ?thesis
      by (auto simp: sync_xor_def Let_def stream_bit_def bit_and_iff bit_or_iff bit_xor_iff split: if_splits)
  next
    case 4 with assms(1) i whole above show ?thesis by (auto simp: sync_xor_def Let_def stream_bit_def bit_xor_iff split: if_splits)
  qed
qed

lemma byte_eqI: "(\<And>b. b < 8 \<Longrightarrow> bit x b = bit y b) \<Longrightarrow> (x :: u8) = y"
  by (rule bit_word_eqI) simp

lemma key_eqI:
  assumes "length k = 8" "length k' = 8" "\<And>j. j < 64 \<Longrightarrow> stream_bit k j = stream_bit k' j"
  shows "k = k'"
proof (rule nth_equalityI)
  fix i assume "i < length k"
  then have i: "i < 8" using assms(1) by simp
  show "k ! i = k' ! i"
  proof (rule byte_eqI)
    fix b :: nat assume b: "b < 8"
    define c where "c = 7 - b"
    have c: "c < 8" "7 - c = b" using b by (auto simp: c_def)
    have "(8 * i + c) div 8 = i" "(8 * i + c) mod 8 = c" "8 * i + c < 64" using c(1) i by auto
    with assms(3) [of "8 * i + c"] c(2) show "bit (k ! i) b = bit (k' ! i) b" by (simp add: stream_bit_def)
  qed
qed (use assms in simp)

lemma memcmp_0: "length xs = length ys \<Longrightarrow> memcmp xs ys = 0 \<longleftrightarrow> xs = ys"
  by (induction xs ys rule: memcmp.induct) (auto simp: word_uint_eq_iff)

lemma cmp_message_refl: "cmp_message m m = 0"
  by (simp add: cmp_message_def Let_def memcmp_0)

end
