(* ===== verification/KeySet.thy ===== *)
theory KeySet
  imports Main
begin

text \<open>
  The interface of a set of keys that peers compare through what they can see of it. Adding a key is only
  promised for a key that is valid and can be told \<open>apart\<close> from those present; what is seen depends on
  the keys alone. So the order in which two peers learnt their keys does not matter, and a key that is taken
  out again leaves no trace.
\<close>

locale key_set =
  fixes inv :: "'t \<Rightarrow> bool"
    and keys :: "'t \<Rightarrow> 'k set"
    and empty :: 't
    and add :: "'k \<Rightarrow> 't \<Rightarrow> 't option"
    and remove :: "'k \<Rightarrow> 't \<Rightarrow> 't option"
    and seen :: "'t \<Rightarrow> 'v"
    and valid :: "'k \<Rightarrow> bool"
    and apart :: "'k \<Rightarrow> 'k \<Rightarrow> bool"
  assumes empty_ok: "inv empty" "keys empty = {}"
    and add_ok: "inv t \<Longrightarrow> valid k \<Longrightarrow> \<forall>x \<in> keys t. apart k x \<Longrightarrow>
      \<exists>t'. add k t = Some t' \<and> inv t' \<and> keys t' = insert k (keys t)"
    and remove_ok: "inv t \<Longrightarrow> k \<in> keys t \<Longrightarrow> \<exists>t'. remove k t = Some t' \<and> inv t' \<and> keys t' = keys t - {k}"
    and seen_keys: "inv t \<Longrightarrow> inv t' \<Longrightarrow> keys t = keys t' \<Longrightarrow> seen t = seen t'"
begin

primrec add_all :: "'k list \<Rightarrow> 't \<Rightarrow> 't option" where
  "add_all [] t = Some t"
| "add_all (k # ks) t = Option.bind (add k t) (add_all ks)"

lemma add_all_ok:
  assumes "inv t" "\<forall>k \<in> set ks. valid k" "sorted_wrt (\<lambda>x y. apart y x) ks" "\<forall>k \<in> set ks. \<forall>x \<in> keys t. apart k x"
  shows "\<exists>t'. add_all ks t = Some t' \<and> inv t' \<and> keys t' = keys t \<union> set ks"
  using assms
proof (induction ks arbitrary: t)
  case (Cons k ks)
  obtain t1 where t1: "add k t = Some t1" "inv t1" "keys t1 = insert k (keys t)"
    using add_ok [OF Cons.prems(1), of k] Cons.prems by auto
  from Cons.IH [OF t1(2)] t1(3) Cons.prems obtain t2 where "add_all ks t1 = Some t2" "inv t2" "keys t2 = keys t1 \<union> set ks" by auto
  with t1 show ?case by auto
qed simp

lemma order_independent:
  assumes "\<forall>k \<in> set ks. valid k" "sorted_wrt (\<lambda>x y. apart y x) ks" "sorted_wrt (\<lambda>x y. apart y x) ls" "set ks = set ls"
  shows "\<exists>s t. add_all ks empty = Some s \<and> add_all ls empty = Some t \<and> seen s = seen t"
proof -
  obtain s where s: "add_all ks empty = Some s" "inv s" "keys s = set ks"
    using add_all_ok [of empty ks] empty_ok assms by auto
  obtain t where t: "add_all ls empty = Some t" "inv t" "keys t = set ls"
    using add_all_ok [of empty ls] empty_ok assms by auto
  from s t assms(4) seen_keys [of s t] show ?thesis by simp
qed

lemma add_remove:
  assumes "inv t" "valid k" "\<forall>x \<in> keys t. apart k x" "k \<notin> keys t"
  shows "\<exists>t1 t2. add k t = Some t1 \<and> remove k t1 = Some t2 \<and> inv t2 \<and> keys t2 = keys t \<and> seen t2 = seen t"
proof -
  obtain t1 where t1: "add k t = Some t1" "inv t1" "keys t1 = insert k (keys t)"
    using add_ok [OF assms(1-3)] by blast
  obtain t2 where t2: "remove k t1 = Some t2" "inv t2" "keys t2 = keys t1 - {k}"
    using remove_ok [OF t1(2), of k] t1(3) by blast
  have "keys t2 = keys t" using t1(3) t2(3) assms(4) by auto
  with t1 t2 seen_keys [OF t2(2) assms(1)] show ?thesis by simp
qed

end

end
