(* ===== verification/SyncInvariant.thy ===== *)
theory SyncInvariant
  imports SyncTree KeySet
begin

text \<open>
  The tree of \<^verbatim>\<open>sync_keys.cpp\<close> is a set of keys with a canonical shape: the invariant of the tree is kept by
  adding and removing keys, looking a key up never misses it, and two trees with the same keys agree in every
  message, however they were built. The tree is an instance of the interface \<open>key_set\<close>.
\<close>

section \<open>The invariant of the tree\<close>

text \<open>\<open>summary p M k\<close>: the keys of \<open>M\<close> share their first \<open>p\<close> bits, which are the first \<open>p\<close> bits of \<open>k\<close>, and the
  other bits of \<open>k\<close> are the exclusive or of theirs. The summary of no key is zero.\<close>

definition agreeing :: "nat \<Rightarrow> u8 list multiset \<Rightarrow> bool" where
  "agreeing p M \<longleftrightarrow> (\<forall>x \<in># M. \<forall>y \<in># M. \<forall>j < p. stream_bit x j = stream_bit y j)"

definition summary :: "nat \<Rightarrow> u8 list multiset \<Rightarrow> u8 list \<Rightarrow> bool" where
  "summary p M k \<longleftrightarrow> length k = 8 \<and> agreeing p M \<and> (\<forall>j < 64. stream_bit k j =
     (if j < p then \<exists>x \<in># M. stream_bit x j else odd (size (filter_mset (\<lambda>x. stream_bit x j) M))))"

lemma agreeing_subset: "agreeing p M \<Longrightarrow> N \<subseteq># M \<Longrightarrow> agreeing p N"
  unfolding agreeing_def by (meson mset_subset_eqD)

lemma agreeing_less: "agreeing p M \<Longrightarrow> q \<le> p \<Longrightarrow> agreeing q M"
  unfolding agreeing_def by (meson order_less_le_trans)

lemma agreeingD: "agreeing p M \<Longrightarrow> x \<in># M \<Longrightarrow> y \<in># M \<Longrightarrow> j < p \<Longrightarrow> stream_bit x j = stream_bit y j"
  unfolding agreeing_def by blast

lemma summary_empty: "summary p {#} (replicate 8 0)"
proof -
  have "replicate 8 (0 :: u8) ! (j div 8) = 0" if "j < 64" for j :: nat using that by (subst nth_replicate) auto
  then show ?thesis by (simp add: summary_def agreeing_def stream_bit_def)
qed

lemma summary_unique:
  assumes "summary p M k" "summary p M k'"
  shows "k = k'"
  using assms by (intro key_eqI) (simp_all add: summary_def)

lemma sync_xor_insert:
  assumes "summary (prefix_len d) M (key d)" "agreeing (prefix_len d) (add_mset k M)" "prefix_len d < 64"
  shows "\<exists>m. sync_xor k d = Some m \<and> summary (prefix_len d) (add_mset k M) (key m)"
proof -
  obtain m where m: "sync_xor k d = Some m" using assms(3) by (simp add: sync_xor_def Let_def)
  have "stream_bit (key m) j = (if j < prefix_len d then \<exists>x \<in># add_mset k M. stream_bit x j
      else odd (size (filter_mset (\<lambda>x. stream_bit x j) (add_mset k M))))" if "j < 64" for j
  proof -
    have whole: "stream_bit k j \<longleftrightarrow> (\<exists>x \<in># add_mset k M. stream_bit x j)" if "j < prefix_len d"
      using agreeingD [OF assms(2) _ _ that, of k] by auto
    have le: "j < prefix_len d" if "j < prefix_len d div 8 * 8" using that by (meson div_times_less_eq_dividend order_less_le_trans)
    have d: "stream_bit (key d) j = (if j < prefix_len d then \<exists>x \<in># M. stream_bit x j
      else odd (size (filter_mset (\<lambda>x. stream_bit x j) M)))" using assms(1) \<open>j < 64\<close> by (simp add: summary_def)
    show ?thesis
      unfolding sync_xor_bits [OF m \<open>j < 64\<close>] d using whole le by auto
  qed
  with m assms(2) show ?thesis by (auto simp: summary_def sync_xor_frame(4) [OF m])
qed

lemma sync_xor_delete:
  assumes "summary (prefix_len d) (add_mset k M) (key d)" "M \<noteq> {#}" "prefix_len d < 64"
  shows "\<exists>m. sync_xor k d = Some m \<and> summary (prefix_len d) M (key m)"
proof -
  obtain m where m: "sync_xor k d = Some m" using assms(3) by (simp add: sync_xor_def Let_def)
  have ag: "agreeing (prefix_len d) (add_mset k M)" using assms(1) by (simp add: summary_def)
  obtain y where y: "y \<in># M" using assms(2) by blast
  have "stream_bit (key m) j = (if j < prefix_len d then \<exists>x \<in># M. stream_bit x j
      else odd (size (filter_mset (\<lambda>x. stream_bit x j) M)))" if "j < 64" for j
  proof -
    have whole: "stream_bit k j \<longleftrightarrow> (\<exists>x \<in># M. stream_bit x j)" if "j < prefix_len d"
      using agreeingD [OF ag _ _ that, of k] y by auto
    have le: "j < prefix_len d" if "j < prefix_len d div 8 * 8" using that by (meson div_times_less_eq_dividend order_less_le_trans)
    have d: "stream_bit (key d) j = (if j < prefix_len d then \<exists>x \<in># add_mset k M. stream_bit x j
      else odd (size (filter_mset (\<lambda>x. stream_bit x j) (add_mset k M))))" using assms(1) \<open>j < 64\<close> by (simp add: summary_def)
    show ?thesis
      unfolding sync_xor_bits [OF m \<open>j < 64\<close>] d using whole le by auto
  qed
  with m agreeing_subset [OF ag, of M] show ?thesis by (auto simp: summary_def sync_xor_frame(4) [OF m])
qed

lemma leaves_simps [simp]:
  "prefix_len m = 64 \<Longrightarrow> leaves (Node m ctx l r) = [key m]"
  "prefix_len m \<noteq> 64 \<Longrightarrow> leaves (Node m ctx (Some a) (Some b)) = leaves a @ leaves b"
  "prefix_len m \<noteq> 64 \<Longrightarrow> leaves (Node m ctx (Some a) None) = leaves a"
  "prefix_len m \<noteq> 64 \<Longrightarrow> leaves (Node m ctx None (Some b)) = leaves b"
  by (simp_all add: leaves_def)

text \<open>\<open>wf_node d n\<close>: the tree \<open>n\<close> hangs at depth \<open>d\<close>. Inner nodes have two children, which differ in the first bit
  after the node's prefix, and the summary of the keys below them.\<close>

inductive wf_node :: "nat \<Rightarrow> 'c node \<Rightarrow> bool" where
  wf_leaf: "prefix_len m = 64 \<Longrightarrow> length (key m) = 8 \<Longrightarrow> min_prefix_len m = d \<Longrightarrow> d \<le> 63 \<Longrightarrow>
     wf_node d (Node m ctx None None)"
| wf_inner: "wf_node (p + 1) a \<Longrightarrow> wf_node (p + 1) b \<Longrightarrow> prefix_len m = p \<Longrightarrow> p < 63 \<Longrightarrow>
     min_prefix_len m = d \<Longrightarrow> d \<le> p \<Longrightarrow>
     \<forall>k \<in> set (leaves a). \<not> stream_bit k p \<Longrightarrow> \<forall>k \<in> set (leaves b). stream_bit k p \<Longrightarrow>
     summary p (mset (leaves a) + mset (leaves b)) (key m) \<Longrightarrow> wf_node d (Node m ctx (Some a) (Some b))"

lemma wf_node_leaves:
  assumes "wf_node d n"
  shows "leaves n \<noteq> []" "distinct (leaves n)" "\<forall>k \<in> set (leaves n). length k = 8"
  using assms by (induction) auto

lemma wf_node_bounds:
  assumes "wf_node d n"
  shows "d \<le> prefix_len (message n)" "min_prefix_len (message n) = d" "prefix_len (message n) = 64 \<or> prefix_len (message n) < 63"
    "d \<le> 63" "length (key (message n)) = 8"
  using assms by (cases rule: wf_node.cases; simp add: summary_def)+

lemma wf_node_prefix:
  assumes "wf_node d n" "x \<in> set (leaves n)" "j < prefix_len (message n)" "j < 64"
  shows "stream_bit (key (message n)) j = stream_bit x j"
  using assms(1)
proof (cases rule: wf_node.cases)
  case (wf_leaf m ctx)
  with assms(2) show ?thesis by simp
next
  case (wf_inner p a b m ctx)
  then have x: "x \<in># mset (leaves a) + mset (leaves b)" using assms(2) by auto
  have s: "stream_bit (key m) j \<longleftrightarrow> (\<exists>x \<in># mset (leaves a) + mset (leaves b). stream_bit x j)"
    and ag: "agreeing p (mset (leaves a) + mset (leaves b))"
    using wf_inner assms(3,4) by (simp_all add: summary_def)
  have "stream_bit y j = stream_bit x j" if "y \<in># mset (leaves a) + mset (leaves b)" for y
    using agreeingD [OF ag that x] wf_inner assms(3) by simp
  with s x have "stream_bit (key m) j = stream_bit x j" by blast
  then show ?thesis using wf_inner(1) by simp
qed

lemma wf_node_rehang:
  assumes "wf_node d n" "d' \<le> prefix_len (message n)" "d' \<le> 63"
  shows "wf_node d' (set_message (message n\<lparr>min_prefix_len := d'\<rparr>) n)" "leaves (set_message (message n\<lparr>min_prefix_len := d'\<rparr>) n) = leaves n"
  using assms by (cases rule: wf_node.cases; simp add: set_message_def wf_node.intros)+

lemma xor_children_summary:
  assumes "wf_node d n" "summary (prefix_len dest) M (key dest)" "agreeing (prefix_len dest) (M + mset (leaves n))"
    "prefix_len dest < 64"
  shows "\<exists>m. xor_children n dest = Some m \<and> summary (prefix_len dest) (M + mset (leaves n)) (key m)"
  using assms
proof (induction d n arbitrary: dest M rule: wf_node.induct)
  case (wf_leaf m d ctx)
  then show ?case using sync_xor_insert [of dest M "key m"] by auto
next
  case (wf_inner p a b m d ctx)
  have ne: "prefix_len m \<noteq> 64" using wf_inner by simp
  have "agreeing (prefix_len dest) (M + mset (leaves a))"
    using wf_inner.prems(2) ne by (elim agreeing_subset) simp
  from wf_inner.IH(1) [OF wf_inner.prems(1) this wf_inner.prems(3)] obtain m1 where
    m1: "xor_children a dest = Some m1" "summary (prefix_len dest) (M + mset (leaves a)) (key m1)" by blast
  have pl: "prefix_len m1 = prefix_len dest" using xor_children_frame [OF m1(1)] by simp
  with wf_inner.IH(2) [of m1 "M + mset (leaves a)"] m1 wf_inner.prems ne show ?case by (auto simp: add.assoc)
qed

section \<open>Adding a key\<close>

lemma child_simps [simp]:
  "children (Node m ctx l r) (of_bool b) = (if b then r else l)"
  "set_child (of_bool b) c (Node m ctx l r) = (if b then Node m ctx l c else Node m ctx c r)"
  "children (Node m ctx l r) 0 = l" "children (Node m ctx l r) 1 = r" "children (Node m ctx l r) (Suc 0) = r"
  "set_child 0 c (Node m ctx l r) = Node m ctx c r" "set_child 1 c (Node m ctx l r) = Node m ctx l c"
  "set_child (Suc 0) c (Node m ctx l r) = Node m ctx l c"
  "set_message m' (Node m ctx l r) = Node m' ctx l r"
  by (simp_all add: children_def set_child_def set_message_def)

lemma agreeing_leaves:
  assumes "wf_node d n" "p \<le> prefix_len (message n)" "p \<le> 64"
  shows "agreeing p (mset (leaves n))"
  unfolding agreeing_def
proof (intro ballI allI impI)
  fix x y j assume "x \<in># mset (leaves n)" "y \<in># mset (leaves n)" "j < p"
  then show "stream_bit x j = stream_bit y j"
    using wf_node_prefix [OF assms(1), of x j] wf_node_prefix [OF assms(1), of y j] assms(2,3) by auto
qed

lemma agreeing_insert:
  assumes "agreeing p M" "\<forall>x \<in># M. \<forall>j < p. stream_bit k j = stream_bit x j"
  shows "agreeing p (add_mset k M)"
  using assms unfolding agreeing_def by (metis insert_iff set_mset_add_mset_insert)

text \<open>A node of the tree put below a new parent at the first bit \<open>p\<close> where the new key differs.\<close>

lemma new_parent_ok:
  assumes wf: "wf_node d n" and p: "p < prefix_len (message n)" "p < 63"
  defines "n' \<equiv> set_message (message n\<lparr>min_prefix_len := p + 1\<rparr>) n"
  shows "\<exists>m. new_parent d p st (of_bool b) n = Some (set_child (of_bool b) (Some n') (Node m None None None)) \<and>
    prefix_len m = p \<and> min_prefix_len m = d \<and> summary p (mset (leaves n)) (key m)"
proof -
  let ?m0 = "\<lparr>min_prefix_len = d, stored = st, prefix_len = p, key = replicate 8 0\<rparr>"
  have wf': "wf_node (p + 1) n'" and lv: "leaves n' = leaves n"
    using wf_node_rehang [OF wf, of "p + 1"] p by (auto simp: n'_def)
  have "agreeing p (mset (leaves n))" using agreeing_leaves [OF wf, of p] p by simp
  with xor_children_summary [OF wf', of ?m0 "{#}"] summary_empty [of p] p(2)
  obtain m where m: "xor_children n' ?m0 = Some m" "summary p (mset (leaves n)) (key m)" by (auto simp: lv)
  have "xor_children (set_child (of_bool b) (Some n') (Node ?m0 None None None)) ?m0 = Some m"
    using m(1) p(2) by simp
  with m xor_children_frame [OF m(1)] p show ?thesis
    by (intro exI [of _ m]) (cases b, simp_all add: new_parent_def Let_def n'_def [symmetric] del: xor_children.simps One_nat_def)
qed

lemma add_key_split:
  assumes wf: "wf_node d n" and p: "d \<le> p" "p < prefix_len (message n)" "p < 63"
    and k: "length k = 8" "\<forall>x \<in> set (leaves n). \<forall>j < p. stream_bit k j = stream_bit x j"
    and differ: "\<forall>x \<in> set (leaves n). stream_bit x p = b" "stream_bit k p = (\<not> b)"
  shows "\<exists>t. Option.bind (new_parent d p st (of_bool b) n) (\<lambda>q. add_key_at k ctx st p (p + 1) (Some q)) = Some t \<and>
    wf_node d t \<and> mset (leaves t) = add_mset k (mset (leaves n))"
proof -
  define n' where "n' = set_message (message n\<lparr>min_prefix_len := p + 1\<rparr>) n"
  define leaf where "leaf = Node \<lparr>min_prefix_len = p + 1, stored = st, prefix_len = 64, key = k\<rparr> ctx None None"
  have n': "wf_node (p + 1) n'" "leaves n' = leaves n"
    using wf_node_rehang [OF wf, of "p + 1"] p by (auto simp: n'_def)
  have leaf: "wf_node (p + 1) leaf" "leaves leaf = [k]" using p k by (auto simp: leaf_def intro: wf_leaf)
  obtain m where q: "new_parent d p st (of_bool b) n = Some (set_child (of_bool b) (Some n') (Node m None None None))"
    and m: "prefix_len m = p" "min_prefix_len m = d" "summary p (mset (leaves n)) (key m)"
    using new_parent_ok [OF wf p(2,3), of st b] by (auto simp: n'_def)
  have "agreeing p (add_mset k (mset (leaves n)))"
    using agreeing_leaves [OF wf, of p] k(2) p by (intro agreeing_insert) auto
  with sync_xor_insert [of m "mset (leaves n)" k] m p(3)
  obtain m' where m': "sync_xor k m = Some m'" "summary p (add_mset k (mset (leaves n))) (key m')" by auto
  note fr = sync_xor_frame [OF m'(1)]
  have "Option.bind (new_parent d p st (of_bool b) n) (\<lambda>q. add_key_at k ctx st p (p + 1) (Some q)) =
      Some (if b then Node m' None (Some leaf) (Some n') else Node m' None (Some n') (Some leaf))"
    unfolding q Option.bind.simps using m(1) m'(1) p(3) differ(2)
    by (cases b) (simp_all add: add_key_at.simps sync_get_bit leaf_def del: One_nat_def)
  moreover have "wf_node d (if b then Node m' None (Some leaf) (Some n') else Node m' None (Some n') (Some leaf))"
    using n' leaf fr m m' p differ by (auto intro!: wf_inner)
  moreover have "mset (leaves (if b then Node m' None (Some leaf) (Some n') else Node m' None (Some n') (Some leaf))) =
      add_mset k (mset (leaves n))"
    using n'(2) leaf(2) fr m p(3) by auto
  ultimately show ?thesis by blast
qed

lemma add_key_at_ok:
  assumes "wf_node d n" "d \<le> p" "p \<le> prefix_len (message n)" "length k = 8"
    and "\<forall>x \<in> set (leaves n). \<forall>j < p. stream_bit k j = stream_bit x j"
    and "\<forall>x \<in> set (leaves n). \<exists>j < 63. stream_bit k j \<noteq> stream_bit x j"
  shows "\<exists>t. add_key_at k ctx st p d (Some n) = Some t \<and> wf_node d t \<and> mset (leaves t) = add_mset k (mset (leaves n))"
  using assms
proof (induction "64 - p" arbitrary: p d n rule: less_induct)
  case less
  note wf = less.prems(1)
  obtain x where x: "x \<in> set (leaves n)" using wf_node_leaves(1) [OF wf] by (cases "leaves n") auto
  have p: "p < 63" using less.prems(5,6) x by (meson not_le order_less_le_trans)
  have step: "64 - (p + 1) < 64 - p" using p by linarith
  have bit: "sync_get_bits p 1 k = Some (of_bool (stream_bit k p))" using p by (simp only: sync_get_bit if_True)
  show ?case
  proof (cases "prefix_len (message n) = p")
    case False
    then have lt: "p < prefix_len (message n)" using less.prems(3) by simp
    let ?b = "stream_bit (key (message n)) p"
    have all: "stream_bit y p = ?b" if "y \<in> set (leaves n)" for y
      using wf_node_prefix [OF wf that lt] p by simp
    have nbit: "sync_get_bits p 1 (key (message n)) = Some (of_bool ?b)" using p by (simp only: sync_get_bit if_True)
    show ?thesis
    proof (cases "stream_bit k p = ?b")
      case True
      have "\<forall>x \<in> set (leaves n). \<forall>j < p + 1. stream_bit k j = stream_bit x j"
        using less.prems(5) all True less_Suc_eq by auto
      with less.hyps [OF step, of d n] less.prems lt p
      obtain t where "add_key_at k ctx st (p + 1) d (Some n) = Some t" "wf_node d t"
        "mset (leaves t) = add_mset k (mset (leaves n))" by auto
      moreover have "add_key_at k ctx st p d (Some n) = add_key_at k ctx st (p + 1) d (Some n)"
        using False True by (subst add_key_at.simps) (simp add: bit nbit del: One_nat_def)
      ultimately show ?thesis by simp
    next
      case neq: False
      have "add_key_at k ctx st p d (Some n) =
          Option.bind (new_parent d p st (of_bool ?b) n) (\<lambda>q. add_key_at k ctx st p (p + 1) (Some q))"
        using False neq by (subst add_key_at.simps) (simp add: bit nbit del: One_nat_def)
      with add_key_split [OF wf less.prems(2) lt p less.prems(4,5), of ?b st ctx] all neq show ?thesis by auto
    qed
  next
    case True
    with wf p obtain a b m ctx' where n: "n = Node m ctx' (Some a) (Some b)" and ab: "wf_node (p + 1) a" "wf_node (p + 1) b"
      and m: "prefix_len m = p" "min_prefix_len m = d" and side: "\<forall>k \<in> set (leaves a). \<not> stream_bit k p"
        "\<forall>k \<in> set (leaves b). stream_bit k p" and sum: "summary p (mset (leaves a) + mset (leaves b)) (key m)"
      by (cases rule: wf_node.cases) auto
    have lv: "leaves n = leaves a @ leaves b" using n m p by simp
    have "agreeing p (add_mset k (mset (leaves n)))"
      using agreeing_leaves [OF wf, of p] less.prems(5) p True by (intro agreeing_insert) auto
    with sync_xor_insert [of m "mset (leaves n)" k] m sum p lv
    obtain m' where m': "sync_xor k m = Some m'" "summary p (add_mset k (mset (leaves n))) (key m')" by auto
    note fr = sync_xor_frame [OF m'(1)]
    let ?c = "if stream_bit k p then b else a"
    have wc: "wf_node (p + 1) ?c" and sub: "set (leaves ?c) \<subseteq> set (leaves n)" using ab lv by auto
    have "\<forall>x \<in> set (leaves ?c). \<forall>j < p + 1. stream_bit k j = stream_bit x j"
    proof (intro ballI allI impI)
      fix x j assume x: "x \<in> set (leaves ?c)" and j: "j < p + 1"
      have "stream_bit x p = stream_bit k p" using x side by (auto split: if_splits)
      with less.prems(5) x sub j show "stream_bit k j = stream_bit x j" by (cases "j = p") auto
    qed
    from less.hyps [OF step wc order_refl wf_node_bounds(1) [OF wc] less.prems(4) this] less.prems(6) sub
    obtain c where c: "add_key_at k ctx st (p + 1) (p + 1) (Some ?c) = Some c" "wf_node (p + 1) c"
      "mset (leaves c) = add_mset k (mset (leaves ?c))" by blast
    have st: "set (leaves c) = insert k (set (leaves ?c))" using c(3) by (metis set_mset_add_mset_insert set_mset_mset)
    let ?t = "if stream_bit k p then Node m' ctx' (Some a) (Some c) else Node m' ctx' (Some c) (Some b)"
    have "add_key_at k ctx st p d (Some n) = Some ?t"
      using m m'(1) c(1) by (subst add_key_at.simps, cases "stream_bit k p") (simp_all add: bit n del: One_nat_def)
    moreover have "wf_node d ?t"
      using ab c(2,3) st fr m m'(2) less.prems(2) p side lv
      by (cases "stream_bit k p") (auto intro!: wf_inner)
    moreover have "mset (leaves ?t) = add_mset k (mset (leaves n))"
      using c(3) fr m p lv by auto
    ultimately show ?thesis by blast
  qed
qed

section \<open>Removing a key\<close>

text \<open>The node that holds \<open>k\<close> below an inner node, and the rest.\<close>

lemma wf_inner_sides:
  assumes "wf_node d n" "prefix_len (message n) \<noteq> 64"
  obtains m ctx a b where "n = Node m ctx (Some a) (Some b)" "wf_node (prefix_len m + 1) a" "wf_node (prefix_len m + 1) b"
    "prefix_len m < 63" "min_prefix_len m = d" "d \<le> prefix_len m"
    "\<forall>k \<in> set (leaves a). \<not> stream_bit k (prefix_len m)" "\<forall>k \<in> set (leaves b). stream_bit k (prefix_len m)"
    "summary (prefix_len m) (mset (leaves a) + mset (leaves b)) (key m)" "leaves n = leaves a @ leaves b"
  using assms by (cases rule: wf_node.cases) auto

lemma remove_key_at_ok:
  assumes "wf_node d n" "d \<le> p" "p \<le> prefix_len (message n)" "k \<in> set (leaves n)"
  shows "\<exists>r. remove_key_at k p n = Some r \<and>
    (case r of None \<Rightarrow> leaves n = [k] | Some t \<Rightarrow> wf_node d t \<and> mset (leaves n) = add_mset k (mset (leaves t)))"
  using assms
proof (induction "64 - p" arbitrary: p d n rule: less_induct)
  case less
  note wf = less.prems(1)
  show ?case
  proof (cases "prefix_len (message n) = 64")
    case True
    with wf less.prems(4) show ?thesis by (cases rule: wf_node.cases) (auto simp: remove_key_at.simps)
  next
    case False
    then obtain m ctx a b where n: "n = Node m ctx (Some a) (Some b)" and ab: "wf_node (prefix_len m + 1) a" "wf_node (prefix_len m + 1) b"
      and m: "prefix_len m < 63" "min_prefix_len m = d" "d \<le> prefix_len m"
      and side: "\<forall>k \<in> set (leaves a). \<not> stream_bit k (prefix_len m)" "\<forall>k \<in> set (leaves b). stream_bit k (prefix_len m)"
      and sum: "summary (prefix_len m) (mset (leaves a) + mset (leaves b)) (key m)" and lv: "leaves n = leaves a @ leaves b"
      using wf_inner_sides [OF wf] by metis
    have p: "p < 63" using less.prems(3) m n by simp
    then have step: "64 - (p + 1) < 64 - p" by linarith
    have bit: "sync_get_bits p 1 k = Some (of_bool (stream_bit k p))" using p by (simp only: sync_get_bit if_True)
    show ?thesis
    proof (cases "p < prefix_len m")
      case True
      have "sync_get_bits p 1 (key m) = Some (of_bool (stream_bit k p))"
        using wf_node_prefix [OF wf less.prems(4), of p] True p n by (simp only: sync_get_bit if_True) simp
      then have "remove_key_at k p n = remove_key_at k (p + 1) n"
        using True m n by (subst remove_key_at.simps) (simp add: bit del: One_nat_def)
      moreover have "d \<le> p + 1" "p + 1 \<le> prefix_len (message n)" using True less.prems(2) n by simp_all
      ultimately show ?thesis using less.hyps [OF step wf _ _ less.prems(4)] by simp
    next
      case False
      then have pm: "prefix_len m = p" using less.prems(3) n by simp
      let ?c = "if stream_bit k p then b else a" and ?o = "if stream_bit k p then a else b"
      have c: "wf_node (p + 1) ?c" "wf_node (p + 1) ?o" "k \<in> set (leaves ?c)"
        using ab pm side less.prems(4) lv by auto
      have ms: "mset (leaves n) = mset (leaves ?c) + mset (leaves ?o)" using lv by simp
      obtain r where r: "remove_key_at k (p + 1) ?c = Some r" and
        rest: "case r of None \<Rightarrow> leaves ?c = [k] | Some t \<Rightarrow> wf_node (p + 1) t \<and> mset (leaves ?c) = add_mset k (mset (leaves t))"
        using less.hyps [OF step c(1) order_refl wf_node_bounds(1) [OF c(1)] c(3)] by blast
      obtain m' where m': "sync_xor k m = Some m'" using m by (simp add: sync_xor_def Let_def)
      have rem: "remove_key_at k p n = (case r of
          Some c' \<Rightarrow> Some (Some (if stream_bit k p then Node m' ctx (Some a) (Some c') else Node m' ctx (Some c') (Some b)))
        | None \<Rightarrow> Some (Some (set_message (message ?o\<lparr>min_prefix_len := d\<rparr>) ?o)))"
        using pm m m' n r by (subst remove_key_at.simps, cases "stream_bit k p")
          (simp_all add: bit only_child_def split: option.split del: One_nat_def)
      show ?thesis
      proof (cases r)
        case None
        have "wf_node d (set_message (message ?o\<lparr>min_prefix_len := d\<rparr>) ?o)" "leaves (set_message (message ?o\<lparr>min_prefix_len := d\<rparr>) ?o) = leaves ?o"
          using wf_node_rehang [OF c(2), of d] wf_node_bounds(1) [OF c(2)] m pm by (simp_all del: if_split)
        with rem None rest ms show ?thesis by (simp del: if_split)
      next
        case (Some t)
        then have t: "wf_node (p + 1) t" "mset (leaves ?c) = add_mset k (mset (leaves t))" using rest by simp_all
        have st: "set (leaves ?c) = insert k (set (leaves t))" using t(2) by (metis set_mset_add_mset_insert set_mset_mset)
        let ?t = "if stream_bit k p then Node m' ctx (Some a) (Some t) else Node m' ctx (Some t) (Some b)"
        note fr = sync_xor_frame [OF m']
        have "mset (leaves a) + mset (leaves b) = add_mset k (mset (leaves ?o) + mset (leaves t))"
          using ms t(2) lv by simp
        with sync_xor_delete [of m k "mset (leaves ?o) + mset (leaves t)"] sum m m' wf_node_leaves(1) [OF t(1)] pm
        have sum': "summary p (mset (leaves ?o) + mset (leaves t)) (key m')" by (auto simp del: if_split)
        have "wf_node d ?t"
          using ab t st fr m pm side sum' by (cases "stream_bit k p") (auto intro!: wf_inner simp: add.commute)
        moreover have "mset (leaves n) = add_mset k (mset (leaves ?t))"
          using ms t(2) fr pm m lv by (cases "stream_bit k p") auto
        ultimately show ?thesis using rem Some by simp
      qed
    qed
  qed
qed

section \<open>Looking up a key\<close>

lemma cmp_message_same_key:
  assumes "prefix_len m = 64" "prefix_len m' = 64" "min_prefix_len m \<le> 64" "min_prefix_len m' \<le> 64"
    "length (key m) = length (key m')"
  shows "cmp_message m m' = 0 \<longleftrightarrow> key m = key m'"
  using assms by (simp add: cmp_message_def Let_def xor_begin_def memcmp_0 max_def)

text \<open>A node at which the search for a key stops.\<close>

definition hit :: "key_message \<Rightarrow> 'c node \<Rightarrow> nat list \<Rightarrow> bool" where
  "hit msg n path \<longleftrightarrow> (\<exists>n'. node_at n path = Some n' \<and> cmp_message (message n') msg = 0)"

lemma find_message_at_ok:
  assumes "wf_node d n" "p \<le> prefix_len (message n)"
  shows "\<exists>r. find_message_at msg p n = Some r \<and> (case r of Some path \<Rightarrow> hit msg n path
    | None \<Rightarrow> prefix_len msg = 64 \<and> min_prefix_len msg \<le> 64 \<longrightarrow> key msg \<notin> set (leaves n))"
  using assms
proof (induction "64 - p" arbitrary: p d n rule: less_induct)
  case less
  note wf = less.prems(1)
  show ?case
  proof (cases "cmp_message (message n) msg = 0")
    case True
    then show ?thesis by (subst find_message_at.simps) (simp add: hit_def)
  next
    case cmp: False
    show ?thesis
    proof (cases "prefix_len (message n) = 64")
      case True
      have "key msg \<notin> set (leaves n)" if "prefix_len msg = 64" "min_prefix_len msg \<le> 64"
        using wf True cmp cmp_message_same_key [of "message n" msg] that
        by (cases rule: wf_node.cases) auto
      with True cmp show ?thesis by (subst find_message_at.simps) simp
    next
      case inner: False
      then obtain m ctx a b where n: "n = Node m ctx (Some a) (Some b)" and ab: "wf_node (prefix_len m + 1) a" "wf_node (prefix_len m + 1) b"
        and m: "prefix_len m < 63"
        and side: "\<forall>k \<in> set (leaves a). \<not> stream_bit k (prefix_len m)" "\<forall>k \<in> set (leaves b). stream_bit k (prefix_len m)"
        and lv: "leaves n = leaves a @ leaves b"
        using wf_inner_sides [OF wf] by metis
      have p: "p < 63" using less.prems(2) m n by simp
      then have step: "64 - (p + 1) < 64 - p" by linarith
      have bit: "sync_get_bits p 1 k = Some (of_bool (stream_bit k p))" for k using p by (simp only: sync_get_bit if_True)
      show ?thesis
      proof (cases "p < prefix_len m")
        case True
        have out: "key msg \<notin> set (leaves n)" if "stream_bit (key m) p \<noteq> stream_bit (key msg) p"
          using wf_node_prefix [OF wf, of "key msg" p] True p n that by auto
        have find: "find_message_at msg p n =
            (if stream_bit (key m) p \<noteq> stream_bit (key msg) p then Some None else find_message_at msg (p + 1) n)"
          using True m n cmp by (subst find_message_at.simps) (simp add: bit del: One_nat_def)
        have "p + 1 \<le> prefix_len (message n)" using True n by simp
        from less.hyps [OF step wf this] out show ?thesis unfolding find by simp
      next
        case False
        then have pm: "prefix_len m = p" using less.prems(2) n by simp
        let ?c = "if stream_bit (key msg) p then b else a"
        have c: "wf_node (p + 1) ?c" using ab pm by simp
        obtain r where r: "find_message_at msg (p + 1) ?c = Some r" "case r of Some path \<Rightarrow> hit msg ?c path
            | None \<Rightarrow> prefix_len msg = 64 \<and> min_prefix_len msg \<le> 64 \<longrightarrow> key msg \<notin> set (leaves ?c)"
          using less.hyps [OF step c wf_node_bounds(1) [OF c]] by blast
        have "find_message_at msg p n = Some (map_option ((#) (of_bool (stream_bit (key msg) p))) r)"
          using pm m n cmp r(1) by (subst find_message_at.simps, cases "stream_bit (key msg) p") (simp_all add: bit del: One_nat_def)
        moreover have "key msg \<notin> set (leaves n)" if "key msg \<notin> set (leaves ?c)"
          using that side pm lv by auto
        ultimately show ?thesis using r(2) n
          by (cases r; cases "stream_bit (key msg) p") (auto simp: hit_def)
      qed
    qed
  qed
qed

section \<open>The tree is determined by its keys\<close>

text \<open>The tree without the flags and contexts of its nodes.\<close>

fun erase :: "'c node \<Rightarrow> unit node" where
  "erase (Node m ctx l r) = Node (m\<lparr>stored := False\<rparr>) None (map_option erase l) (map_option erase r)"

lemma message_eqI:
  "min_prefix_len m = min_prefix_len m' \<Longrightarrow> prefix_len m = prefix_len m' \<Longrightarrow> key m = key m' \<Longrightarrow>
   m\<lparr>stored := b\<rparr> = m'\<lparr>stored := b\<rparr>"
  for m m' :: key_message
  by (cases m; cases m') simp

lemma split_unique:
  "A \<union> B = A' \<union> B' \<Longrightarrow> \<forall>x \<in> A. \<not> P x \<Longrightarrow> \<forall>x \<in> B. P x \<Longrightarrow> \<forall>x \<in> A'. \<not> P x \<Longrightarrow> \<forall>x \<in> B'. P x \<Longrightarrow> A = A' \<and> B = B'"
  by blast

lemma branching_bit:
  assumes "wf_node d s" "prefix_len (message s) \<noteq> 64"
  obtains x y where "x \<in> set (leaves s)" "y \<in> set (leaves s)" "stream_bit x (prefix_len (message s)) \<noteq> stream_bit y (prefix_len (message s))"
proof (rule wf_inner_sides [OF assms])
  fix m ctx a b
  assume s: "s = Node m ctx (Some a) (Some b)" "wf_node (prefix_len m + 1) a" "wf_node (prefix_len m + 1) b" "leaves s = leaves a @ leaves b"
    and side: "\<forall>k \<in> set (leaves a). \<not> stream_bit k (prefix_len m)" "\<forall>k \<in> set (leaves b). stream_bit k (prefix_len m)"
  obtain x y where "x \<in> set (leaves a)" "y \<in> set (leaves b)"
    using wf_node_leaves(1) [OF s(2)] wf_node_leaves(1) [OF s(3)] by (metis last_in_set)
  with s side show thesis by (intro that [of x y]) auto
qed

lemma prefix_len_least:
  assumes "wf_node d s" "wf_node d t" "set (leaves s) = set (leaves t)" "prefix_len (message s) \<noteq> 64"
  shows "prefix_len (message t) \<le> prefix_len (message s)"
proof (rule ccontr)
  let ?p = "prefix_len (message s)"
  assume "\<not> ?thesis"
  then have lt: "?p < prefix_len (message t)" by simp
  have p: "?p < 64" using wf_node_bounds(3) [OF assms(1)] assms(4) by auto
  obtain x y where "x \<in> set (leaves t)" "y \<in> set (leaves t)" "stream_bit x ?p \<noteq> stream_bit y ?p"
    using branching_bit [OF assms(1,4)] assms(3) by metis
  then show False using wf_node_prefix [OF assms(2) _ lt p] by metis
qed

lemma erase_unique:
  assumes "wf_node d s" "wf_node d t" "set (leaves s) = set (leaves t)"
  shows "erase s = erase t"
  using assms
proof (induction d s arbitrary: t rule: wf_node.induct)
  case (wf_leaf m d ctx)
  have "prefix_len (message t) = 64"
  proof (rule ccontr)
    assume "prefix_len (message t) \<noteq> 64"
    from branching_bit [OF wf_leaf.prems(1) this] wf_leaf.prems(2) wf_leaf.hyps(1) show False by (metis empty_iff empty_set leaves_simps(1) set_ConsD)
  qed
  with wf_leaf.prems(1) wf_leaf show ?case by (cases rule: wf_node.cases) (auto intro!: message_eqI)
next
  case (wf_inner p a b m d ctx)
  let ?s = "Node m ctx (Some a) (Some b)"
  have s: "wf_node d ?s" using wf_inner.hyps by (intro wf_node.wf_inner)
  have ls: "leaves ?s = leaves a @ leaves b" using wf_inner.hyps by simp
  have "prefix_len (message t) \<le> p"
    using prefix_len_least [OF s wf_inner.prems] wf_inner.hyps by simp
  then have nt: "prefix_len (message t) \<noteq> 64" using wf_inner.hyps by simp
  with prefix_len_least [OF wf_inner.prems(1) s wf_inner.prems(2) [symmetric]] \<open>prefix_len (message t) \<le> p\<close> wf_inner.hyps
  have pt: "prefix_len (message t) = p" by simp
  obtain m' ctx' a' b' where t: "t = Node m' ctx' (Some a') (Some b')" "wf_node (prefix_len m' + 1) a'" "wf_node (prefix_len m' + 1) b'"
    "min_prefix_len m' = d" and side: "\<forall>k \<in> set (leaves a'). \<not> stream_bit k (prefix_len m')" "\<forall>k \<in> set (leaves b'). stream_bit k (prefix_len m')"
    and sum: "summary (prefix_len m') (mset (leaves a') + mset (leaves b')) (key m')" and lt: "leaves t = leaves a' @ leaves b'"
    using wf_inner_sides [OF wf_inner.prems(1) nt] by metis
  have pm: "prefix_len m' = p" using pt t(1) by simp
  have un: "set (leaves a) \<union> set (leaves b) = set (leaves a') \<union> set (leaves b')"
    using wf_inner.prems(2) ls lt by simp
  then have "set (leaves a) = set (leaves a')" "set (leaves b) = set (leaves b')"
    using split_unique [OF un, of "\<lambda>k. stream_bit k p"] side wf_inner.hyps(7,8) pm by simp_all
  moreover from this have ms: "mset (leaves a) = mset (leaves a')" "mset (leaves b) = mset (leaves b')"
    using wf_node_leaves(2) [OF wf_inner.hyps(1)] wf_node_leaves(2) [OF wf_inner.hyps(2)] wf_node_leaves(2) [OF t(2)] wf_node_leaves(2) [OF t(3)]
    by (simp_all add: set_eq_iff_mset_eq_distinct)
  ultimately have "erase a = erase a'" "erase b = erase b'"
    using wf_inner.IH t(2,3) pm by simp_all
  moreover have "key m = key m'"
    using summary_unique [of p "mset (leaves a) + mset (leaves b)" "key m" "key m'"] sum wf_inner.hyps ms pm by simp
  ultimately show ?case using t(1,4) pm wf_inner.hyps(3,5) by (simp add: message_eqI)
qed

section \<open>The interface\<close>

definition wf_tree :: "'c node option \<Rightarrow> bool" where
  "wf_tree t \<longleftrightarrow> (case t of None \<Rightarrow> True | Some n \<Rightarrow> wf_node 0 n)"

definition tree_keys :: "'c node option \<Rightarrow> u8 list set" where
  "tree_keys t = (case t of None \<Rightarrow> {} | Some n \<Rightarrow> set (leaves n))"

definition tree_messages :: "'c node option \<Rightarrow> unit node option" where
  "tree_messages t = map_option erase t"

text \<open>Keys the tree can tell apart: the last of their 64 bits is never looked at.\<close>

definition apart :: "u8 list \<Rightarrow> u8 list \<Rightarrow> bool" where
  "apart k x \<longleftrightarrow> (\<exists>j < 63. stream_bit k j \<noteq> stream_bit x j)"

lemma wf_tree_simps [simp]: "wf_tree None" "wf_tree (Some n) = wf_node 0 n" "tree_keys None = {}" "tree_keys (Some n) = set (leaves n)"
  by (simp_all add: wf_tree_def tree_keys_def)

lemma add_key_ok:
  assumes "wf_tree t" "length k = 8" "\<forall>x \<in> tree_keys t. apart k x"
  shows "\<exists>n. add_key t k ctx st = Some n \<and> wf_node 0 n \<and> set (leaves n) = insert k (tree_keys t)"
proof (cases t)
  case None
  then show ?thesis using assms(2) by (simp add: add_key_def add_key_at.simps wf_leaf)
next
  case (Some n)
  with add_key_at_ok [of 0 n 0 k ctx st] assms obtain n' where n': "add_key t k ctx st = Some n'" "wf_node 0 n'"
    "mset (leaves n') = add_mset k (mset (leaves n))" by (auto simp: add_key_def apart_def)
  moreover from n'(3) have "set (leaves n') = insert k (set (leaves n))" by (metis set_mset_add_mset_insert set_mset_mset)
  ultimately show ?thesis using Some by simp
qed

lemma remove_key_ok:
  assumes "wf_tree t" "k \<in> tree_keys t"
  shows "\<exists>t'. remove_key t k = Some t' \<and> wf_tree t' \<and> tree_keys t' = tree_keys t - {k}"
proof (cases t)
  case (Some n)
  with remove_key_at_ok [of 0 n 0 k] assms obtain r where r: "remove_key t k = Some r"
    "case r of None \<Rightarrow> leaves n = [k] | Some t \<Rightarrow> wf_node 0 t \<and> mset (leaves n) = add_mset k (mset (leaves t))"
    by (auto simp: remove_key_def)
  show ?thesis
  proof (cases r)
    case None
    then show ?thesis using r Some by simp
  next
    case t': (Some n')
    have ms: "mset (leaves n) = mset (k # leaves n')" using r(2) t' by simp
    from mset_eq_imp_distinct_iff [OF this] have "distinct (k # leaves n')" using wf_node_leaves(2) [of 0 n] assms(1) Some by simp
    then have "k \<notin> set (leaves n')" by simp
    moreover have "set (leaves n) = insert k (set (leaves n'))" using mset_eq_setD [OF ms] by simp
    ultimately show ?thesis using r Some t' by auto
  qed
qed (use assms in simp)

interpretation keys: key_set wf_tree tree_keys None "\<lambda>k t. map_option Some (add_key t k ctx st)" "\<lambda>k t. remove_key t k"
  tree_messages "\<lambda>k. length k = 8" apart for ctx st
proof
  show "wf_tree None" "tree_keys None = {}" by simp_all
  fix t t' :: "'a node option" and k
  show "\<exists>t'. map_option Some (add_key t k ctx st) = Some t' \<and> wf_tree t' \<and> tree_keys t' = insert k (tree_keys t)"
    if "wf_tree t" "length k = 8" "\<forall>x \<in> tree_keys t. apart k x"
    using add_key_ok [OF that, of ctx st] by auto
  show "\<exists>t'. remove_key t k = Some t' \<and> wf_tree t' \<and> tree_keys t' = tree_keys t - {k}"
    if "wf_tree t" "k \<in> tree_keys t" using remove_key_ok [OF that] .
  show "tree_messages t = tree_messages t'" if "wf_tree t" "wf_tree t'" "tree_keys t = tree_keys t'"
  proof (cases t)
    case None
    with that wf_node_leaves(1) show ?thesis by (cases t') auto
  next
    case (Some n)
    with that wf_node_leaves(1) [of 0 n] obtain n' where "t' = Some n'" by (cases t') auto
    with Some that erase_unique [of 0 n n'] show ?thesis by (simp add: tree_messages_def)
  qed
qed

end
