(* ===== verification/SyncState.thy ===== *)
theory SyncState
  imports SyncInvariant
begin

text \<open>
  \<^verbatim>\<open>sync_keys.cpp\<close>, second part: the state of the synchronisation, what is known of each peer, and the handlers of
  the messages peers exchange. The callbacks do not call back into the module, so a call is recorded as an
  event. A function on one peer works on the state and that peer's record; \<open>None\<close> is a failed assertion or
  an access outside an array.
\<close>

section \<open>State\<close>

text \<open>The counters \<^verbatim>\<open>sent_root\<close>, \<^verbatim>\<open>sent_messages\<close> and \<^verbatim>\<open>sent_record_count\<close> are never used and left out.\<close>

datatype ('c, 'p) event =
    Has 'p "u8 list"
  | HasNot 'p "'c option" "u8 list"
  | NowHas 'p "'c option" "u8 list"
  | QueueMessage 'p key_message

record ('c, 'p) sync_peer_state =
  peer_context :: 'p
  send_count :: u32
  recv_count :: u32
  peer_root :: "'c node option"

record ('c, 'p) sync_state =
  has_set :: bool
  has_not_set :: bool
  now_has_set :: bool
  queue_set :: bool
  key_count :: u32
  received_record_count :: u32
  received_uninteresting :: u32
  progress :: u32
  peers :: "('c, 'p) sync_peer_state list"
  root :: "'c node option"
  events :: "('c, 'p) event list"

type_synonym ('c, 'p) world = "('c, 'p) sync_state \<times> ('c, 'p) sync_peer_state"

definition emit :: "bool \<Rightarrow> ('c, 'p) event \<Rightarrow> ('c, 'p) sync_state \<Rightarrow> ('c, 'p) sync_state" where
  "emit present e st = (if present then st\<lparr>events := events st @ [e]\<rparr> else st)"

definition queue :: "key_message \<Rightarrow> ('c, 'p) world \<Rightarrow> ('c, 'p) world" where
  "queue m w = (case w of (st, pr) \<Rightarrow> (emit (queue_set st) (QueueMessage (peer_context pr) m) st, pr))"

definition sync_alloc_state :: "bool \<Rightarrow> bool \<Rightarrow> bool \<Rightarrow> bool \<Rightarrow> ('c, 'p) sync_state" where
  "sync_alloc_state has has_not now_has queue_message =
     \<lparr>has_set = has, has_not_set = has_not, now_has_set = now_has, queue_set = queue_message, key_count = 0,
      received_record_count = 0, received_uninteresting = 0, progress = 0, peers = [], root = None, events = []\<rparr>"

definition sync_alloc_peer_state :: "('c, 'p) sync_state \<Rightarrow> 'p \<Rightarrow> ('c, 'p) sync_state" where
  "sync_alloc_peer_state st ctx =
     st\<lparr>peers := \<lparr>peer_context = ctx, send_count = 0, recv_count = 0, peer_root = None\<rparr> # peers st\<rparr>"

text \<open>Peers are addressed by their place in the list.\<close>

definition sync_free_peer_state :: "('c, 'p) sync_state \<Rightarrow> nat \<Rightarrow> ('c, 'p) sync_state \<times> 'p" where
  "sync_free_peer_state st i =
     (st\<lparr>peers := take i (peers st) @ drop (Suc i) (peers st)\<rparr>, peer_context (peers st ! i))"

section \<open>Keys\<close>

definition sync_key_exists :: "('c, 'p) sync_state \<Rightarrow> u8 list \<Rightarrow> bool option" where
  "sync_key_exists st k = map_option (\<lambda>found. found \<noteq> None) (find_message (root st) (message_from_key k))"

definition peer_learns_key :: "u8 list \<Rightarrow> ('c, 'p) sync_peer_state \<Rightarrow> ('c, 'p) sync_peer_state option" where
  "peer_learns_key k pr = do {
     found \<leftarrow> find_message (peer_root pr) (message_from_key k);
     (if found = None then Some pr
      else do {
        t \<leftarrow> remove_key (peer_root pr) k;
        Some (pr\<lparr>peer_root := t, recv_count := recv_count pr - 1\<rparr>) }) }"

fun map_peers :: "(('c, 'p) sync_peer_state \<Rightarrow> ('c, 'p) sync_peer_state option) \<Rightarrow> ('c, 'p) sync_peer_state list \<Rightarrow>
    ('c, 'p) sync_peer_state list option" where
  "map_peers f [] = Some []"
| "map_peers f (pr # prs) = do { pr \<leftarrow> f pr; prs \<leftarrow> map_peers f prs; Some (pr # prs) }"

definition sync_add_key :: "('c, 'p) sync_state \<Rightarrow> u8 list \<Rightarrow> 'c option \<Rightarrow> ('c, 'p) sync_state option" where
  "sync_add_key st k ctx = do {
     found \<leftarrow> find_message (root st) (message_from_key k);
     (case found of
        Some path \<Rightarrow> Some (st\<lparr>root := map_option (update_at (\<lambda>n. Node (message n\<lparr>stored := True\<rparr>) ctx (child0 n) (child1 n)) path) (root st)\<rparr>)
      | None \<Rightarrow> do {
          t \<leftarrow> add_key (root st) k ctx True;
          prs \<leftarrow> map_peers (peer_learns_key k) (peers st);
          Some (st\<lparr>key_count := key_count st + 1, progress := 0, root := Some t, peers := prs\<rparr>) }) }"

section \<open>Messages\<close>

definition message_bytes :: "key_message \<Rightarrow> u8 list" where
  "message_bytes m = ((if stored m then 0x80 else 0) OR (of_nat (min_prefix_len m) AND 0x7f)) # of_nat (prefix_len m) # key m"

definition parse_message :: "u8 list \<Rightarrow> key_message" where
  "parse_message p = \<lparr>min_prefix_len = unat (p ! 0 AND 0x7f), stored = (p ! 0 AND 0x80 \<noteq> 0),
     prefix_len = unat (p ! 1), key = take KEY_LEN (drop 2 p)\<rparr>"

definition sync_root_msg :: "('c, 'p) sync_state \<Rightarrow> nat \<Rightarrow> u8 list" where
  "sync_root_msg st buff_len =
     (if buff_len < 10 then []
      else case root st of
          Some n \<Rightarrow> message_bytes (message n)
        | None \<Rightarrow> [0x80, 65] @ replicate KEY_LEN 0)"

section \<open>What a peer has\<close>

definition peer_is_missing :: "'c node \<Rightarrow> bool \<Rightarrow> ('c, 'p) world \<Rightarrow> (('c, 'p) world \<times> nat) option" where
  "peer_is_missing node allow_remove w = (case w of (st, pr) \<Rightarrow> do {
     found \<leftarrow> find_message (peer_root pr) (message node);
     (case found of
        Some path \<Rightarrow> do {
          peer_node \<leftarrow> Option.bind (peer_root pr) (\<lambda>n. node_at n path);
          (if stored (message peer_node) \<and> allow_remove
           then do {
             t \<leftarrow> remove_key (peer_root pr) (key (message node));
             Some ((emit (now_has_set st) (NowHas (peer_context pr) (context_ptr node) (key (message node))) st,
                    pr\<lparr>peer_root := t, send_count := send_count pr - 1\<rparr>), 1) }
           else Some ((st, pr), 0)) }
      | None \<Rightarrow> do {
          t \<leftarrow> add_key (peer_root pr) (key (message node)) (context_ptr node) True;
          Some ((emit (has_not_set st) (HasNot (peer_context pr) (context_ptr node) (key (message node))) (st\<lparr>progress := 0\<rparr>),
                 pr\<lparr>peer_root := Some t, send_count := send_count pr + 1\<rparr>), 1) }) })"

fun peer_missing_leaf_nodes :: "'c node \<Rightarrow> nat \<Rightarrow> bool \<Rightarrow> ('c, 'p) world \<Rightarrow> ('c, 'p) world option" where
  "peer_missing_leaf_nodes (Node m ctx l r) except allow_remove w =
     (if \<not> queue_set (fst w) then Some w
      else if prefix_len m = KEY_LEN_BITS then do {
        (w, missing) \<leftarrow> peer_is_missing (Node m ctx l r) allow_remove w;
        Some (if missing \<noteq> 0 then queue m w else w) }
      else do {
        w \<leftarrow> (case l of None \<Rightarrow> Some w | Some n \<Rightarrow>
               if except = 0 then Some w else peer_missing_leaf_nodes n 2 allow_remove w);
        (case r of None \<Rightarrow> Some w | Some n \<Rightarrow>
           if except = 1 then Some w else peer_missing_leaf_nodes n 2 allow_remove w) })"

text \<open>The leaf that \<^const>\<open>add_key\<close> returns a pointer to: the one that holds the key.\<close>

definition added_leaf :: "'c node option \<Rightarrow> u8 list \<Rightarrow> key_message option" where
  "added_leaf t k = Option.bind t (\<lambda>n. find (\<lambda>m. key m = k) (map fst (leaf_nodes n)))"

definition peer_add_key :: "key_message \<Rightarrow> ('c, 'p) world \<Rightarrow> ('c, 'p) world option" where
  "peer_add_key msg w = (case w of (st, pr) \<Rightarrow>
     if prefix_len msg \<noteq> KEY_LEN_BITS \<or> \<not> stored msg then Some (st, pr)
     else do {
       (t, added) \<leftarrow> add_key_if_missing (peer_root pr) msg False;
       (if \<not> added then Some (st, pr)
        else do {
          leaf \<leftarrow> added_leaf t (key msg);
          Some (queue leaf
            (emit (has_set st) (Has (peer_context pr) (key msg)) (st\<lparr>progress := 0\<rparr>),
             pr\<lparr>peer_root := t, recv_count := recv_count pr + 1\<rparr>)) }) })"

text \<open>The child pointers are copied before the recursion, and removing keys leaves the nodes below them in
  place: the recursion runs over the tree as it was at the call.\<close>

fun peer_has_received_all :: "'c node \<Rightarrow> ('c, 'p) world \<Rightarrow> (('c, 'p) world \<times> nat) option" where
  "peer_has_received_all (Node m ctx l r) w =
     (if prefix_len m = KEY_LEN_BITS
      then if stored m
        then (case w of (st, pr) \<Rightarrow> do {
          t \<leftarrow> remove_key (peer_root pr) (key m);
          Some ((emit (now_has_set st) (NowHas (peer_context pr) ctx (key m)) st,
                 pr\<lparr>peer_root := t, send_count := send_count pr - 1\<rparr>), 1) })
        else Some (w, 0)
      else do {
        (w, a) \<leftarrow> (case l of None \<Rightarrow> Some (w, 0) | Some n \<Rightarrow> peer_has_received_all n w);
        (w, b) \<leftarrow> (case r of None \<Rightarrow> Some (w, 0) | Some n \<Rightarrow> peer_has_received_all n w);
        Some (w, a + b) })"

text \<open>The loop of \<^verbatim>\<open>remove_differences\<close>: the node of the peer's tree it stops at, if any.\<close>

function differences_at :: "key_message \<Rightarrow> nat \<Rightarrow> 'c node \<Rightarrow> 'c node option option" where
  "differences_at msg p peer_node =
     (if \<not> p < prefix_len msg then Some (Some peer_node)
      else if prefix_len (message peer_node) = KEY_LEN_BITS \<and> cmp_message msg (message peer_node) = 0 then Some (Some peer_node)
      else if prefix_len (message peer_node) = KEY_LEN_BITS \<and> prefix_len msg = KEY_LEN_BITS then Some None
      else Option.bind (sync_get_bits p 1 (key msg)) (\<lambda>child_index.
        if p < prefix_len (message peer_node)
        then Option.bind (sync_get_bits p 1 (key (message peer_node))) (\<lambda>node_index.
          if node_index \<noteq> child_index then Some None else differences_at msg (p + 1) peer_node)
        else case children peer_node child_index of
            None \<Rightarrow> Some None
          | Some c \<Rightarrow> differences_at msg (p + 1) c))"
  by pat_completeness auto
termination
  by (relation "measure (\<lambda>(msg, p, n). 64 - p)") (auto dest!: sync_get_bits_below [unfolded One_nat_def])

declare differences_at.simps [simp del]

definition remove_differences :: "('c, 'p) sync_peer_state \<Rightarrow> key_message \<Rightarrow> (key_message \<times> 'c node option) option" where
  "remove_differences pr msg =
     (case peer_root pr of
        None \<Rightarrow> Some (msg, None)
      | Some n \<Rightarrow>
          if \<not> stored msg then Some (msg, None)
          else do {
            found \<leftarrow> differences_at msg 0 n;
            (case found of
               None \<Rightarrow> Some (msg, None)
             | Some peer_node \<Rightarrow>
                 if prefix_len msg < KEY_LEN_BITS
                 then if prefix_len (message peer_node) = prefix_len msg \<or> prefix_len (message peer_node) = KEY_LEN_BITS
                   then map_option (\<lambda>m. (m, Some peer_node)) (sync_xor (key (message peer_node)) msg)
                   else map_option (\<lambda>m. (m, Some peer_node)) (xor_children peer_node msg)
                 else Some (msg, Some peer_node)) })"

section \<open>Receiving a record\<close>

definition is_blank :: "key_message \<Rightarrow> bool" where
  "is_blank msg \<longleftrightarrow> (\<forall>i \<in> set [prefix_len msg div 8 + 1..<KEY_LEN]. key msg ! i = 0)"

text \<open>The search of our tree for a node that explains the difference.\<close>

function test_walk :: "key_message \<Rightarrow> nat \<Rightarrow> 'c node \<Rightarrow> 'c node option option" where
  "test_walk test_message test_prefix test_node =
     (if cmp_message test_message (message test_node) = 0 then Some (Some test_node)
      else if prefix_len (message test_node) = KEY_LEN_BITS then Some None
      else Option.bind (sync_get_bits test_prefix 1 (key test_message)) (\<lambda>child_index.
        if test_prefix < prefix_len (message test_node)
        then Option.bind (sync_get_bits test_prefix 1 (key (message test_node))) (\<lambda>node_index.
          if node_index \<noteq> child_index then Some None else test_walk test_message (test_prefix + 1) test_node)
        else case children test_node child_index of
            None \<Rightarrow> Some None
          | Some c \<Rightarrow> test_walk test_message (test_prefix + 1) c))"
  by pat_completeness auto
termination
  by (relation "measure (\<lambda>(m, p, n). 64 - p)") (auto dest!: sync_get_bits_below [unfolded One_nat_def])

declare test_walk.simps [simp del]

text \<open>All bits of the incoming prefix have been looked at.\<close>

definition end_of_prefix :: "key_message \<Rightarrow> bool \<Rightarrow> 'c node \<Rightarrow> nat \<Rightarrow> ('c, 'p) world \<Rightarrow> ('c, 'p) world option" where
  "end_of_prefix peer_message blank node p w =
     (if blank then peer_missing_leaf_nodes node 2 True w
      else if prefix_len (message node) > prefix_len peer_message then Some (queue (message node) w)
      else do {
        test_message \<leftarrow> sync_xor (key (message node)) peer_message;
        found \<leftarrow> test_walk test_message p node;
        (case found of
           Some test_node \<Rightarrow> peer_missing_leaf_nodes test_node 2 True w
         | None \<Rightarrow>
             let w = (case child0 node of None \<Rightarrow> w | Some c \<Rightarrow> queue (message c) w);
                 w = (case child1 node of None \<Rightarrow> w | Some c \<Rightarrow> queue (message c) w)
             in Some w) })"

text \<open>The inner loop: the first bit of our node's prefix that differs from the incoming one (\<open>Inl\<close>), or the place
  where one of the prefixes ends with the next bit of the incoming key (\<open>Inr\<close>).\<close>

function match_prefix :: "key_message \<Rightarrow> key_message \<Rightarrow> nat \<Rightarrow> nat \<Rightarrow> (nat + nat \<times> nat) option" where
  "match_prefix own peer_message p key_index =
     (if p < prefix_len own \<and> p < prefix_len peer_message
      then Option.bind (sync_get_bits p 1 (key own)) (\<lambda>existing_index.
        if key_index \<noteq> existing_index then Some (Inl p)
        else Option.bind (sync_get_bits (p + 1) 1 (key peer_message)) (match_prefix own peer_message (p + 1)))
      else Some (Inr (p, key_index)))"
  by pat_completeness auto
termination
  by (relation "measure (\<lambda>(own, msg, p, k). 64 - p)") (auto dest!: sync_get_bits_below [unfolded One_nat_def])

declare match_prefix.simps [simp del]

lemma match_prefix_grows: "match_prefix own msg p ki = Some (Inr (p', ki')) \<Longrightarrow> p \<le> p'"
proof (induction own msg p ki rule: match_prefix.induct)
  case (1 own msg p ki)
  show ?case
  proof (cases "p < prefix_len own \<and> p < prefix_len msg")
    case True
    then obtain e i where e: "sync_get_bits p 1 (key own) = Some e" "ki = e" "sync_get_bits (p + 1) 1 (key msg) = Some i"
      "match_prefix own msg (p + 1) i = Some (Inr (p', ki'))"
      using 1(2) by (subst (asm) match_prefix.simps) (auto simp: bind_eq_Some_conv split: if_splits)
    from 1(1) [OF True e(1) _ e(3,4)] e(2) show ?thesis by simp
  next
    case False
    then show ?thesis using 1(2) by (subst (asm) match_prefix.simps) auto
  qed
qed

text \<open>The main loop of \<^verbatim>\<open>recv_key\<close>. The test \<^verbatim>\<open>message->prefix_len <= prefix_len\<close> is the same for the copy of the
  message from which the known differences were removed. Where our node lacks the child, the code replies with
  \<^verbatim>\<open>children[i]\<close> for an \<open>i\<close> left over from another loop, which is at least 2.\<close>

function recv_loop :: "key_message \<Rightarrow> key_message \<Rightarrow> 'c node option \<Rightarrow> bool \<Rightarrow> 'c node \<Rightarrow> nat \<Rightarrow> ('c, 'p) world \<Rightarrow> ('c, 'p) world option" where
  "recv_loop msg peer_message peer_node blank node p w =
     (if cmp_message msg (message node) = 0
      then Option.bind (if stored msg
          then (case peer_node of None \<Rightarrow> Some (w, 0) | Some n \<Rightarrow> peer_has_received_all n w)
          else peer_is_missing node False w)
        (\<lambda>((st, pr), n). Some (if n = 0 then st\<lparr>received_uninteresting := received_uninteresting st + 1\<rparr> else st, pr))
      else if cmp_message peer_message (message node) = 0
      then (case w of (st, pr) \<Rightarrow> Some (st\<lparr>received_uninteresting := received_uninteresting st + 1\<rparr>, pr))
      else if prefix_len peer_message \<le> p then end_of_prefix peer_message blank node p w
      else Option.bind (sync_get_bits p 1 (key peer_message)) (\<lambda>key_index.
        Option.bind (match_prefix (message node) peer_message p key_index) (\<lambda>r. case r of
            Inl p' \<Rightarrow>
              Option.bind (if p' \<ge> min_prefix_len peer_message \<and> stored peer_message
                then map_option (\<lambda>w. if prefix_len peer_message \<noteq> KEY_LEN_BITS then queue (message node) w else w)
                       (peer_missing_leaf_nodes node 2 False w)
                else Some w)
              (\<lambda>w. if prefix_len peer_message = KEY_LEN_BITS then peer_add_key peer_message w else Some w)
          | Inr (p', key_index') \<Rightarrow>
              if prefix_len peer_message \<le> p' then recv_loop msg peer_message peer_node blank node p' w
              else if p' \<noteq> prefix_len (message node) then None
              else Option.bind (if min_prefix_len peer_message \<le> prefix_len (message node) \<and> stored peer_message
                  then peer_missing_leaf_nodes node key_index' False w else Some w) (\<lambda>w.
                case children node key_index' of
                  None \<Rightarrow>
                    if prefix_len peer_message = KEY_LEN_BITS then peer_add_key peer_message w
                    else if queue_set (fst w) then None else Some w
                | Some c \<Rightarrow> recv_loop msg peer_message peer_node blank c (p' + 1) w))))"
  by pat_completeness auto
termination
proof (relation "measure (\<lambda>(msg, pm, pn, b, n, p, w). 64 - p)", goal_cases)
  case (2 msg pm pn b n p w ki r x p' ki')
  then have "p \<le> p'" "p < 63" "p \<noteq> p'"
    using match_prefix_grows sync_get_bits_below by (force, blast, force)
  then show ?case by simp
next
  case (3 msg pm pn b n p w ki r x p' ki' w' c)
  then have "p \<le> p'" "p < 63"
    using match_prefix_grows sync_get_bits_below by (force, blast)
  then show ?case by simp
qed simp

declare recv_loop.simps [simp del]

definition recv_key :: "key_message \<Rightarrow> ('c, 'p) world \<Rightarrow> (('c, 'p) world \<times> int) option" where
  "recv_key msg w =
     (if min_prefix_len msg > prefix_len msg \<or> prefix_len msg > KEY_LEN_BITS + 1 then Some (w, -1)
      else case w of (st, pr) \<Rightarrow>
        let st = st\<lparr>received_record_count := received_record_count st + 1\<rparr>
        in map_option (\<lambda>w. (w, 0))
          (case root st of
             None \<Rightarrow> peer_add_key msg (st, pr)
           | Some node \<Rightarrow>
               if prefix_len msg = KEY_LEN_BITS + 1 then peer_missing_leaf_nodes node 2 False (st, pr)
               else do {
                 (peer_message, peer_node) \<leftarrow> remove_differences pr msg;
                 recv_loop msg peer_message peer_node (is_blank peer_message) node 0 (st, pr) }))"

fun recv_records :: "u8 list \<Rightarrow> ('c, 'p) world \<Rightarrow> (('c, 'p) world \<times> int) option" where
  "recv_records buff w =
     (if length buff < 10 then Some (w, 0)
      else do {
        (w, r) \<leftarrow> recv_key (parse_message (take 10 buff)) w;
        (if r = -1 then Some (w, -1) else recv_records (drop 10 buff) w) })"

declare recv_records.simps [simp del]

definition sync_recv_message :: "('c, 'p) sync_state \<Rightarrow> nat \<Rightarrow> u8 list \<Rightarrow> (('c, 'p) sync_state \<times> int) option" where
  "sync_recv_message st i buff =
     (if length buff mod 10 \<noteq> 0 then Some (st, -1)
      else map_option (\<lambda>((st, pr), r). (st\<lparr>peers := (peers st)[i := pr]\<rparr>, r)) (recv_records buff (st, peers st ! i)))"

text \<open>The calls of the callback: for each peer the keys in which it differs, with the side that has them.\<close>

definition enum_diffs :: "('c, 'p) sync_peer_state \<Rightarrow> ('p \<times> u8 list \<times> bool) list" where
  "enum_diffs pr = (case peer_root pr of None \<Rightarrow> []
     | Some n \<Rightarrow> map (\<lambda>(m, ctx). (peer_context pr, key m, stored m)) (leaf_nodes n))"

definition sync_enum_differences :: "('c, 'p) sync_state \<Rightarrow> ('p \<times> u8 list \<times> bool) list" where
  "sync_enum_differences st = concat (map enum_diffs (peers st))"

end
