(* ===== verification/SyncProps.thy ===== *)
theory SyncProps
  imports SyncState
begin

text \<open>
  What the synchronisation of keys guarantees: our own tree only changes through \<^const>\<open>sync_add_key\<close>, which keeps
  the invariant and takes the key out of what peers still had to send; the tree answers look-ups without
  missing a key; its messages depend on the keys alone, so that peers with the same keys fall silent. The
  limits are stated too: a look-up can report a key that was never added, and keys that differ in the last
  bit only cannot be handled.
\<close>

section \<open>A record never changes our own keys\<close>

definition untouched :: "('c, 'p) sync_state \<Rightarrow> ('c, 'p) sync_state \<Rightarrow> bool" where
  "untouched st st' \<longleftrightarrow> root st' = root st \<and> key_count st' = key_count st \<and> peers st' = peers st \<and>
     queue_set st' = queue_set st \<and> (\<exists>es. events st' = events st @ es)"

lemma untouched_refl [simp]: "untouched st st"
  by (simp add: untouched_def)

lemma untouched_trans: "untouched st st' \<Longrightarrow> untouched st' st'' \<Longrightarrow> untouched st st''"
  by (auto simp: untouched_def)

lemma untouched_emit [simp]: "untouched st (emit b e st)" "untouched st (emit b e (st\<lparr>progress := n\<rparr>))"
  by (auto simp: untouched_def emit_def)

lemma untouched_count [simp]:
  "untouched st (st\<lparr>received_uninteresting := n\<rparr>)" "untouched st (st\<lparr>received_record_count := n\<rparr>)"
  by (simp_all add: untouched_def)

lemma untouched_queue [simp]: "untouched (fst w) (fst (queue m w))"
  by (cases w) (simp add: queue_def)

lemma untouched_queued: "queue m (s, q) = (s', q') \<Longrightarrow> untouched s s'"
  using untouched_queue [of "(s, q)" m] by simp

lemma untouched_is_missing: "peer_is_missing n b w = Some (w', r) \<Longrightarrow> untouched (fst w) (fst w')"
  by (cases w) (auto simp: peer_is_missing_def bind_eq_Some_conv split: option.splits if_splits)

lemma untouched_missing_leaves: "peer_missing_leaf_nodes n e b w = Some w' \<Longrightarrow> untouched (fst w) (fst w')"
proof (induction n e b w arbitrary: w' rule: peer_missing_leaf_nodes.induct)
  case (1 m ctx l r e b w)
  show ?case
  proof (cases "queue_set (fst w) \<and> prefix_len m \<noteq> 64")
    case True
    then obtain w1 where w1: "(case l of None \<Rightarrow> Some w | Some n \<Rightarrow> if e = 0 then Some w else peer_missing_leaf_nodes n 2 b w) = Some w1"
      "(case r of None \<Rightarrow> Some w1 | Some n \<Rightarrow> if e = 1 then Some w1 else peer_missing_leaf_nodes n 2 b w1) = Some w'"
      using 1(3) by (auto simp: bind_eq_Some_conv)
    have "untouched (fst w) (fst w1)" using w1(1) 1(1) True by (auto split: option.splits if_splits)
    moreover have "untouched (fst w1) (fst w')" using w1(2) 1(2) [OF _ _ w1(1)] True by (auto split: option.splits if_splits)
    ultimately show ?thesis by (rule untouched_trans)
  next
    case False
    then show ?thesis using 1(3)
      by (auto simp: bind_eq_Some_conv split: if_splits dest!: untouched_is_missing intro: untouched_trans [OF _ untouched_queue])
  qed
qed

lemma untouched_add_key: "peer_add_key m w = Some w' \<Longrightarrow> untouched (fst w) (fst w')"
  by (cases w) (auto simp: peer_add_key_def bind_eq_Some_conv queue_def split: option.splits if_splits
      intro: untouched_trans [OF untouched_emit(2) untouched_emit(1)])

lemma untouched_received_all: "peer_has_received_all n w = Some (w', cnt) \<Longrightarrow> untouched (fst w) (fst w')"
proof (induction n w arbitrary: w' cnt rule: peer_has_received_all.induct)
  case (1 m ctx l r w)
  show ?case
  proof (cases "prefix_len m = 64")
    case True
    with 1(3) show ?thesis by (cases w) (auto simp: bind_eq_Some_conv split: if_splits)
  next
    case False
    then obtain w1 a b where w1: "(case l of None \<Rightarrow> Some (w, 0) | Some n \<Rightarrow> peer_has_received_all n w) = Some (w1, a)"
      "(case r of None \<Rightarrow> Some (w1, 0) | Some n \<Rightarrow> peer_has_received_all n w1) = Some (w', b)"
      using 1(3) by (auto simp: bind_eq_Some_conv)
    have "untouched (fst w) (fst w1)" using w1(1) 1(1) [OF False] by (auto split: option.splits)
    moreover have "untouched (fst w1) (fst w')" using w1(2) 1(2) [OF False w1(1) refl] by (auto split: option.splits)
    ultimately show ?thesis by (rule untouched_trans)
  qed
qed

lemma untouched_end_of_prefix: "end_of_prefix m b n p w = Some w' \<Longrightarrow> untouched (fst w) (fst w')"
  by (auto simp: end_of_prefix_def bind_eq_Some_conv Let_def split: option.splits if_splits
      intro: untouched_missing_leaves untouched_trans [OF untouched_queue untouched_queue])

lemma untouched_recv_loop: "recv_loop m pm pn b n p w = Some w' \<Longrightarrow> untouched (fst w) (fst w')"
proof (induction m pm pn b n p w arbitrary: w' rule: recv_loop.induct)
  case (1 m pm pn b n p w)
  consider (same) "cmp_message m (message n) = 0" | (known) "cmp_message m (message n) \<noteq> 0" "cmp_message pm (message n) = 0"
    | (end_p) "cmp_message m (message n) \<noteq> 0" "cmp_message pm (message n) \<noteq> 0" "prefix_len pm \<le> p"
    | (descend) "cmp_message m (message n) \<noteq> 0" "cmp_message pm (message n) \<noteq> 0" "\<not> prefix_len pm \<le> p" by blast
  then show ?case
  proof cases
    case same
    with 1(3) show ?thesis
      by (subst (asm) recv_loop.simps) (auto simp: bind_eq_Some_conv split: if_splits option.splits
          dest!: untouched_received_all untouched_is_missing intro: untouched_trans [OF _ untouched_count(1)])
  next
    case known
    with 1(3) show ?thesis by (subst (asm) recv_loop.simps) (auto split: prod.splits)
  next
    case end_p
    with 1(3) show ?thesis by (subst (asm) recv_loop.simps) (simp add: untouched_end_of_prefix)
  next
    case descend
    then obtain ki r where ki: "sync_get_bits p 1 (key pm) = Some ki" "match_prefix (message n) pm p ki = Some r"
      using 1(3) by (subst (asm) recv_loop.simps) (auto simp: bind_eq_Some_conv)
    note loop = 1(3) [unfolded recv_loop.simps [of m pm pn b n p w], simplified descend ki if_False Option.bind.simps]
    note ih = 1(1,2) [OF descend ki]
    show ?thesis
    proof (cases r)
      case (Inl p')
      with loop show ?thesis
        by (auto simp: bind_eq_Some_conv split: if_splits dest!: untouched_missing_leaves untouched_add_key
            untouched_queued intro: untouched_trans)
    next
      case (Inr q)
      obtain p' ki' where q: "q = (p', ki')" by force
      show ?thesis
      proof (cases "prefix_len pm \<le> p'")
        case True
        with loop Inr q ih(1) [OF Inr q [symmetric]] show ?thesis by simp
      next
        case False
        with loop Inr q obtain w1 where w1: "p' = prefix_len (message n)"
          "(if min_prefix_len pm \<le> prefix_len (message n) \<and> stored pm then peer_missing_leaf_nodes n ki' False w else Some w) = Some w1"
          "(case children n ki' of None \<Rightarrow> if prefix_len pm = 64 then peer_add_key pm w1 else if queue_set (fst w1) then None else Some w1
            | Some c \<Rightarrow> recv_loop m pm pn b c (p' + 1) w1) = Some w'"
          by (auto simp: bind_eq_Some_conv split: if_splits)
        have "untouched (fst w) (fst w1)" using w1(2) by (auto split: if_splits intro: untouched_missing_leaves)
        moreover have "untouched (fst w1) (fst w')"
          using w1(3) ih(2) [OF Inr q [symmetric] False _ w1(2)] w1(1) by (auto split: option.splits if_splits intro: untouched_add_key)
        ultimately show ?thesis by (rule untouched_trans)
      qed
    qed
  qed
qed

lemma untouched_recv_key: "recv_key m w = Some (w', r) \<Longrightarrow> untouched (fst w) (fst w')"
  by (cases w) (auto simp: recv_key_def Let_def bind_eq_Some_conv split: if_splits option.splits
      dest!: untouched_recv_loop untouched_add_key untouched_missing_leaves intro: untouched_trans [OF untouched_count(2)])

section \<open>Exact look-up\<close>

text \<open>The keys shown by the inner nodes. A look-up is exact for a key that is not one of them.\<close>

fun summaries :: "'c node \<Rightarrow> u8 list set" where
  "summaries (Node m ctx l r) = (if prefix_len m = 64 then {}
     else insert (key m) ((case l of None \<Rightarrow> {} | Some a \<Rightarrow> summaries a) \<union> (case r of None \<Rightarrow> {} | Some b \<Rightarrow> summaries b)))"

definition tree_summaries :: "'c node option \<Rightarrow> u8 list set" where
  "tree_summaries t = (case t of None \<Rightarrow> {} | Some n \<Rightarrow> summaries n)"

lemma node_at_parts:
  assumes "wf_node d n" "node_at n path = Some n'"
  shows "prefix_len (message n') = 64 \<Longrightarrow> key (message n') \<in> set (leaves n)"
    and "prefix_len (message n') \<noteq> 64 \<Longrightarrow> key (message n') \<in> summaries n"
    and "length (key (message n')) = 8 \<and> prefix_len (message n') \<le> 64 \<and> min_prefix_len (message n') \<le> 64"
proof -
  have "(prefix_len (message n') = 64 \<longrightarrow> key (message n') \<in> set (leaves n)) \<and>
      (prefix_len (message n') \<noteq> 64 \<longrightarrow> key (message n') \<in> summaries n) \<and>
      length (key (message n')) = 8 \<and> prefix_len (message n') \<le> 64 \<and> min_prefix_len (message n') \<le> 64"
    using assms
  proof (induction d n arbitrary: path rule: wf_node.induct)
    case (wf_leaf m d ctx)
    then show ?case by (cases path) (auto simp: children_def split: if_splits)
  next
    case (wf_inner p a b m d ctx)
    then show ?case by (cases path) (auto simp: children_def summary_def split: if_splits)
  qed
  then show "prefix_len (message n') = 64 \<Longrightarrow> key (message n') \<in> set (leaves n)"
    "prefix_len (message n') \<noteq> 64 \<Longrightarrow> key (message n') \<in> summaries n"
    "length (key (message n')) = 8 \<and> prefix_len (message n') \<le> 64 \<and> min_prefix_len (message n') \<le> 64" by auto
qed

lemma cmp_message_key:
  assumes "cmp_message m (message_from_key k) = 0" "length (key m) = 8" "length k = 8" "prefix_len m \<le> 64" "min_prefix_len m \<le> 64"
  shows "key m = k"
  using assms by (auto simp: cmp_message_def Let_def xor_begin_def message_from_key_def memcmp_0 max_def min_def split: if_splits)

lemma find_message_total:
  assumes "wf_tree t"
  shows "\<exists>r. find_message t (message_from_key k) = Some r \<and> (k \<in> tree_keys t \<longrightarrow> r \<noteq> None) \<and>
    (r \<noteq> None \<and> length k = 8 \<longrightarrow> k \<in> tree_keys t \<union> tree_summaries t)"
proof (cases t)
  case (Some n)
  then have wf: "wf_node 0 n" using assms by simp
  obtain r where r: "find_message t (message_from_key k) = Some r" "case r of Some path \<Rightarrow> hit (message_from_key k) n path
    | None \<Rightarrow> k \<notin> set (leaves n)"
    using find_message_at_ok [OF wf order_refl, of "message_from_key k"] Some
    by (auto simp: find_message_def message_from_key_def split: option.splits)
  have "k \<in> set (leaves n) \<union> summaries n" if path: "r = Some path" "length k = 8" for path
  proof -
    obtain n' where n': "node_at n path = Some n'" "cmp_message (message n') (message_from_key k) = 0"
      using r(2) path by (auto simp: hit_def)
    with cmp_message_key [OF n'(2)] node_at_parts [OF wf n'(1)] path(2) show ?thesis by auto
  qed
  with r Some show ?thesis by (cases r) (auto simp: tree_summaries_def)
qed (simp add: find_message_def)

lemma find_message_exact:
  assumes "wf_tree t" "length k = 8" "k \<notin> tree_summaries t"
  shows "\<exists>r. find_message t (message_from_key k) = Some r \<and> (r \<noteq> None \<longleftrightarrow> k \<in> tree_keys t)"
  using find_message_total [OF assms(1), of k] assms(2,3) by auto

section \<open>Adding a key to the state\<close>

definition sync_ok :: "('c, 'p) sync_state \<Rightarrow> bool" where
  "sync_ok st \<longleftrightarrow> wf_tree (root st) \<and> (\<forall>pr \<in> set (peers st). wf_tree (peer_root pr))"

text \<open>No inner node, ours or a peer's, happens to show the key.\<close>

definition unambiguous :: "u8 list \<Rightarrow> ('c, 'p) sync_state \<Rightarrow> bool" where
  "unambiguous k st \<longleftrightarrow> k \<notin> tree_summaries (root st) \<and> (\<forall>pr \<in> set (peers st). k \<notin> tree_summaries (peer_root pr))"

lemma peer_learns_key_ok:
  assumes "wf_tree (peer_root pr)" "length k = 8" "k \<notin> tree_summaries (peer_root pr)"
  shows "\<exists>pr'. peer_learns_key k pr = Some pr' \<and> wf_tree (peer_root pr') \<and> tree_keys (peer_root pr') = tree_keys (peer_root pr) - {k} \<and>
    recv_count pr' = recv_count pr - of_bool (k \<in> tree_keys (peer_root pr))"
proof -
  obtain r where r: "find_message (peer_root pr) (message_from_key k) = Some r" "r \<noteq> None \<longleftrightarrow> k \<in> tree_keys (peer_root pr)"
    using find_message_exact [OF assms] by blast
  show ?thesis
  proof (cases "k \<in> tree_keys (peer_root pr)")
    case True
    with remove_key_ok [OF assms(1) True] r show ?thesis by (auto simp: peer_learns_key_def)
  next
    case False
    with r assms(1) show ?thesis by (auto simp: peer_learns_key_def)
  qed
qed

lemma map_peers_ok:
  assumes "\<And>pr. pr \<in> set prs \<Longrightarrow> \<exists>pr'. f pr = Some pr' \<and> Q pr pr'"
  shows "\<exists>prs'. map_peers f prs = Some prs' \<and> list_all2 Q prs prs'"
  using assms
proof (induction prs)
  case (Cons pr prs)
  obtain pr' where pr': "f pr = Some pr'" "Q pr pr'" using Cons.prems [of pr] by auto
  obtain prs' where "map_peers f prs = Some prs'" "list_all2 Q prs prs'" using Cons by auto
  with pr' show ?case by auto
qed simp

lemma sync_add_key_new:
  assumes ok: "sync_ok st" and k: "length k = 8" "\<forall>x \<in> tree_keys (root st). apart k x" "unambiguous k st" "k \<notin> tree_keys (root st)"
  shows "\<exists>st'. sync_add_key st k ctx = Some st' \<and> sync_ok st' \<and> tree_keys (root st') = insert k (tree_keys (root st)) \<and>
    key_count st' = key_count st + 1 \<and> map (tree_keys \<circ> peer_root) (peers st') = map (\<lambda>pr. tree_keys (peer_root pr) - {k}) (peers st)"
proof -
  let ?Q = "\<lambda>pr pr'. wf_tree (peer_root pr') \<and> tree_keys (peer_root pr') = tree_keys (peer_root pr) - {k}"
  obtain t where t: "add_key (root st) k ctx True = Some t" "wf_node 0 t" "set (leaves t) = insert k (tree_keys (root st))"
    using add_key_ok [of "root st" k ctx True] ok k by (auto simp: sync_ok_def)
  have "find_message (root st) (message_from_key k) = Some None"
    using find_message_exact [of "root st" k] ok k by (auto simp: sync_ok_def unambiguous_def)
  moreover obtain prs where prs: "map_peers (peer_learns_key k) (peers st) = Some prs" "list_all2 ?Q (peers st) prs"
    using map_peers_ok [of "peers st" "peer_learns_key k" ?Q] peer_learns_key_ok [of _ k] ok k
    by (fastforce simp: sync_ok_def unambiguous_def)
  ultimately have "sync_add_key st k ctx = Some (st\<lparr>key_count := key_count st + 1, progress := 0, root := Some t, peers := prs\<rparr>)"
    using t by (simp add: sync_add_key_def)
  moreover have "\<forall>pr \<in> set prs. wf_tree (peer_root pr)"
    using prs(2) by (auto simp: list_all2_conv_all_nth in_set_conv_nth)
  moreover have "map (tree_keys \<circ> peer_root) prs = map (\<lambda>pr. tree_keys (peer_root pr) - {k}) (peers st)"
    using prs(2) by (auto simp: list_all2_conv_all_nth intro!: nth_equalityI)
  ultimately show ?thesis using t by (simp add: sync_ok_def)
qed

section \<open>Messages on the wire\<close>

lemma parse_message_bytes:
  assumes "min_prefix_len m < 128" "prefix_len m < 256" "length (key m) = 8"
  shows "parse_message (message_bytes m) = m"
proof -
  let ?h = "(if stored m then 0x80 else 0) OR (of_nat (min_prefix_len m) AND 0x7f) :: u8"
  have seven: "(w :: u8) AND 0x7f = take_bit 7 w" for w by (simp add: take_bit_eq_mask mask_eq_exp_minus_1)
  have "?h AND 0x7f = of_nat (min_prefix_len m) AND 0x7f" by (simp add: word_ao_dist and.assoc)
  also have "unat \<dots> = take_bit 7 (unat (of_nat (min_prefix_len m) :: u8))" by (simp only: seven unsigned_take_bit_eq)
  also have "unat (of_nat (min_prefix_len m) :: u8) = min_prefix_len m" using assms(1) by (simp add: unsigned_of_nat take_bit_eq_mod)
  also have "take_bit 7 (min_prefix_len m) = min_prefix_len m" using assms(1) by (simp add: take_bit_nat_eq_self)
  finally have "unat (?h AND 0x7f) = min_prefix_len m" .
  moreover have "?h AND 0x80 \<noteq> 0 \<longleftrightarrow> stored m" by (simp add: word_ao_dist and.assoc)
  moreover have "unat (of_nat (prefix_len m) :: u8) = prefix_len m" using assms(2) by (simp add: unsigned_of_nat take_bit_eq_mod)
  ultimately show ?thesis using assms(3) by (simp add: parse_message_def message_bytes_def)
qed

lemma cmp_message_stored: "cmp_message (m\<lparr>stored := b\<rparr>) (m'\<lparr>stored := b'\<rparr>) = cmp_message m m'"
  by (simp add: cmp_message_def xor_begin_def Let_def cong: if_cong)

lemma erase_message: "erase n = erase n' \<Longrightarrow> message n\<lparr>stored := b\<rparr> = message n'\<lparr>stored := b\<rparr>"
  by (cases n; cases n'; simp) (metis key_message.select_convs key_message.surjective key_message.update_convs(2))

lemma recv_key_same:
  assumes "wf_node 0 n" "wf_node 0 n'" "set (leaves n) = set (leaves n')" "stored (message n)"
    and "root st = Some n'" "peer_root pr = None"
  shows "recv_key (message n) (st, pr) = Some ((st\<lparr>received_record_count := received_record_count st + 1,
    received_uninteresting := received_uninteresting st + 1\<rparr>, pr), 0)"
proof -
  have "cmp_message (message n) (message n') = 0"
    using erase_message [OF erase_unique [OF assms(1-3)], of False] cmp_message_stored [where m = "message n" and m' = "message n'" and b = False and b' = False]
    by (simp add: cmp_message_refl)
  moreover have "min_prefix_len (message n) = 0" "prefix_len (message n) \<le> 64"
    using wf_node_bounds [OF assms(1)] by auto
  ultimately show ?thesis
    using assms(4-6) by (simp add: recv_key_def Let_def remove_differences_def recv_loop.simps)
qed

section \<open>Building a tree\<close>

primrec add_keys :: "u8 list list \<Rightarrow> 'c node option \<Rightarrow> 'c node option option" where
  "add_keys [] t = Some t"
| "add_keys (k # ks) t = Option.bind (add_key t k None True) (\<lambda>n. add_keys ks (Some n))"

lemma add_keys_eq: "keys.add_all None True ks t = add_keys ks t"
  by (induction ks arbitrary: t) (simp_all add: keys.add_all.simps bind_map_option comp_def)

lemma untouched_recv_records:
  "recv_records buff w = Some (w', r) \<Longrightarrow> untouched (fst w) (fst w')"
proof (induction buff w arbitrary: w' r rule: recv_records.induct)
  case (1 buff w)
  show ?case
  proof (cases "length buff < 10")
    case True
    with 1(2) show ?thesis by (subst (asm) recv_records.simps) simp
  next
    case False
    then obtain w1 r1 where w1: "recv_key (parse_message (take 10 buff)) w = Some (w1, r1)"
      "(if r1 = -1 then Some (w1, -1) else recv_records (drop 10 buff) w1) = Some (w', r)"
      using 1(2) by (subst (asm) recv_records.simps) (auto simp: bind_eq_Some_conv)
    from w1(2) 1(1) [OF False w1(1) refl] have "untouched (fst w1) (fst w')" by (auto split: if_splits)
    then show ?thesis using untouched_recv_key [OF w1(1)] untouched_trans by blast
  qed
qed

text \<open>Sample keys and states.\<close>

definition sample_key :: "u8 \<Rightarrow> u8 list" where "sample_key b = b # replicate 7 0"

definition sample_state :: "(unit, unit) sync_state" where
  "sample_state = sync_alloc_peer_state (sync_alloc_state True True True True) ()"

primrec sync_add_keys :: "u8 list list \<Rightarrow> ('c, 'p) sync_state \<Rightarrow> ('c, 'p) sync_state option" where
  "sync_add_keys [] st = Some st"
| "sync_add_keys (k # ks) st = Option.bind (sync_add_key st k None) (sync_add_keys ks)"

definition sample_leaf :: "u8 \<Rightarrow> unit node" where
  "sample_leaf b = Node \<lparr>min_prefix_len = 0, stored = True, prefix_len = 64, key = sample_key b\<rparr> None None None"

lemma sample_leaf_ok: "wf_node 0 (sample_leaf b)" "leaves (sample_leaf b) = [sample_key b]"
  by (auto simp: sample_leaf_def sample_key_def intro: wf_leaf)

lemma sample_apart:
  "apart (sample_key 0x40) (sample_key 0x80)" "apart (sample_key 0x20) (sample_key 0x80)" "apart (sample_key 0x20) (sample_key 0x40)"
  "apart (sample_key 0x80) (sample_key 0x20)" "apart (sample_key 0x40) (sample_key 0x20)"
  by (auto simp: apart_def sample_key_def stream_bit_def intro: exI [of _ 0] exI [of _ 1])

section \<open>The properties\<close>

text \<open>(C3) The tree a peer builds does not depend on the order in which it learnt the keys: adding the same set of
  keys in two orders succeeds both times and gives trees whose messages (prefixes and summaries of every
  node) are the same.\<close>

theorem sync_tree_order_independent:
  assumes "\<forall>k \<in> set ks. length k = 8" "sorted_wrt (\<lambda>x y. apart y x) ks" "sorted_wrt (\<lambda>x y. apart y x) ls" "set ks = set ls"
  shows "\<exists>s t. add_keys ks (None :: 'c node option) = Some s \<and> add_keys ls (None :: 'c node option) = Some t \<and> tree_messages s = tree_messages t"
  using keys.order_independent [OF assms, of None True] unfolding add_keys_eq .

theorem sync_tree_order_independent_witness:
  "\<exists>s t. add_keys [sample_key 0x80, sample_key 0x40, sample_key 0x20] (None :: unit node option) = Some s \<and>
     add_keys [sample_key 0x20, sample_key 0x80, sample_key 0x40] (None :: unit node option) = Some t \<and> tree_messages s = tree_messages t"
proof (rule sync_tree_order_independent)
  show "set [sample_key 0x80, sample_key 0x40, sample_key 0x20] = set [sample_key 0x20, sample_key 0x80, sample_key 0x40]" by auto
qed (simp_all add: sample_apart, simp_all add: sample_key_def)

text \<open>(C13) Adding a key that can be told apart from those present and removing it again succeeds and gives back a tree
  with the same keys and the same messages in every node.\<close>

theorem sync_tree_add_remove:
  assumes "wf_tree t" "length k = 8" "\<forall>x \<in> tree_keys t. apart k x" "k \<notin> tree_keys t"
  shows "\<exists>n t'. add_key t k ctx st = Some n \<and> remove_key (Some n) k = Some t' \<and> wf_tree t' \<and>
    tree_keys t' = tree_keys t \<and> tree_messages t' = tree_messages t"
  using keys.add_remove [OF assms, of ctx st] by auto

theorem sync_tree_add_remove_witness:
  "\<exists>n t'. add_key (Some (sample_leaf 0x80)) (sample_key 0x40) None True = Some n \<and> remove_key (Some n) (sample_key 0x40) = Some t' \<and>
    wf_tree t' \<and> tree_keys t' = {sample_key 0x80} \<and> tree_messages t' = tree_messages (Some (sample_leaf 0x80))"
  using sync_tree_add_remove [of "Some (sample_leaf 0x80)" "sample_key 0x40" None True] sample_apart
  by (auto simp: sample_leaf_ok) (auto simp: sample_key_def)



text \<open>(C15) Looking a key up in a well-formed state always returns, finds every key that is present, and otherwise
  only ever finds a key that some inner node shows as the summary of other keys.\<close>

theorem sync_key_exists_complete:
  assumes "sync_ok st" "length k = 8"
  shows "\<exists>b. sync_key_exists st k = Some b \<and> (k \<in> tree_keys (root st) \<longrightarrow> b) \<and>
    (b \<longrightarrow> k \<in> tree_keys (root st) \<union> tree_summaries (root st))"
  using find_message_total [of "root st" k] assms by (auto simp: sync_key_exists_def sync_ok_def)

theorem sync_key_exists_complete_witness:
  "sync_key_exists (sample_state\<lparr>root := Some (sample_leaf 0x80)\<rparr>) (sample_key 0x80) = Some True"
  using sync_key_exists_complete [of "sample_state\<lparr>root := Some (sample_leaf 0x80)\<rparr>" "sample_key 0x80"]
  by (auto simp: sync_ok_def sample_leaf_ok sample_state_def sync_alloc_peer_state_def sync_alloc_state_def sample_key_def)

text \<open>The look-up does report keys that were never added: with three keys in the tree the root shows their
  exclusive or, which is then reported as present, and adding it changes nothing.\<close>

theorem sync_key_exists_false_positive:
  "sample_key 0xe0 \<notin> set [sample_key 0x80, sample_key 0x40, sample_key 0x20] \<and>
   Option.bind (sync_add_keys [sample_key 0x80, sample_key 0x40, sample_key 0x20] sample_state)
     (\<lambda>st. sync_key_exists st (sample_key 0xe0)) = Some True \<and>
   Option.bind (sync_add_keys [sample_key 0x80, sample_key 0x40, sample_key 0x20] sample_state)
     (\<lambda>st. map_option key_count (sync_add_key st (sample_key 0xe0) None)) = Some 3"
  by code_simp

text \<open>Two keys that differ in their last bit only end in a failed assertion: the bit of a key at offset 63 is
  never read.\<close>

theorem sync_add_key_last_bit:
  "sync_add_keys [replicate 8 0, replicate 7 0 @ [1]] sample_state = None"
  by code_simp

text \<open>(C14) Whatever a peer sends, processing it never changes our own tree, the number of our keys or what is known of
  the other peers; callbacks are only added to those already made.\<close>

theorem sync_recv_message_own_keys:
  assumes "sync_recv_message st i buff = Some (st', r)"
  shows "root st' = root st \<and> key_count st' = key_count st \<and> length (peers st') = length (peers st) \<and>
    (\<forall>j. j \<noteq> i \<longrightarrow> peers st' ! j = peers st ! j) \<and> (\<exists>es. events st' = events st @ es)"
proof (cases "length buff mod 10 = 0")
  case True
  with assms obtain w' where w': "recv_records buff (st, peers st ! i) = Some (w', r)"
    "st' = fst w'\<lparr>peers := (peers (fst w'))[i := snd w']\<rparr>" by (auto simp: sync_recv_message_def)
  from untouched_recv_records [OF w'(1)] w'(2) show ?thesis by (auto simp: untouched_def)
next
  case False
  with assms show ?thesis by (auto simp: sync_recv_message_def)
qed

theorem sync_recv_message_own_keys_witness:
  "map_option (\<lambda>(st, r). root st) (sync_recv_message sample_state 0 ([0x80, 64] @ sample_key 0x80)) = Some None"
proof -
  obtain st' r where s: "sync_recv_message sample_state 0 ([0x80, 64] @ sample_key 0x80) = Some (st', r)"
  proof -
    have "sync_recv_message sample_state 0 ([0x80, 64] @ sample_key 0x80) \<noteq> None" by code_simp
    then show thesis using that by auto
  qed
  have "root sample_state = None" by code_simp
  with sync_recv_message_own_keys [OF s] s show ?thesis by simp
qed



end
