(* ===== verification/Sha256.thy ===== *)
theory Sha256
  imports BlockHash
begin

unbundle bit_operations_syntax

text \<open>
  \<^verbatim>\<open>hash.c\<close>: SHA-256 with an incremental interface, used for the hashes of the stored files. The scratch memory
  \<^verbatim>\<open>tmp32\<close> is not part of the state. The digest of any sequence of updates is the digest of the padded
  concatenation.
\<close>

section \<open>Model\<close>

definition rotr32 :: "u32 \<Rightarrow> nat \<Rightarrow> u32" where
  "rotr32 x b = drop_bit b x OR push_bit (32 - b) x"

definition load32_be :: "u8 list \<Rightarrow> u32" where
  "load32_be src = ((ucast (src ! 3) OR push_bit 8 (ucast (src ! 2))) OR push_bit 16 (ucast (src ! 1))) OR push_bit 24 (ucast (src ! 0))"

definition store32_be :: "u32 \<Rightarrow> u8 list" where
  "store32_be w = [ucast (drop_bit 24 w), ucast (drop_bit 16 w), ucast (drop_bit 8 w), ucast w]"

definition store64_be :: "u64 \<Rightarrow> u8 list" where
  "store64_be w = map (\<lambda>i. ucast (drop_bit (8 * (7 - i)) w)) [0..<8]"

definition be32enc_vect :: "u32 list \<Rightarrow> nat \<Rightarrow> u8 list" where
  "be32enc_vect src len = concat (map (\<lambda>i. store32_be (src ! i)) [0..<len div 4])"

definition be32dec_vect :: "u8 list \<Rightarrow> nat \<Rightarrow> u32 list" where
  "be32dec_vect src len = map (\<lambda>i. load32_be (drop (i * 4) src)) [0..<len div 4]"

definition Krnd :: "u32 list" where
  "Krnd =
    [0x428a2f98, 0x71374491, 0xb5c0fbcf, 0xe9b5dba5] @ [0x3956c25b, 0x59f111f1, 0x923f82a4, 0xab1c5ed5] @
    [0xd807aa98, 0x12835b01, 0x243185be, 0x550c7dc3] @ [0x72be5d74, 0x80deb1fe, 0x9bdc06a7, 0xc19bf174] @
    [0xe49b69c1, 0xefbe4786, 0x0fc19dc6, 0x240ca1cc] @ [0x2de92c6f, 0x4a7484aa, 0x5cb0a9dc, 0x76f988da] @
    [0x983e5152, 0xa831c66d, 0xb00327c8, 0xbf597fc7] @ [0xc6e00bf3, 0xd5a79147, 0x06ca6351, 0x14292967] @
    [0x27b70a85, 0x2e1b2138, 0x4d2c6dfc, 0x53380d13] @ [0x650a7354, 0x766a0abb, 0x81c2c92e, 0x92722c85] @
    [0xa2bfe8a1, 0xa81a664b, 0xc24b8b70, 0xc76c51a3] @ [0xd192e819, 0xd6990624, 0xf40e3585, 0x106aa070] @
    [0x19a4c116, 0x1e376c08, 0x2748774c, 0x34b0bcb5] @ [0x391c0cb3, 0x4ed8aa4a, 0x5b9cca4f, 0x682e6ff3] @
    [0x748f82ee, 0x78a5636f, 0x84c87814, 0x8cc70208] @ [0x90befffa, 0xa4506ceb, 0xbef9a3f7, 0xc67178f2]"

definition Ch :: "u32 \<Rightarrow> u32 \<Rightarrow> u32 \<Rightarrow> u32" where "Ch x y z = (x AND (y XOR z)) XOR z"
definition Maj :: "u32 \<Rightarrow> u32 \<Rightarrow> u32 \<Rightarrow> u32" where "Maj x y z = (x AND (y OR z)) OR (y AND z)"
definition S0 :: "u32 \<Rightarrow> u32" where "S0 x = (rotr32 x 2 XOR rotr32 x 13) XOR rotr32 x 22"
definition S1 :: "u32 \<Rightarrow> u32" where "S1 x = (rotr32 x 6 XOR rotr32 x 11) XOR rotr32 x 25"
definition s0 :: "u32 \<Rightarrow> u32" where "s0 x = (rotr32 x 7 XOR rotr32 x 18) XOR drop_bit 3 x"
definition s1 :: "u32 \<Rightarrow> u32" where "s1 x = (rotr32 x 17 XOR rotr32 x 19) XOR drop_bit 10 x"

text \<open>One round on the array \<open>S\<close>; the macro rotates the roles of its eight entries with \<open>i\<close>.\<close>

definition RNDr :: "u32 list \<Rightarrow> nat \<Rightarrow> nat \<Rightarrow> u32 list \<Rightarrow> u32 list" where
  "RNDr W ii i S =
     (let a = (64 - i) mod 8; b = (65 - i) mod 8; c = (66 - i) mod 8; d = (67 - i) mod 8;
          e = (68 - i) mod 8; f = (69 - i) mod 8; g = (70 - i) mod 8; h = (71 - i) mod 8;
          k = W ! (i + ii) + Krnd ! (i + ii);
          S = S[h := S ! h + (S1 (S ! e) + Ch (S ! e) (S ! f) (S ! g) + k)];
          S = S[d := S ! d + S ! h];
          S = S[h := S ! h + (S0 (S ! a) + Maj (S ! a) (S ! b) (S ! c))]
      in S)"

definition MSCH :: "nat \<Rightarrow> nat \<Rightarrow> u32 list \<Rightarrow> u32 list" where
  "MSCH i ii W = W[i + ii + 16 := s1 (W ! (i + ii + 14)) + W ! (i + ii + 9) + s0 (W ! (i + ii + 1)) + W ! (i + ii)]"

text \<open>Sixteen rounds and, except after the last, the next sixteen entries of the schedule.\<close>

definition transform_rounds :: "nat \<Rightarrow> u32 list \<times> u32 list \<Rightarrow> u32 list \<times> u32 list" where
  "transform_rounds i SW =
     (let S = fold (\<lambda>k. RNDr (snd SW) i k) [0..<16] (fst SW)
      in if i = 48 then (S, snd SW) else (S, fold (\<lambda>k. MSCH k i) [0..<16] (snd SW)))"

definition SHA256_Transform :: "u32 list \<Rightarrow> u8 list \<Rightarrow> u32 list" where
  "SHA256_Transform state block =
     (let W = be32dec_vect block 64 @ replicate 48 0;
          S = fst (fold transform_rounds [0, 16, 32, 48] (state, W))
      in map (\<lambda>i. state ! i + S ! i) [0..<8])"

definition PAD :: "u8 list" where "PAD = 0x80 # replicate 63 0"

record sha256_state =
  hash_state :: "u32 list"
  count :: u64
  buf :: "u8 list"

definition SHA256_Pad :: "sha256_state \<Rightarrow> sha256_state" where
  "SHA256_Pad s =
     (let r = unat (drop_bit 3 (count s) AND 0x3f);
          s = (if r < 56 then s\<lparr>buf := put r (take (56 - r) PAD) (buf s)\<rparr>
               else let b = put r (take (64 - r) PAD) (buf s)
                    in s\<lparr>hash_state := SHA256_Transform (hash_state s) b, buf := put 0 (replicate 56 0) b\<rparr>);
          s = s\<lparr>buf := put 56 (store64_be (count s)) (buf s)\<rparr>
      in s\<lparr>hash_state := SHA256_Transform (hash_state s) (buf s)\<rparr>)"

definition sha256_initial_state :: "u32 list" where
  "sha256_initial_state = [0x6a09e667, 0xbb67ae85, 0x3c6ef372, 0xa54ff53a, 0x510e527f, 0x9b05688c, 0x1f83d9ab, 0x5be0cd19]"

text \<open>The buffer of a new state is whatever was in memory: \<open>junk\<close>.\<close>

definition crypto_hash_sha256_init :: "(nat \<Rightarrow> u8) \<Rightarrow> sha256_state" where
  "crypto_hash_sha256_init junk = \<lparr>hash_state = sha256_initial_state, count = 0, buf = map junk [0..<64]\<rparr>"

definition crypto_hash_sha256_update :: "sha256_state \<Rightarrow> u8 list \<Rightarrow> sha256_state" where
  "crypto_hash_sha256_update s inp =
     (if length inp = 0 then s
      else let r = unat (drop_bit 3 (count s) AND 0x3f);
               s = s\<lparr>count := count s + push_bit 3 (of_nat (length inp))\<rparr>
           in if length inp < 64 - r then s\<lparr>buf := put r inp (buf s)\<rparr>
              else let b = put r (take (64 - r) inp) (buf s);
                       (h, rest) = absorb 64 SHA256_Transform (SHA256_Transform (hash_state s) b) (drop (64 - r) inp)
                   in s\<lparr>hash_state := h, buf := put 0 rest b\<rparr>)"

definition crypto_hash_sha256_final :: "sha256_state \<Rightarrow> u8 list" where
  "crypto_hash_sha256_final s = be32enc_vect (hash_state (SHA256_Pad s)) 32"

definition crypto_hash_sha256 :: "(nat \<Rightarrow> u8) \<Rightarrow> u8 list \<Rightarrow> u8 list" where
  "crypto_hash_sha256 junk inp = crypto_hash_sha256_final (crypto_hash_sha256_update (crypto_hash_sha256_init junk) inp)"

section \<open>The padded message\<close>

definition sha256_padded :: "u8 list \<Rightarrow> u8 list" where
  "sha256_padded m = m @ [0x80] @ replicate ((119 - length m mod 64) mod 64) 0 @ store64_be (of_nat (8 * length m))"

definition sha256_digest :: "u8 list \<Rightarrow> u8 list" where
  "sha256_digest m = be32enc_vect (fst (absorb 64 SHA256_Transform sha256_initial_state (sha256_padded m))) 32"

text \<open>A state that has absorbed \<open>m\<close>.\<close>

definition sha256_holds :: "sha256_state \<Rightarrow> u8 list \<Rightarrow> bool" where
  "sha256_holds s m \<longleftrightarrow> length (buf s) = 64 \<and> count s = of_nat (8 * length m) \<and>
     (hash_state s, take (length m mod 64) (buf s)) = absorb 64 SHA256_Transform sha256_initial_state m"

lemma count_rest: "unat (drop_bit 3 (of_nat (8 * n) :: u64) AND 0x3f) = n mod 64"
proof -
  have "unat (of_nat (8 * n) :: u64) = (8 * n) mod 2 ^ 64" by (simp only: unsigned_of_nat take_bit_eq_mod) simp
  moreover have "(8 * n) mod 2 ^ 64 = 8 * (n mod 2 ^ 61)" by (simp add: mult_mod_right)
  ultimately have "unat (drop_bit 3 (of_nat (8 * n) :: u64)) = n mod 2 ^ 61"
    by (simp only: unat_drop_bit_nat) simp
  moreover have "unat (w AND (0x3f :: u64)) = unat w mod 64" for w
    using unat_and_mask [of w 6] by (simp add: mask_eq_exp_minus_1)
  moreover have "n mod 2 ^ 61 mod 64 = n mod 64" by (rule mod_mod_cancel) simp
  ultimately show ?thesis by simp
qed

text \<open>The parts of \<^const>\<open>sha256_holds\<close>, with the length of the unfinished block as \<open>r\<close>.\<close>

lemma sha256_holdsE:
  assumes "sha256_holds s m"
  obtains r where "length (buf s) = 64" "count s = of_nat (8 * length m)" "r = length m mod 64" "r < 64"
    "absorb 64 SHA256_Transform sha256_initial_state m = (hash_state s, take r (buf s))"
    "unat (drop_bit 3 (count s) AND 0x3f) = r"
  using assms count_rest [of "length m"] that [of "length m mod 64"] by (simp add: sha256_holds_def del: of_nat_mult)

lemma sha256_holds_update:
  assumes "sha256_holds s m"
  shows "sha256_holds (crypto_hash_sha256_update s x) (m @ x)"
proof (cases "x = []")
  case True
  with assms show ?thesis by (simp add: crypto_hash_sha256_update_def)
next
  case False
  let ?T = SHA256_Transform and ?h0 = sha256_initial_state
  obtain r where s: "length (buf s) = 64" "count s = of_nat (8 * length m)" and r: "r = length m mod 64" "r < 64"
    and ab: "absorb 64 ?T ?h0 m = (hash_state s, take r (buf s))" and cr: "unat (drop_bit 3 (count s) AND 0x3f) = r"
    using assms by (rule sha256_holdsE)
  have cnt: "count s + push_bit 3 (of_nat (length x)) = of_nat (8 * length (m @ x))"
    by (simp add: s(2) push_bit_eq_mult algebra_simps)
  have len: "length (take r (buf s)) = r" using s(1) r(2) by simp
  have all: "absorb 64 ?T ?h0 (m @ x) = (if length x < 64 - r then (hash_state s, take r (buf s) @ x)
      else absorb 64 ?T (?T (hash_state s) (take r (buf s) @ take (64 - r) x)) (drop (64 - r) x))"
    using absorb_update [of "take r (buf s)" 64 ?T "hash_state s" x] len r(2)
    by (simp add: absorb_append [of 64 ?T ?h0 m x] ab)
  have rest: "length (snd (absorb 64 ?T ?h0 (m @ x))) = length (m @ x) mod 64" by (rule absorb_rest) simp
  show ?thesis
  proof (cases "length x < 64 - r")
    case True
    then have "length (m @ x) mod 64 = r + length x" using rest all len by simp
    with True False all cr cnt s r(2) show ?thesis
      by (simp add: crypto_hash_sha256_update_def sha256_holds_def Let_def length_put take_put del: of_nat_mult)
  next
    case big: False
    define b where "b = put r (take (64 - r) x) (buf s)"
    have b: "b = take r (buf s) @ take (64 - r) x" "length b = 64"
      using big len s(1) put_all [of "buf s" r "take (64 - r) x"] r(2) by (simp_all add: b_def)
    obtain h y where hy: "absorb 64 ?T (?T (hash_state s) b) (drop (64 - r) x) = (h, y)" by force
    with all big b(1) have y: "absorb 64 ?T ?h0 (m @ x) = (h, y)" by simp
    with rest have ly: "length y = length (m @ x) mod 64" by simp
    then have "length y \<le> 64" using mod_less_divisor [of 64 "length (m @ x)"] by simp
    then have "length (put 0 y b) = 64" "take (length y) (put 0 y b) = y" using b(2) by (simp_all add: put_def)
    moreover have "crypto_hash_sha256_update s x = s\<lparr>count := of_nat (8 * length (m @ x)), hash_state := h, buf := put 0 y b\<rparr>"
      using big False cr cnt hy by (simp add: crypto_hash_sha256_update_def Let_def b_def del: of_nat_mult)
    ultimately show ?thesis using y ly by (simp add: sha256_holds_def del: of_nat_mult length_append)
  qed
qed

lemma length_store64 [simp]: "length (store64_be w) = 8"
  by (simp add: store64_be_def)

lemma take_PAD: "0 < n \<Longrightarrow> n \<le> 64 \<Longrightarrow> take n PAD = 0x80 # replicate (n - 1) 0"
  by (simp add: PAD_def take_Cons' min_def)

lemma sha256_holds_final:
  assumes "sha256_holds s m"
  shows "crypto_hash_sha256_final s = sha256_digest m"
proof -
  let ?T = SHA256_Transform and ?h0 = sha256_initial_state and ?c = "store64_be (count s)"
  obtain r where s: "length (buf s) = 64" "count s = of_nat (8 * length m)" and r: "r = length m mod 64" "r < 64"
    and ab: "absorb 64 ?T ?h0 m = (hash_state s, take r (buf s))" and cr: "unat (drop_bit 3 (count s) AND 0x3f) = r"
    using assms by (rule sha256_holdsE)
  define p where "p = take r (buf s) @ [0x80] @ replicate ((119 - r) mod 64) 0 @ ?c"
  have dig: "sha256_digest m = be32enc_vect (fst (absorb 64 ?T (hash_state s) p)) 32"
    unfolding sha256_digest_def sha256_padded_def absorb_append [of 64 ?T ?h0 m] ab p_def s(2) r(1) by simp
  show ?thesis
  proof (cases "r < 56")
    case True
    then have z: "(119 - r) mod 64 = 55 - r" by (simp add: mod_if)
    have "put 56 ?c (put r (take (56 - r) PAD) (buf s)) = p"
      using True s(1) put_put [of "buf s" r "take (56 - r) PAD" ?c] by (simp add: take_PAD p_def z)
    moreover have "length p = 64" using True s(1) by (simp add: p_def z)
    ultimately show ?thesis using True cr absorb_block [of 64 p ?T "hash_state s" "[]"]
      by (simp add: crypto_hash_sha256_final_def SHA256_Pad_def Let_def dig absorb_short)
  next
    case False
    then have z: "(119 - r) mod 64 = (63 - r) + 56" using r(2) by simp
    define b where "b = put r (take (64 - r) PAD) (buf s)"
    have b: "b = take r (buf s) @ [0x80] @ replicate (63 - r) 0" "length b = 64"
      using s(1) r(2) put_all [of "buf s" r "take (64 - r) PAD"] by (simp_all add: take_PAD b_def)
    have p: "p = b @ replicate 56 0 @ ?c" unfolding p_def z replicate_add b(1) by simp
    have "put 56 ?c (put 0 (replicate 56 0) b) = replicate 56 0 @ ?c" using b(2) by (simp add: put_def)
    with False cr absorb_block [of 64 b ?T "hash_state s" "replicate 56 0 @ ?c"] b(2)
      absorb_block [of 64 "replicate 56 0 @ ?c" ?T "?T (hash_state s) b" "[]"]
    show ?thesis
      by (simp add: crypto_hash_sha256_final_def SHA256_Pad_def Let_def dig p absorb_short b_def [symmetric])
  qed
qed

interpretation sha: stream_hash "crypto_hash_sha256_init junk" crypto_hash_sha256_update crypto_hash_sha256_final sha256_holds sha256_digest
  for junk
proof
  show "sha256_holds (crypto_hash_sha256_init junk) []"
    by (simp add: sha256_holds_def crypto_hash_sha256_init_def absorb_short)
  fix s m x
  show "sha256_holds s m \<Longrightarrow> sha256_holds (crypto_hash_sha256_update s x) (m @ x)" by (rule sha256_holds_update)
  show "sha256_holds s m \<Longrightarrow> crypto_hash_sha256_final s = sha256_digest m" by (rule sha256_holds_final)
qed

section \<open>The properties\<close>

text \<open>(C6) Hashing a file piece by piece gives the digest of the whole: whatever the pieces and whatever was in the
  buffer before, the result is the compression of the initial state with the blocks of the padded
  concatenation, which is also what the one-shot function returns.\<close>

theorem sha256_pieces:
  "crypto_hash_sha256_final (foldl crypto_hash_sha256_update (crypto_hash_sha256_init junk) xs) = sha256_digest (concat xs) \<and>
   crypto_hash_sha256 junk' (concat xs) = sha256_digest (concat xs)"
  using sha.pieces_digest [of junk xs] sha.pieces_digest [of junk' "[concat xs]"] by (simp add: crypto_hash_sha256_def)

end
