(* ===== verification/Storage.thy ===== *)
theory Storage
  imports SyncProps Sha256
begin

unbundle bit_operations_syntax

text \<open>
  \<^verbatim>\<open>storage.cpp\<close>: the files of the application, of which the database keeps lengths and hashes, and the exchange of this
  metadata with peers. The LMDB database is a pair of ordered tables; whether its calls succeed is an argument, one answer for each
  kind of call during an operation. Calls into Java are collected in a list. \<open>None\<close> is an access outside an object or
  through a null pointer, and behaviour the language leaves undefined.
\<close>

section \<open>The database\<close>

datatype db_call = Env_create | Env_open | Dbi_open | Txn_begin | Get | Put_file | Put_version | Put_root | Commit | Alloc

text \<open>LMDB orders keys by their bytes, a prefix before its extensions.\<close>

fun key_less :: "u8 list \<Rightarrow> u8 list \<Rightarrow> bool" where
  "key_less [] ys \<longleftrightarrow> ys \<noteq> []"
| "key_less (x # xs) [] \<longleftrightarrow> False"
| "key_less (x # xs) (y # ys) \<longleftrightarrow> x < y \<or> x = y \<and> key_less xs ys"

fun mdb_put :: "u8 list \<Rightarrow> 'v \<Rightarrow> (u8 list \<times> 'v) list \<Rightarrow> (u8 list \<times> 'v) list" where
  "mdb_put k v [] = [(k, v)]"
| "mdb_put k v ((k', v') # xs) =
     (if k = k' then (k, v) # xs else if key_less k k' then (k, v) # (k', v') # xs else (k', v') # mdb_put k v xs)"

record file_version =
  fv_version :: u32
  fv_length :: u64
  fv_name :: "u8 list"

text \<open>The members of \<^verbatim>\<open>struct file_data\<close> up to \<^verbatim>\<open>name\<close>, which are stored, and the whole.\<close>

record persisted =
  fd_version :: u32
  fd_length :: u64
  fd_hash :: "u8 list"
  fd_partial :: sha256_state

record file_data =
  fd_committed :: persisted
  fd_name :: "u8 list"
  fd_new_length :: u64
  fd_new_hash :: sha256_state

record root_state =
  root_hash :: "u8 list"
  root_version :: u8

text \<open>The table \<^verbatim>\<open>files\<close>, where \<open>None\<close> is a value of another size than the stored members, and the table \<^verbatim>\<open>index\<close>: the
  versions under sync keys of 8 bytes and the value under the key of one byte for the root.\<close>

record database =
  files :: "(u8 list \<times> persisted option) list"
  versions :: "(u8 list \<times> file_version) list"
  root_value :: "u8 list option"

record 'p dbstate =
  db :: database
  db_root :: root_state
  db_sync :: "(unit, 'p) sync_state option"
  db_keys :: u32
  db_deleted :: u32

datatype 'p java_call =
    Sync_message 'p "u8 list"
  | Peer_has 'p "u8 list" "u8 list" u64
  | File_callback u64 "u8 list"
  | Store_callback "u8 list"

abbreviation (input) DB_VERSION :: u8 where "DB_VERSION \<equiv> 2"
abbreviation (input) SYNC_MSG_KEY :: u8 where "SYNC_MSG_KEY \<equiv> 0"
abbreviation (input) SYNC_MSG_REQ_METADATA :: u8 where "SYNC_MSG_REQ_METADATA \<equiv> 1"
abbreviation (input) SYNC_MSG_SEND_METADATA :: u8 where "SYNC_MSG_SEND_METADATA \<equiv> 2"

definition zero_root :: root_state where
  "zero_root = \<lparr>root_hash = replicate 32 0, root_version = 0\<rparr>"

definition open_db :: "(db_call \<Rightarrow> bool) \<Rightarrow> database \<Rightarrow> int + database \<times> root_state" where
  "open_db ok d =
     (if \<not> (ok Env_create \<and> ok Env_open \<and> ok Txn_begin \<and> ok Dbi_open) then Inl (-1)
      else let (d', r) =
             (case if ok Get then root_value d else None of
                None \<Rightarrow> (d, zero_root)
              | Some v \<Rightarrow>
                  let r = (if length v = 33 then \<lparr>root_hash = take 32 v, root_version = v ! 32\<rparr> else zero_root)
                  in if root_version r \<noteq> DB_VERSION then (\<lparr>files = [], versions = [], root_value = None\<rparr>, zero_root) else (d, r))
           in if ok Commit then Inr (d', r\<lparr>root_version := DB_VERSION\<rparr>) else Inl (-1))"

section \<open>Metadata\<close>

text \<open>What lies in memory behind the first two members of a stored file: the hash and its state, in the byte order of the
  supported processors.\<close>

definition bytes_le32 :: "u32 \<Rightarrow> u8 list" where
  "bytes_le32 w = map (\<lambda>i. ucast (drop_bit (8 * i) w)) [0..<4]"

definition bytes_le64 :: "u64 \<Rightarrow> u8 list" where
  "bytes_le64 w = map (\<lambda>i. ucast (drop_bit (8 * i) w)) [0..<8]"

definition persisted_tail :: "persisted \<Rightarrow> u8 list" where
  "persisted_tail p = fd_hash p @ concat (map bytes_le32 (hash_state (fd_partial p))) @ bytes_le64 (count (fd_partial p)) @ buf (fd_partial p)"

text \<open>The sync key is looked up in the table of files; a value found there is read as a \<^verbatim>\<open>file_version\<close>.\<close>

definition process_difference :: "(db_call \<Rightarrow> bool) \<Rightarrow> database \<Rightarrow> 'p \<Rightarrow> u8 list \<Rightarrow> 'p java_call list option" where
  "process_difference ok d peer sync_key =
     (if \<not> ok Txn_begin \<or> \<not> ok Get then Some []
      else case map_of (files d) sync_key of
             None \<Rightarrow> Some [Sync_message peer (SYNC_MSG_REQ_METADATA # sync_key)]
           | Some None \<Rightarrow> None
           | Some (Some p) \<Rightarrow>
               if 0 \<in> set (persisted_tail p)
               then Some [Peer_has peer sync_key (takeWhile (\<lambda>b. b \<noteq> 0) (persisted_tail p)) (fd_length p)] else None)"

function pack_uint :: "u64 \<Rightarrow> u8 list" where
  "pack_uint v = (ucast (v AND 0x7f) OR (if v > 0x7f then 0x80 else 0)) # (if drop_bit 7 v = 0 then [] else pack_uint (drop_bit 7 v))"
  by pat_completeness auto
termination
proof (relation "measure unat")
  fix v :: u64
  assume nz: "drop_bit 7 v \<noteq> 0"
  have "unat (drop_bit 7 v) = unat v div 2 ^ 7" by (rule unat_drop_bit_nat)
  moreover from nz have "unat v \<noteq> 0" by (auto simp: unat_eq_0)
  ultimately show "(drop_bit 7 v, v) \<in> measure unat" by simp
qed simp

declare pack_uint.simps [simp del]

text \<open>The seven bits are shifted as an \<^verbatim>\<open>int\<close>, which is then extended to 64 bits; a shift by 32 or more, or beyond 32 bits, is
  undefined. The result is the number of bytes read, -1 at the end of the buffer, and the value so far.\<close>

fun unpack_from :: "nat \<Rightarrow> u64 \<Rightarrow> u8 list \<Rightarrow> (int \<times> u64) option" where
  "unpack_from i v [] = Some (-1, v)"
| "unpack_from i v (b # bs) =
     (if 7 * i \<ge> 32 \<or> unat (b AND 0x7f) * 2 ^ (7 * i) \<ge> 2 ^ 32 then None
      else let v' = v OR scast (push_bit (7 * i) (ucast (b AND 0x7f) :: u32))
           in if b AND 0x80 = 0 then Some (int (i + 1), v') else unpack_from (i + 1) v' bs)"

definition unpack_uint :: "u8 list \<Rightarrow> (int \<times> u64) option" where
  "unpack_uint buffer = unpack_from 0 0 buffer"

definition send_metadata :: "(db_call \<Rightarrow> bool) \<Rightarrow> database \<Rightarrow> 'p \<Rightarrow> u8 list \<Rightarrow> 'p java_call list" where
  "send_metadata ok d peer sync_key =
     (if \<not> ok Txn_begin \<or> \<not> ok Get then []
      else case map_of (versions d) sync_key of
             None \<Rightarrow> []
           | Some fv \<Rightarrow> [Sync_message peer (SYNC_MSG_SEND_METADATA # sync_key @ pack_uint (ucast (fv_version fv)) @
               pack_uint (fv_length fv) @ fv_name fv @ [0])])"

text \<open>\<^verbatim>\<open>sizeof(sync_key_t)\<close> is 8 and the name of a \<^verbatim>\<open>file_version\<close> stands at offset 16. The name is copied into a zeroed array of
  256 bytes and printed.\<close>

definition receive_metadata :: "(db_call \<Rightarrow> bool) \<Rightarrow> database \<Rightarrow> 'p \<Rightarrow> u8 list \<Rightarrow> (database \<times> 'p java_call list) option" where
  "receive_metadata ok d peer msg =
     (if length msg < 8 + 16 + 2 then Some (d, [])
      else do {
        let sync_key = take 8 msg;
        (n1, v1) \<leftarrow> unpack_uint (drop 8 msg);
        let offset = nat (8 + n1);
        (n2, v2) \<leftarrow> unpack_uint (drop offset msg);
        let offset = nat (int offset + n2);
        let rest = drop offset msg;
        (if length rest > 256 \<or> length rest = 256 \<and> 0 \<notin> set rest then None
         else let fv = \<lparr>fv_version = ucast v1, fv_length = v2, fv_name = takeWhile (\<lambda>b. b \<noteq> 0) rest\<rparr>
              in if ok Txn_begin \<and> ok Put_version \<and> ok Commit
                 then Some (d\<lparr>versions := mdb_put sync_key fv (versions d)\<rparr>, [Peer_has peer sync_key (fv_name fv) (fv_length fv)])
                 else Some (d, [])) })"

section \<open>Files\<close>

text \<open>An empty name is an error of \<^verbatim>\<open>mdb_get\<close>. The memory of a new file is zeroed. The result \<open>None\<close> of \<^verbatim>\<open>file_open\<close> is the null pointer.\<close>

definition new_file :: persisted where
  "new_file = \<lparr>fd_version = 0, fd_length = 0, fd_hash = replicate 32 0, fd_partial = crypto_hash_sha256_init (\<lambda>_. 0)\<rparr>"

definition file_open :: "(db_call \<Rightarrow> bool) \<Rightarrow> database \<Rightarrow> u8 list \<Rightarrow> file_data option" where
  "file_open ok d name =
     (if \<not> ok Txn_begin \<or> \<not> ok Get \<or> name = [] \<or> \<not> ok Alloc then None
      else let key = take 255 name;
               p = (case map_of (files d) key of Some (Some p) \<Rightarrow> p | _ \<Rightarrow> new_file)
           in Some \<lparr>fd_committed = p, fd_name = key, fd_new_length = fd_length p, fd_new_hash = fd_partial p\<rparr>)"

definition file_append :: "file_data \<Rightarrow> u8 list \<Rightarrow> file_data" where
  "file_append file data =
     file\<lparr>fd_new_hash := crypto_hash_sha256_update (fd_new_hash file) data, fd_new_length := fd_new_length file + of_nat (length data)\<rparr>"

definition file_rewind :: "file_data \<Rightarrow> file_data" where
  "file_rewind file = file\<lparr>fd_new_length := fd_length (fd_committed file), fd_new_hash := fd_partial (fd_committed file)\<rparr>"

definition file_flush :: "(db_call \<Rightarrow> bool) \<Rightarrow> 'p dbstate \<Rightarrow> file_data \<Rightarrow> u8 list \<Rightarrow> (int \<times> 'p dbstate \<times> file_data) option" where
  "file_flush ok st file expected_hash =
     (let p = fd_committed file
      in if fd_length p = fd_new_length file then Some (0, st, file)
         else if length expected_hash > 32 then None
         else let h = crypto_hash_sha256_final (fd_new_hash file)
              in if expected_hash \<noteq> [] \<and> expected_hash \<noteq> take (length expected_hash) h then Some (-1, st, file_rewind file)
                 else let p' = \<lparr>fd_version = fd_version p + 1, fd_length = fd_new_length file, fd_hash = h, fd_partial = fd_new_hash file\<rparr>;
                          fv = \<lparr>fv_version = fd_version p', fv_length = fd_length p', fv_name = fd_name file\<rparr>;
                          r = \<lparr>root_hash = map (\<lambda>i. root_hash (db_root st) ! i XOR h ! i XOR fd_hash p ! i) [0..<32], root_version = DB_VERSION\<rparr>;
                          d = \<lparr>files = mdb_put (fd_name file) (Some p') (files (db st)),
                               versions = mdb_put (take 8 h) fv (versions (db st)),
                               root_value = Some (root_hash r @ [root_version r])\<rparr>
                      in if \<not> (ok Txn_begin \<and> ok Put_file \<and> ok Put_version \<and> ok Put_root \<and> ok Commit)
                         then Some (-1, st, file_rewind file)
                         else do {
                           let st = st\<lparr>db := d, db_root := r\<rparr>;
                           st \<leftarrow> (case db_sync st of
                                    None \<Rightarrow> Some st
                                  | Some s \<Rightarrow> do {
                                      s \<leftarrow> sync_add_key s (take 8 h) None;
                                      Some (st\<lparr>db_sync := Some s, db_keys := db_keys st + 1,
                                               db_deleted := db_deleted st + (if fd_length p > 0 then 1 else 0)\<rparr>) });
                           Some (1, st, file\<lparr>fd_committed := p'\<rparr>) })"

section \<open>Operations called from Java\<close>

text \<open>Opening the storage returns the handle 0, here \<open>None\<close>, when it fails; a file that could not be opened is a null pointer that is
  followed.\<close>

definition jni_storage_open :: "(db_call \<Rightarrow> bool) \<Rightarrow> database \<Rightarrow> ('p dbstate \<times> 'p java_call list) option" where
  "jni_storage_open ok d =
     (if \<not> ok Alloc then None
      else case open_db ok d of
             Inl _ \<Rightarrow> None
           | Inr (d', r) \<Rightarrow>
               Some (\<lparr>db = d', db_root = r, db_sync = None, db_keys = 0, db_deleted = 0\<rparr>, [Store_callback (root_hash r)]))"

definition jni_file_open :: "(db_call \<Rightarrow> bool) \<Rightarrow> 'p dbstate \<Rightarrow> u8 list \<Rightarrow> (file_data \<times> 'p java_call list) option" where
  "jni_file_open ok st name =
     map_option (\<lambda>file. (file, [File_callback (fd_length (fd_committed file)) (fd_hash (fd_committed file))])) (file_open ok (db st) name)"

definition jni_file_flush ::
    "(db_call \<Rightarrow> bool) \<Rightarrow> 'p dbstate \<Rightarrow> file_data \<Rightarrow> u8 list \<Rightarrow> (int \<times> 'p dbstate \<times> file_data \<times> 'p java_call list) option" where
  "jni_file_flush ok st file expected_hash = do {
     (ret, st, file) \<leftarrow> file_flush ok st file expected_hash;
     Some (ret, st, file,
       (if ret \<noteq> 0 then [File_callback (fd_length (fd_committed file)) (fd_hash (fd_committed file))] else []) @
       (if ret = 1 then [Store_callback (root_hash (db_root st))] else [])) }"

text \<open>The current hash of every file is added when the state of the synchronisation is first needed.\<close>

fun add_files :: "(u8 list \<times> persisted option) list \<Rightarrow> (unit, 'p) sync_state \<times> u32 \<Rightarrow> ((unit, 'p) sync_state \<times> u32) option" where
  "add_files [] x = Some x"
| "add_files ((_, None) # fs) x = add_files fs x"
| "add_files ((_, Some p) # fs) (s, n) = Option.bind (sync_add_key s (take 8 (fd_hash p)) None) (\<lambda>s. add_files fs (s, n + 1))"

definition init_sync_state :: "(db_call \<Rightarrow> bool) \<Rightarrow> 'p dbstate \<Rightarrow> 'p dbstate option" where
  "init_sync_state ok st =
     (if db_sync st \<noteq> None \<or> \<not> ok Txn_begin then Some st
      else do {
        (s, n) \<leftarrow> add_files (files (db st)) (sync_alloc_state True True True True, 0);
        Some (st\<lparr>db_sync := Some s, db_keys := n, db_deleted := 0\<rparr>) })"

text \<open>The four callbacks of the synchronisation.\<close>

fun sync_callback :: "(db_call \<Rightarrow> bool) \<Rightarrow> database \<Rightarrow> (unit, 'p) event \<Rightarrow> 'p java_call list option" where
  "sync_callback ok d (Has peer sync_key) = process_difference ok d peer sync_key"
| "sync_callback ok d (HasNot peer ctx sync_key) = Some []"
| "sync_callback ok d (NowHas peer ctx sync_key) = process_difference ok d peer sync_key"
| "sync_callback ok d (QueueMessage peer m) = Some [Sync_message peer (SYNC_MSG_KEY # message_bytes m)]"

fun sync_callbacks :: "(db_call \<Rightarrow> bool) \<Rightarrow> database \<Rightarrow> (unit, 'p) event list \<Rightarrow> 'p java_call list option" where
  "sync_callbacks ok d [] = Some []"
| "sync_callbacks ok d (e # es) = do { c \<leftarrow> sync_callback ok d e; cs \<leftarrow> sync_callbacks ok d es; Some (c @ cs) }"

definition handle_message :: "(db_call \<Rightarrow> bool) \<Rightarrow> 'p \<Rightarrow> 'p dbstate \<Rightarrow> nat \<Rightarrow> u8 list \<Rightarrow> ('p dbstate \<times> 'p java_call list) option" where
  "handle_message ok peer st i msg =
     (case msg of
        [] \<Rightarrow> None
      | t # body \<Rightarrow>
          if t = SYNC_MSG_KEY then do {
            s \<leftarrow> db_sync st;
            (s', _) \<leftarrow> sync_recv_message s i body;
            calls \<leftarrow> sync_callbacks ok (db st) (drop (length (events s)) (events s'));
            Some (st\<lparr>db_sync := Some s'\<rparr>, calls) }
          else if t = SYNC_MSG_REQ_METADATA then
            if length body < 8 then None else Some (st, send_metadata ok (db st) peer (take 8 body))
          else if t = SYNC_MSG_SEND_METADATA then do {
            (d, calls) \<leftarrow> receive_metadata ok (db st) peer body;
            Some (st\<lparr>db := d\<rparr>, calls) }
          else Some (st, []))"

text \<open>A message from a peer, or its end. The peer's state is its place in the list of peers, a new one the first place.\<close>

definition jni_peer_message ::
    "(db_call \<Rightarrow> bool) \<Rightarrow> 'p \<Rightarrow> 'p dbstate \<Rightarrow> nat option \<Rightarrow> u8 list option \<Rightarrow> ('p dbstate \<times> nat option \<times> 'p java_call list) option" where
  "jni_peer_message ok peer st peer_state message_arg =
     (case message_arg of
        Some msg \<Rightarrow> do {
          st \<leftarrow> init_sync_state ok st;
          s \<leftarrow> db_sync st;
          let (st, i) = (case peer_state of Some i \<Rightarrow> (st, i) | None \<Rightarrow> (st\<lparr>db_sync := Some (sync_alloc_peer_state s peer)\<rparr>, 0));
          (st, calls) \<leftarrow> handle_message ok peer st i msg;
          Some (st, Some i, calls) }
      | None \<Rightarrow>
          (case peer_state of
             None \<Rightarrow> Some (st, None, [])
           | Some i \<Rightarrow> do {
               s \<leftarrow> db_sync st;
               Some (st\<lparr>db_sync := Some (fst (sync_free_peer_state s i))\<rparr>, None, []) }))"

definition jni_queue_root_message :: "(db_call \<Rightarrow> bool) \<Rightarrow> 'p \<Rightarrow> 'p dbstate \<Rightarrow> ('p dbstate \<times> 'p java_call list) option" where
  "jni_queue_root_message ok peer st = do {
     st \<leftarrow> init_sync_state ok st;
     s \<leftarrow> db_sync st;
     Some (st, [Sync_message peer (SYNC_MSG_KEY # sync_root_msg s 64)]) }"

end
