(* ===== verification/StorageProps.thy ===== *)
theory StorageProps
  imports Storage
begin

unbundle bit_operations_syntax

text \<open>
  What the storage promises: the database is a table of file contents, of which it keeps the digests, and its root hash is the
  exclusive or of the digests of all files. Opening, appending and flushing refine appending to a content; a flush that fails
  changes nothing, and opening the storage again finds the same contents.
\<close>

section \<open>Ordered tables\<close>

text \<open>The interface of the database: a table with look-up and insertion, and what the root hash needs of it, namely that the exclusive
  or over its entries changes by the old and the new value of the key.\<close>

definition xor_over :: "('e \<Rightarrow> u8) \<Rightarrow> 'e list \<Rightarrow> u8" where
  "xor_over f es = fold (\<lambda>e a. f e XOR a) es 0"

lemma xor_over_init: "fold (\<lambda>e a. f e XOR a) es x = xor_over f es XOR x" for x :: u8
proof (induction es arbitrary: x)
  case (Cons e es)
  have "xor_over f (e # es) = xor_over f es XOR f e" using Cons.IH [of "f e"] by (simp add: xor_over_def)
  with Cons.IH [of "f e XOR x"] show ?case by (simp add: xor.assoc)
qed (simp add: xor_over_def)

lemma xor_over_Cons: "xor_over f (e # es) = f e XOR xor_over f es"
  using xor_over_init [of f es "f e"] by (simp add: xor_over_def xor.commute)

lemma xor_over_mset: "mset xs = mset ys \<Longrightarrow> xor_over f xs = xor_over f ys"
  unfolding xor_over_def by (subst fold_multiset_equiv [of xs _ ys]) (auto simp: fun_eq_iff xor.left_commute)

locale keyed_table =
  fixes valid :: "'t \<Rightarrow> bool"
    and get :: "'t \<Rightarrow> 'k \<Rightarrow> 'v option"
    and put_entry :: "'k \<Rightarrow> 'v \<Rightarrow> 't \<Rightarrow> 't"
    and entries :: "'t \<Rightarrow> ('k \<times> 'v) list"
  assumes valid_put: "valid t \<Longrightarrow> valid (put_entry k v t)"
    and get_put: "get (put_entry k v t) k' = (if k' = k then Some v else get t k')"
    and entries_new: "valid t \<Longrightarrow> get t k = None \<Longrightarrow> mset (entries (put_entry k v t)) = add_mset (k, v) (mset (entries t))"
    and entries_old: "valid t \<Longrightarrow> get t k = Some w \<Longrightarrow>
      add_mset (k, w) (mset (entries (put_entry k v t))) = add_mset (k, v) (mset (entries t))"
begin

lemma xor_put:
  assumes "valid t"
  shows "xor_over f (entries (put_entry k v t)) =
    xor_over f (entries t) XOR f (k, v) XOR (case get t k of None \<Rightarrow> 0 | Some w \<Rightarrow> f (k, w))"
proof (cases "get t k")
  case None
  then have "mset (entries (put_entry k v t)) = mset ((k, v) # entries t)" using entries_new [OF assms] by simp
  from xor_over_mset [OF this] None show ?thesis by (simp add: xor_over_Cons xor.commute)
next
  case (Some w)
  then have "mset ((k, w) # entries (put_entry k v t)) = mset ((k, v) # entries t)" using entries_old [OF assms] by simp
  from xor_over_mset [OF this] have "f (k, w) XOR xor_over f (entries (put_entry k v t)) = f (k, v) XOR xor_over f (entries t)"
    by (simp add: xor_over_Cons)
  then have "xor_over f (entries (put_entry k v t)) = f (k, w) XOR (f (k, v) XOR xor_over f (entries t))"
    by (metis xor.assoc xor.left_neutral xor_self_eq)
  then show ?thesis using Some by (simp only: option.case xor.commute xor.left_commute)
qed

end

lemma key_less_irrefl [simp]: "\<not> key_less k k"
  by (induction k) auto

lemma key_less_trans: "key_less x y \<Longrightarrow> key_less y z \<Longrightarrow> key_less x z"
proof (induction x y arbitrary: z rule: key_less.induct)
  case (1 ys) then show ?case by (cases ys; cases z) auto
next
  case (3 x xs y ys) then show ?case by (cases z) auto
qed simp

lemma key_less_total: "x \<noteq> y \<Longrightarrow> \<not> key_less x y \<Longrightarrow> key_less y x"
  by (induction x y rule: key_less.induct) (auto simp: neq_Nil_conv)

definition sorted_table :: "(u8 list \<times> 'v) list \<Rightarrow> bool" where
  "sorted_table t \<longleftrightarrow> sorted_wrt key_less (map fst t)"

lemma mdb_put_keys: "set (map fst (mdb_put k v t)) = insert k (set (map fst t))"
  by (induction k v t rule: mdb_put.induct) (simp_all add: insert_commute)

lemma mdb_put_sorted: "sorted_table t \<Longrightarrow> sorted_table (mdb_put k v t)"
proof (induction t)
  case (Cons e t)
  obtain k' v' where e: "e = (k', v')" by force
  show ?case
  proof (cases "k = k' \<or> key_less k k'")
    case True
    with Cons.prems show ?thesis by (auto simp: e sorted_table_def intro: key_less_trans)
  next
    case False
    with Cons show ?thesis using mdb_put_keys [of k v t] key_less_total [of k k'] by (auto simp: e sorted_table_def)
  qed
qed (simp add: sorted_table_def)

lemma mdb_put_get: "map_of (mdb_put k v t) = (map_of t)(k \<mapsto> v)"
  by (induction t) (auto simp: fun_eq_iff)

lemma sorted_table_new: "sorted_table ((k', v') # t) \<Longrightarrow> key_less k k' \<Longrightarrow> map_of t k = None"
  by (auto simp: sorted_table_def map_of_eq_None_iff dest: key_less_trans)

lemma mdb_put_entries:
  "sorted_table t \<Longrightarrow> (case map_of t k of None \<Rightarrow> {#} | Some w \<Rightarrow> {#(k, w)#}) + mset (mdb_put k v t) = add_mset (k, v) (mset t)"
proof (induction t)
  case (Cons e t)
  obtain k' v' where e: "e = (k', v')" by force
  from Cons.prems have "sorted_table t" by (simp add: sorted_table_def)
  with Cons.IH Cons.prems sorted_table_new [of k' v' t k] show ?case by (auto simp: e split: option.splits)
qed simp

interpretation tbl: keyed_table sorted_table map_of mdb_put "\<lambda>t. t"
proof
  fix t :: "(u8 list \<times> 'v) list" and k k' v w
  show "sorted_table t \<Longrightarrow> sorted_table (mdb_put k v t)" by (rule mdb_put_sorted)
  show "map_of (mdb_put k v t) k' = (if k' = k then Some v else map_of t k')" by (simp add: mdb_put_get)
  show "sorted_table t \<Longrightarrow> map_of t k = None \<Longrightarrow> mset (mdb_put k v t) = add_mset (k, v) (mset t)"
    using mdb_put_entries [of t k v] by simp
  show "sorted_table t \<Longrightarrow> map_of t k = Some w \<Longrightarrow> add_mset (k, w) (mset (mdb_put k v t)) = add_mset (k, v) (mset t)"
    using mdb_put_entries [of t k v] by simp
qed

section \<open>Contents\<close>

text \<open>The abstract state: names with contents, in the order of the names. A stored file holds a content.\<close>

definition xor_all :: "u8 list list \<Rightarrow> u8 list" where
  "xor_all ds = map (\<lambda>i. xor_over (\<lambda>d. d ! i) ds) [0..<32]"

definition file_holds :: "persisted \<Rightarrow> u8 list \<Rightarrow> bool" where
  "file_holds p c \<longleftrightarrow> fd_length p = of_nat (length c) \<and> fd_hash p = sha256_digest c \<and> sha256_holds (fd_partial p) c"

definition same_file :: "u8 list \<times> persisted option \<Rightarrow> u8 list \<times> u8 list \<Rightarrow> bool" where
  "same_file x y \<longleftrightarrow> fst x = fst y \<and> (\<exists>p. snd x = Some p \<and> file_holds p (snd y))"

definition store_holds :: "'p dbstate \<Rightarrow> (u8 list \<times> u8 list) list \<Rightarrow> bool" where
  "store_holds st cs \<longleftrightarrow> sorted_table cs \<and> list_all2 same_file (files (db st)) cs \<and>
     root_hash (db_root st) = xor_all (map (sha256_digest \<circ> snd) cs) \<and>
     (case root_value (db st) of None \<Rightarrow> cs = [] | Some v \<Rightarrow> v = root_hash (db_root st) @ [2])"

definition content_of :: "(u8 list \<times> u8 list) list \<Rightarrow> u8 list \<Rightarrow> u8 list" where
  "content_of cs name = (case map_of cs name of None \<Rightarrow> [] | Some c \<Rightarrow> c)"

lemma length_digest [simp]: "length (sha256_digest m) = 32"
  by (simp add: sha256_digest_def be32enc_vect_def store32_be_def upt_conv_Cons)

lemma mdb_put_same:
  assumes "list_all2 same_file fs cs" "file_holds p c"
  shows "list_all2 same_file (mdb_put n (Some p) fs) (mdb_put n c cs)"
  using assms by (induction rule: list_all2_induct) (auto simp: same_file_def)

lemma map_of_same:
  "list_all2 same_file fs cs \<Longrightarrow> (case map_of cs n of None \<Rightarrow> map_of fs n = None | Some c \<Rightarrow> \<exists>p. map_of fs n = Some (Some p) \<and> file_holds p c)"
  by (induction rule: list_all2_induct) (auto simp: same_file_def split: option.splits)

lemma xor_all_put:
  assumes "sorted_table cs"
  shows "xor_all (map (sha256_digest \<circ> snd) (mdb_put n c cs)) =
    map (\<lambda>i. xor_all (map (sha256_digest \<circ> snd) cs) ! i XOR sha256_digest c ! i XOR
      (case map_of cs n of None \<Rightarrow> 0 | Some w \<Rightarrow> sha256_digest w ! i)) [0..<32]"
proof -
  have m: "xor_over (\<lambda>d. d ! i) (map (sha256_digest \<circ> snd) xs) = xor_over (\<lambda>e. sha256_digest (snd e) ! i) xs"
    for i and xs :: "(u8 list \<times> u8 list) list" by (simp add: xor_over_def fold_map comp_def)
  show ?thesis
    unfolding xor_all_def by (rule map_cong) (simp_all add: m tbl.xor_put [OF assms] xor.assoc split: option.split)
qed

text \<open>A handle whose committed part is what is stored.\<close>

lemma file_open_holds:
  assumes st: "store_holds st cs" and ok: "ok Txn_begin" "ok Get" "ok Alloc" and name: "name \<noteq> []" "length name \<le> 255"
  obtains p where "file_open ok (db st) name =
      Some \<lparr>fd_committed = p, fd_name = name, fd_new_length = fd_length p, fd_new_hash = fd_partial p\<rparr>"
    and "fd_length p = of_nat (length (content_of cs name))" "sha256_holds (fd_partial p) (content_of cs name)"
    and "\<forall>i < 32. fd_hash p ! i = (case map_of cs name of None \<Rightarrow> 0 | Some c \<Rightarrow> sha256_digest c ! i)"
proof (cases "map_of cs name")
  case None
  with st map_of_same [of "files (db st)" cs name] have "map_of (files (db st)) name = None" by (simp add: store_holds_def)
  then show thesis using that [of new_file] None ok name sha.holds_start [of "\<lambda>_. 0"]
    by (simp add: file_open_def new_file_def content_of_def)
next
  case (Some c)
  with st map_of_same [of "files (db st)" cs name] obtain p where "map_of (files (db st)) name = Some (Some p)" "file_holds p c"
    by (auto simp: store_holds_def)
  then show thesis using that [of p] Some ok name by (simp add: file_open_def file_holds_def content_of_def)
qed

lemma file_append_pieces:
  "foldl file_append fd xs = fd\<lparr>fd_new_hash := foldl crypto_hash_sha256_update (fd_new_hash fd) xs,
     fd_new_length := fd_new_length fd + of_nat (length (concat xs))\<rparr>"
  by (induction xs arbitrary: fd) (simp_all add: file_append_def add.assoc)

lemma of_nat_less_neq:
  assumes "a < b" "b < 2 ^ 64"
  shows "(of_nat a :: u64) \<noteq> of_nat b"
proof
  assume "(of_nat a :: u64) = of_nat b"
  then have "unat (of_nat a :: u64) = unat (of_nat b :: u64)" by simp
  with assms show False by (simp add: unsigned_of_nat take_bit_eq_mod)
qed


section \<open>Appending to a file\<close>

text \<open>Adding the key of the new content to the state of the synchronisation, if there is one, does not fail.\<close>

definition sync_takes :: "'p dbstate \<Rightarrow> u8 list \<Rightarrow> bool" where
  "sync_takes st k \<longleftrightarrow> (case db_sync st of None \<Rightarrow> True | Some s \<Rightarrow> sync_add_key s k None \<noteq> None)"

lemma file_flush_ok:
  assumes ok: "\<And>c. ok c" and len: "fd_length (fd_committed fd) \<noteq> fd_new_length fd"
    and h: "h = crypto_hash_sha256_final (fd_new_hash fd)" "sync_takes st (take 8 h)"
    and expected: "length e \<le> 32" "e = take (length e) h"
  obtains st' fd' where "file_flush ok st fd e = Some (1, st', fd')"
    and "files (db st') = mdb_put (fd_name fd) (Some (fd_committed fd')) (files (db st))"
    and "fd_committed fd' = \<lparr>fd_version = fd_version (fd_committed fd) + 1, fd_length = fd_new_length fd, fd_hash = h, fd_partial = fd_new_hash fd\<rparr>"
    and "versions (db st') = mdb_put (take 8 h)
      \<lparr>fv_version = fd_version (fd_committed fd) + 1, fv_length = fd_new_length fd, fv_name = fd_name fd\<rparr> (versions (db st))"
    and "root_value (db st') = Some (root_hash (db_root st') @ [2])"
    and "root_hash (db_root st') = map (\<lambda>i. root_hash (db_root st) ! i XOR h ! i XOR fd_hash (fd_committed fd) ! i) [0..<32]"
proof (cases "db_sync st")
  case None
  show thesis by (rule that) (use None ok len h expected in \<open>auto simp: file_flush_def Let_def\<close>)
next
  case (Some s)
  then obtain s' where "sync_add_key s (take 8 h) None = Some s'" using h(2) by (auto simp: sync_takes_def)
  then show thesis by (intro that) (use Some ok len h expected in \<open>auto simp: file_flush_def Let_def\<close>)
qed

text \<open>(C5) The storage refines a table of contents: in a state that holds the contents \<open>cs\<close>, opening a file, appending any
  pieces and flushing succeeds, with or without the expected hash, and the new state holds the contents in which the
  pieces are appended to that file; in particular its root hash is again the exclusive or of the digests of all contents. The new
  version is found under the first 8 bytes of the digest.\<close>

theorem storage_append:
  assumes st: "store_holds st cs" and ok: "\<And>c. ok c" and name: "name \<noteq> []" "length name \<le> 255"
    and c: "c = content_of cs name @ concat xs" "concat xs \<noteq> []" "length c < 2 ^ 64"
    and expected: "length e \<le> 32" "e = take (length e) (sha256_digest c)" and sync: "sync_takes st (take 8 (sha256_digest c))"
  shows "\<exists>fd st' fd'. file_open ok (db st) name = Some fd \<and> file_flush ok st (foldl file_append fd xs) e = Some (1, st', fd') \<and>
    store_holds st' (mdb_put name c cs) \<and>
    map_of (versions (db st')) (take 8 (sha256_digest c)) =
      Some \<lparr>fv_version = fd_version (fd_committed fd) + 1, fv_length = of_nat (length c), fv_name = name\<rparr>"
proof -
  obtain p where fd: "file_open ok (db st) name =
      Some \<lparr>fd_committed = p, fd_name = name, fd_new_length = fd_length p, fd_new_hash = fd_partial p\<rparr>" (is "_ = Some ?fd")
    and p: "fd_length p = of_nat (length (content_of cs name))" "sha256_holds (fd_partial p) (content_of cs name)"
      "\<forall>i < 32. fd_hash p ! i = (case map_of cs name of None \<Rightarrow> 0 | Some c \<Rightarrow> sha256_digest c ! i)"
    by (rule file_open_holds [where ok = ok, OF st ok ok ok name])
  define fx where "fx = foldl file_append ?fd xs"
  have fx: "fd_committed fx = p" "fd_name fx = name" "fd_new_length fx = of_nat (length c)" "sha256_holds (fd_new_hash fx) c"
    using p(1) sha.holds_pieces [OF p(2), of xs] by (simp_all add: fx_def file_append_pieces c(1))
  have len: "fd_length (fd_committed fx) \<noteq> fd_new_length fx"
    using of_nat_less_neq [of "length (content_of cs name)" "length c"] c p(1) fx(1,3) by simp
  have h: "sha256_digest c = crypto_hash_sha256_final (fd_new_hash fx)" using sha256_holds_final [OF fx(4)] by simp
  obtain st' fd' where f: "file_flush ok st fx e = Some (1, st', fd')"
    "files (db st') = mdb_put name (Some (fd_committed fd')) (files (db st))"
    "fd_committed fd' = \<lparr>fd_version = fd_version p + 1, fd_length = of_nat (length c), fd_hash = sha256_digest c, fd_partial = fd_new_hash fx\<rparr>"
    "versions (db st') = mdb_put (take 8 (sha256_digest c)) \<lparr>fv_version = fd_version p + 1, fv_length = of_nat (length c), fv_name = name\<rparr> (versions (db st))"
    "root_value (db st') = Some (root_hash (db_root st') @ [2])"
    "root_hash (db_root st') = map (\<lambda>i. root_hash (db_root st) ! i XOR sha256_digest c ! i XOR fd_hash p ! i) [0..<32]"
    by (rule file_flush_ok [where ok = ok, OF ok len h sync expected, unfolded fx])
  have "file_holds (fd_committed fd') c" using fx(4) by (simp add: f(3) file_holds_def)
  with st have "list_all2 same_file (files (db st')) (mdb_put name c cs)" by (auto simp: f(2) store_holds_def intro: mdb_put_same)
  moreover have "root_hash (db_root st') = xor_all (map (sha256_digest \<circ> snd) (mdb_put name c cs))"
    using st p(3) by (auto simp: f(6) store_holds_def xor_all_put)
  ultimately have "store_holds st' (mdb_put name c cs)"
    using st f(5) by (simp add: store_holds_def mdb_put_sorted)
  with fd f(1,4) show ?thesis by (auto simp: fx_def mdb_put_get)
qed

text \<open>The empty storage.\<close>

definition empty_storage :: "unit dbstate" where
  "empty_storage = \<lparr>db = \<lparr>files = [], versions = [], root_value = None\<rparr>, db_root = \<lparr>root_hash = replicate 32 0, root_version = 2\<rparr>,
     db_sync = None, db_keys = 0, db_deleted = 0\<rparr>"

lemma empty_storage_holds: "store_holds empty_storage []"
  by (simp add: store_holds_def empty_storage_def sorted_table_def xor_all_def xor_over_def map_replicate_const)

theorem storage_append_witness:
  "\<exists>fd st' fd'. file_open (\<lambda>_. True) (db empty_storage) [0x61] = Some fd \<and>
    file_flush (\<lambda>_. True) empty_storage (foldl file_append fd [[1, 2], [3]]) [] = Some (1, st', fd') \<and>
    store_holds st' [([0x61], [1, 2, 3])]"
  using storage_append [OF empty_storage_holds, of "\<lambda>_. True" "[0x61]" "[1, 2, 3]" "[[1, 2], [3]]" "[]"]
  by (auto simp: content_of_def sync_takes_def empty_storage_def)



text \<open>(C18) A storage that is closed and opened again holds the same contents and reports the same root hash.\<close>

theorem storage_reopened:
  assumes "store_holds st cs" "\<And>c. ok c"
  shows "\<exists>st'. jni_storage_open ok (db st) = Some (st', [Store_callback (root_hash (db_root st))]) \<and> store_holds st' cs"
proof -
  have len: "length (root_hash (db_root st)) = 32" using assms(1) by (simp add: store_holds_def xor_all_def)
  show ?thesis
  proof (cases "root_value (db st)")
    case None
    then have "cs = []" "root_hash (db_root st) = replicate 32 0"
      using assms(1) by (auto simp: store_holds_def xor_all_def xor_over_def map_replicate_const)
    with None assms show ?thesis by (auto simp: jni_storage_open_def open_db_def Let_def zero_root_def store_holds_def)
  next
    case (Some v)
    then have "v = root_hash (db_root st) @ [2]" using assms(1) by (simp add: store_holds_def)
    with Some assms len show ?thesis by (auto simp: jni_storage_open_def open_db_def Let_def store_holds_def nth_append)
  qed
qed

theorem storage_reopened_witness:
  "\<exists>st'. jni_storage_open (\<lambda>_. True) (db empty_storage) = Some (st' :: unit dbstate, [Store_callback (replicate 32 0)]) \<and> store_holds st' []"
  using storage_reopened [OF empty_storage_holds, of "\<lambda>_. True"] by (simp add: empty_storage_def)

end
