(* ===== verification/Metadata.thy ===== *)
theory Metadata
  imports StorageProps
begin

unbundle bit_operations_syntax

text \<open>
  Metadata on its way between two peers: numbers in groups of seven bits, and the messages that ask for the version behind a sync key
  and answer with it.
\<close>

section \<open>Numbers\<close>

lemma small_bits: "(v :: u64) < 2 ^ 31 \<Longrightarrow> 31 \<le> n \<Longrightarrow> \<not> bit v n"
proof -
  assume "v < 2 ^ 31" "31 \<le> n"
  then have "unat v < 2 ^ 31" by (simp add: word_less_nat_alt)
  then have "take_bit 31 (unat v) = unat v" by (simp add: take_bit_eq_mod)
  then have "take_bit 31 v = v" by (metis word_unat_eq_iff unsigned_take_bit_eq)
  with \<open>31 \<le> n\<close> show ?thesis by (metis bit_take_bit_iff leD)
qed

lemma more_groups: "(v :: u64) > 0x7f \<longleftrightarrow> drop_bit 7 v \<noteq> 0"
proof -
  have "unat (drop_bit 7 v) = unat v div 2 ^ 7" by (rule unat_drop_bit_nat)
  then have "drop_bit 7 v = 0 \<longleftrightarrow> unat v div 2 ^ 7 = 0" by (metis unat_eq_0)
  then show ?thesis by (auto simp: word_less_nat_alt)
qed

lemma group_byte:
  fixes v :: u64 and m :: bool
  defines "b \<equiv> (ucast (v AND 0x7f) :: u8) OR (if m then 0x80 else 0)"
  shows "b AND 0x7f = ucast (take_bit 7 v)" "b AND 0x80 = 0 \<longleftrightarrow> \<not> m"
proof -
  have c: "(0x7f :: u8) = mask 7" "(0x7f :: u64) = mask 7" by (simp_all add: mask_eq_exp_minus_1)
  have v: "v AND 0x7f = take_bit 7 v" unfolding c by (simp add: take_bit_eq_mask)
  show "b AND 0x7f = ucast (take_bit 7 v)"
  proof -
    have "b AND 0x7f = take_bit 7 b" unfolding c by (simp add: take_bit_eq_mask)
    also have "\<dots> = take_bit 7 (ucast (take_bit 7 v))" unfolding b_def v take_bit_or by simp
    also have "\<dots> = ucast (take_bit 7 v)" by (rule bit_word_eqI) (auto simp: bit_simps)
    finally show ?thesis .
  qed
  have "(ucast (take_bit 7 v) :: u8) AND 0x80 = 0" by (rule bit_word_eqI) (auto simp: bit_simps less_Suc_eq numeral_eq_Suc)
  then show "b AND 0x80 = 0 \<longleftrightarrow> \<not> m" unfolding b_def v by (simp add: bit.conj_disj_distrib2)
qed

lemma unpack_step:
  assumes "(v :: u64) < 2 ^ 31" "j < 32"
  shows "take_bit j v OR scast (push_bit j (ucast (ucast (take_bit 7 (drop_bit j v)) :: u8) :: u32)) = take_bit (j + 7) v"
proof (rule bit_word_eqI)
  fix n
  assume "n < LENGTH(64)"
  show "bit (take_bit j v OR scast (push_bit j (ucast (ucast (take_bit 7 (drop_bit j v)) :: u8) :: u32))) n = bit (take_bit (j + 7) v) n"
    using small_bits [OF assms(1), of 31] small_bits [OF assms(1), of n] assms(2) \<open>n < LENGTH(64)\<close>
    by (cases "n < 31") (auto simp: bit_simps min_def)
qed

lemma unpack_pack_from:
  assumes "(v :: u64) < 2 ^ 31" "i = 0 \<or> drop_bit (7 * i) v \<noteq> 0"
  shows "unpack_from i (take_bit (7 * i) v) (pack_uint (drop_bit (7 * i) v) @ rest) =
    Some (int (i + length (pack_uint (drop_bit (7 * i) v))), v)"
  using assms(2)
proof (induction "drop_bit (7 * i) v" arbitrary: i rule: pack_uint.induct)
  case 1
  let ?w = "drop_bit (7 * i) v"
  have next_i: "drop_bit 7 ?w = drop_bit (7 * (i + 1)) v" by (simp add: add.commute)
  have lt: "unat v < 2 ^ 31" using assms(1) by (simp add: word_less_nat_alt)
  have w: "unat ?w = unat v div 2 ^ (7 * i)" by (rule unat_drop_bit_nat)
  have i: "7 * i < 32"
  proof (rule ccontr)
    assume "\<not> 7 * i < 32"
    then have "(2 :: nat) ^ 31 \<le> 2 ^ (7 * i)" by (intro power_increasing) auto
    with lt w have "unat ?w = 0" by simp
    with 1(2) \<open>\<not> 7 * i < 32\<close> show False by (auto simp: unat_eq_0)
  qed
  have "unat (ucast (take_bit 7 ?w) :: u8) \<le> unat ?w"
  proof -
    have "unat (ucast x :: u8) \<le> unat x" for x :: u64 by (simp add: unsigned_ucast_eq take_bit_eq_mod)
    moreover have "unat (take_bit 7 ?w) \<le> unat ?w" unfolding unsigned_take_bit_eq by (simp only: take_bit_eq_mod mod_less_eq_dividend)
    ultimately show ?thesis by (rule order_trans)
  qed
  then have "unat (ucast (take_bit 7 ?w) :: u8) * 2 ^ (7 * i) \<le> unat v div 2 ^ (7 * i) * 2 ^ (7 * i)" using w by simp
  also have "\<dots> \<le> unat v" by simp
  finally have fits: "unat (ucast (take_bit 7 ?w) :: u8) * 2 ^ (7 * i) < 2 ^ 32" using lt by simp
  let ?b = "(ucast (?w AND 0x7f) :: u8) OR (if ?w > 0x7f then 0x80 else 0)"
  have b: "?b AND 0x7f = ucast (take_bit 7 ?w)" "?b AND 0x80 = 0 \<longleftrightarrow> drop_bit (7 * (i + 1)) v = 0"
    using group_byte [of ?w "?w > 0x7f"] more_groups [of ?w] next_i by simp_all
  have step: "unpack_from i (take_bit (7 * i) v) (?b # bs) =
      (if drop_bit (7 * (i + 1)) v = 0 then Some (int (i + 1), take_bit (7 * (i + 1)) v)
       else unpack_from (i + 1) (take_bit (7 * (i + 1)) v) bs)" for bs
    using i fits unpack_step [OF assms(1) i] by (simp add: b Let_def add.commute)
  show ?case
  proof (cases "drop_bit (7 * (i + 1)) v = 0")
    case True
    then have "take_bit (7 * (i + 1)) v = v" by (metis bits_ident add.left_neutral push_bit_of_0)
    with True step [of rest] next_i show ?thesis by (simp add: pack_uint.simps [of ?w])
  next
    case False
    with 1(1) [of "i + 1"] next_i have "unpack_from (i + 1) (take_bit (7 * (i + 1)) v) (pack_uint (drop_bit (7 * (i + 1)) v) @ rest) =
      Some (int (i + 1 + length (pack_uint (drop_bit (7 * (i + 1)) v))), v)" by simp
    with False step [of "pack_uint (drop_bit (7 * (i + 1)) v) @ rest"] next_i show ?thesis by (simp add: pack_uint.simps [of ?w])
  qed
qed

lemma unpack_pack: "(v :: u64) < 2 ^ 31 \<Longrightarrow> unpack_uint (pack_uint v @ rest) = Some (int (length (pack_uint v)), v)"
  using unpack_pack_from [of v 0 rest] by (simp add: unpack_uint_def)


section \<open>Asking and answering\<close>

definition metadata_bytes :: "u8 list \<Rightarrow> file_version \<Rightarrow> u8 list" where
  "metadata_bytes k fv = k @ pack_uint (ucast (fv_version fv)) @ pack_uint (fv_length fv) @ fv_name fv @ [0]"

lemma receive_metadata_bytes:
  assumes "length k = 8" "fv_version fv < 2 ^ 31" "fv_length fv < 2 ^ 31" "0 \<notin> set (fv_name fv)" "length (fv_name fv) \<le> 255"
    and "26 \<le> length (metadata_bytes k fv)" "ok Txn_begin" "ok Put_version" "ok Commit"
  shows "receive_metadata ok d peer (metadata_bytes k fv) =
    Some (d\<lparr>versions := mdb_put k fv (versions d)\<rparr>, [Peer_has peer k (fv_name fv) (fv_length fv)])"
proof -
  let ?p1 = "pack_uint (ucast (fv_version fv))" and ?p2 = "pack_uint (fv_length fv)" and ?n = "fv_name fv @ [0]"
  have "unat (fv_version fv) < 2 ^ 31" using assms(2) by (simp add: word_less_nat_alt)
  then have "(ucast (fv_version fv) :: u64) < 2 ^ 31" by (simp add: word_less_nat_alt unsigned_ucast_eq take_bit_eq_mod)
  then have u1: "unpack_uint (?p1 @ ?p2 @ ?n) = Some (int (length ?p1), ucast (fv_version fv))" by (rule unpack_pack)
  have u2: "unpack_uint (?p2 @ ?n) = Some (int (length ?p2), fv_length fv)" using assms(3) by (rule unpack_pack)
  have eta: "\<lparr>fv_version = fv_version fv, fv_length = fv_length fv, fv_name = fv_name fv\<rparr> = fv" by simp
  have "(ucast (ucast (fv_version fv) :: u64) :: u32) = fv_version fv" by (rule bit_word_eqI) (auto simp: bit_simps)
  moreover have "takeWhile (\<lambda>b. b \<noteq> 0) ?n = fv_name fv" using assms(4) by (subst takeWhile_append2) auto
  moreover have "drop (nat (8 + int (length ?p1))) (metadata_bytes k fv) = ?p2 @ ?n" "drop 8 (metadata_bytes k fv) = ?p1 @ ?p2 @ ?n"
    "take 8 (metadata_bytes k fv) = k" using assms(1) by (simp_all add: metadata_bytes_def nat_add_distrib)
  moreover have "drop (nat (int (nat (8 + int (length ?p1))) + int (length ?p2))) (metadata_bytes k fv) = ?n"
    using assms(1) by (simp add: metadata_bytes_def nat_add_distrib)
  ultimately show ?thesis
    using assms(5-9) u1 u2 by (simp add: receive_metadata_def Let_def eta del: length_drop)
qed


definition sample_version :: file_version where
  "sample_version = \<lparr>fv_version = 1, fv_length = 300, fv_name = replicate 20 0x61\<rparr>"

lemma sample_packed: "length (pack_uint 1) = 1" "length (pack_uint 300) = 2"
  by (simp_all add: pack_uint.simps)


text \<open>The answer for a short name is refused: with fewer than 26 bytes behind its type, as for a first version of a small file whose
  name has fewer than 15 characters, the other peer stores and reports nothing.\<close>

theorem metadata_too_short:
  assumes "map_of (versions (db a)) k = Some fv" "db_sync a = Some sa" "db_sync b = Some sb" "\<And>c. ok c" "length k = 8"
    and "8 + length (pack_uint (ucast (fv_version fv))) + length (pack_uint (fv_length fv)) + length (fv_name fv) + 1 < 26"
  shows "\<exists>msg. jni_peer_message ok peer_b a (Some i) (Some (SYNC_MSG_REQ_METADATA # k)) = Some (a, Some i, [Sync_message peer_b msg]) \<and>
    jni_peer_message ok' peer_a b (Some j) (Some msg) = Some (b, Some j, [])"
  using assms by (auto simp: jni_peer_message_def init_sync_state_def handle_message_def send_metadata_def receive_metadata_def)

theorem metadata_too_short_witness:
  "\<exists>msg. jni_peer_message (\<lambda>_. True) () (empty_storage\<lparr>db := \<lparr>files = [], versions = [(replicate 8 7, sample_version\<lparr>fv_name := [0x61]\<rparr>)], root_value = None\<rparr>,
        db_sync := Some sample_state\<rparr>) (Some 0) (Some (1 # replicate 8 7)) =
      Some (empty_storage\<lparr>db := \<lparr>files = [], versions = [(replicate 8 7, sample_version\<lparr>fv_name := [0x61]\<rparr>)], root_value = None\<rparr>, db_sync := Some sample_state\<rparr>,
        Some 0, [Sync_message () msg]) \<and>
    jni_peer_message (\<lambda>_. True) () (empty_storage\<lparr>db_sync := Some sample_state\<rparr>) (Some 0) (Some msg) =
      Some (empty_storage\<lparr>db_sync := Some sample_state\<rparr>, Some 0, [])"
  by (rule metadata_too_short) (use sample_packed in \<open>auto simp: sample_version_def\<close>)

end
