(* ===== verification/Networks.thy ===== *)
theory Networks
  imports Prelude "HOL-Library.Monad_Syntax"
begin

text \<open>
  \<^verbatim>\<open>networks.cpp\<close>: what the application learns of the addresses of its network interfaces from the netlink messages of the kernel. A
  pointer into the buffer is the list of the received bytes from there on; \<open>None\<close> is a read behind them. Numbers are little-endian, as
  on the supported processors. Opening the socket, the request and the polling are system calls and not modelled.
\<close>

section \<open>Netlink messages\<close>

abbreviation (input) NLMSG_DONE :: nat where "NLMSG_DONE \<equiv> 3"
abbreviation (input) RTM_NEWADDR :: nat where "RTM_NEWADDR \<equiv> 20"
abbreviation (input) RTM_DELADDR :: nat where "RTM_DELADDR \<equiv> 21"
abbreviation (input) RT_SCOPE_HOST :: u8 where "RT_SCOPE_HOST \<equiv> 254"
abbreviation (input) AF_INET_8 :: u8 where "AF_INET_8 \<equiv> 2"
abbreviation (input) IFA_LOCAL :: nat where "IFA_LOCAL \<equiv> 2"
abbreviation (input) IFA_LABEL :: nat where "IFA_LABEL \<equiv> 3"
abbreviation (input) IFA_BROADCAST :: nat where "IFA_BROADCAST \<equiv> 4"

datatype net_call =
    On_add "u8 list" "u8 list option" "u8 list option" u8
  | On_remove "u8 list" "u8 list option" "u8 list option" u8

record found_address =
  link_name :: "u8 list option"
  addr_bytes :: "u8 list option"
  broadcast_bytes :: "u8 list option"

definition nothing_found :: found_address where
  "nothing_found = \<lparr>link_name = None, addr_bytes = None, broadcast_bytes = None\<rparr>"

definition u16_at :: "nat \<Rightarrow> u8 list \<Rightarrow> nat" where
  "u16_at i mem = unat (mem ! i) + 256 * unat (mem ! (i + 1))"

definition u32_at :: "nat \<Rightarrow> u8 list \<Rightarrow> nat" where
  "u32_at i mem = u16_at i mem + 65536 * u16_at (i + 2) mem"

definition align4 :: "nat \<Rightarrow> nat" where
  "align4 n = 4 * ((n + 3) div 4)"

text \<open>One attribute: its type and length and where its data starts. A label is a C string.\<close>

definition read_attr :: "nat \<Rightarrow> nat \<Rightarrow> u8 list \<Rightarrow> found_address \<Rightarrow> found_address option" where
  "read_attr rta_type len data found =
     (if rta_type = IFA_LOCAL then if length data < len then None else Some (found\<lparr>addr_bytes := Some (take len data)\<rparr>)
      else if rta_type = IFA_LABEL then
        if 0 \<in> set data then Some (found\<lparr>link_name := Some (takeWhile (\<lambda>b. b \<noteq> 0) data)\<rparr>) else None
      else if rta_type = IFA_BROADCAST then if length data < len then None else Some (found\<lparr>broadcast_bytes := Some (take len data)\<rparr>)
      else Some found)"

function read_attrs :: "u8 list \<Rightarrow> int \<Rightarrow> found_address \<Rightarrow> found_address option" where
  "read_attrs rth rtl found =
     (if rtl < 4 then Some found
      else if length rth < 4 then None
      else let rta_len = u16_at 0 rth
           in if rta_len < 4 \<or> int rta_len > rtl then Some found
              else Option.bind (read_attr (u16_at 2 rth) (rta_len - 4) (drop 4 rth) found)
                     (read_attrs (drop (align4 rta_len) rth) (rtl - int (align4 rta_len))))"
  by pat_completeness auto
termination
  by (relation "measure (\<lambda>(rth, rtl, found). nat rtl)") (auto simp: align4_def)

declare read_attrs.simps [simp del]

text \<open>A message about an address: behind a header of 16 bytes family, prefix length, flags and scope, and behind 24 bytes the
  attributes.\<close>

definition read_address :: "u8 list \<Rightarrow> net_call list option" where
  "read_address nlh =
     (if length nlh < 20 then None
      else if nlh ! 19 = RT_SCOPE_HOST \<or> nlh ! 16 \<noteq> AF_INET_8 then Some []
      else do {
        found \<leftarrow> read_attrs (drop 24 nlh) (int (u32_at 0 nlh) - 24) nothing_found;
        (case link_name found of
           None \<Rightarrow> Some []
         | Some n \<Rightarrow> Some [(if u16_at 4 nlh = RTM_NEWADDR then On_add else On_remove) n (addr_bytes found) (broadcast_bytes found) (nlh ! 17)]) })"

text \<open>The loop over the messages. The bytes left are compared as an unsigned number, so a negative one passes for a large one.\<close>

function read_messages :: "u8 list \<Rightarrow> int \<Rightarrow> net_call list option" where
  "read_messages nlh len =
     (if 0 \<le> len \<and> len < 16 then Some []
      else if length nlh < 16 then None
      else let nlmsg_len = u32_at 0 nlh; nlmsg_type = u16_at 4 nlh
           in if nlmsg_len < 16 \<or> 0 \<le> len \<and> int nlmsg_len > len \<or> nlmsg_type = NLMSG_DONE then Some []
              else do {
                calls \<leftarrow> (if nlmsg_type = RTM_NEWADDR \<or> nlmsg_type = RTM_DELADDR then read_address nlh else Some []);
                rest \<leftarrow> read_messages (drop (align4 nlmsg_len) nlh) (len - int (align4 nlmsg_len));
                Some (calls @ rest) })"
  by pat_completeness auto
termination
  by (relation "measure (\<lambda>(nlh, len). length nlh)") (auto simp: align4_def)

declare read_messages.simps [simp del]

definition read_addresses :: "u8 list \<Rightarrow> net_call list option" where
  "read_addresses received = (if received = [] then Some [] else read_messages received (int (length received)))"

section \<open>Messages as the kernel writes them\<close>

definition le16_bytes :: "nat \<Rightarrow> u8 list" where
  "le16_bytes n = [of_nat (n mod 256), of_nat (n div 256)]"

definition le32_bytes :: "nat \<Rightarrow> u8 list" where
  "le32_bytes n = le16_bytes (n mod 65536) @ le16_bytes (n div 65536)"

definition attr_bytes :: "nat \<times> u8 list \<Rightarrow> u8 list" where
  "attr_bytes a = le16_bytes (4 + length (snd a)) @ le16_bytes (fst a) @ snd a @ replicate (align4 (length (snd a)) - length (snd a)) 0"

definition attr_ok :: "nat \<times> u8 list \<Rightarrow> bool" where
  "attr_ok a \<longleftrightarrow> fst a < 65536 \<and> length (snd a) < 65500 \<and> (fst a = IFA_LABEL \<longrightarrow> 0 \<in> set (snd a))"

record address_message =
  msg_type :: nat
  msg_family :: u8
  msg_prefix :: u8
  msg_scope :: u8
  msg_attrs :: "(nat \<times> u8 list) list"

definition netlink_bytes :: "address_message \<Rightarrow> u8 list" where
  "netlink_bytes m =
     (let attrs = concat (map attr_bytes (msg_attrs m))
      in le32_bytes (24 + length attrs) @ le16_bytes (msg_type m) @ replicate 10 0 @
         [msg_family m, msg_prefix m, 0, msg_scope m, 0, 0, 0, 0] @ attrs)"

definition message_ok :: "address_message \<Rightarrow> bool" where
  "message_ok m \<longleftrightarrow> msg_type m < 65536 \<and> msg_type m \<noteq> NLMSG_DONE \<and> list_all attr_ok (msg_attrs m)"

text \<open>What is to be reported: of several attributes of a type the last.\<close>

definition last_attr :: "nat \<Rightarrow> (nat \<times> u8 list) list \<Rightarrow> u8 list option" where
  "last_attr t as = map_of (rev as) t"

definition reported :: "address_message \<Rightarrow> net_call list" where
  "reported m =
     (if (msg_type m = RTM_NEWADDR \<or> msg_type m = RTM_DELADDR) \<and> msg_scope m \<noteq> RT_SCOPE_HOST \<and> msg_family m = AF_INET_8
      then case last_attr IFA_LABEL (msg_attrs m) of
             None \<Rightarrow> []
           | Some n \<Rightarrow> [(if msg_type m = RTM_NEWADDR then On_add else On_remove) (takeWhile (\<lambda>b. b \<noteq> 0) n)
               (last_attr IFA_LOCAL (msg_attrs m)) (last_attr IFA_BROADCAST (msg_attrs m)) (msg_prefix m)]
      else [])"

lemma unat_byte: "n < 256 \<Longrightarrow> unat (of_nat n :: u8) = n"
  by (simp add: unsigned_of_nat take_bit_eq_mod)

lemma u16_le16: "n < 65536 \<Longrightarrow> u16_at 0 (le16_bytes n @ rest) = n"
  by (simp add: u16_at_def le16_bytes_def unat_byte)

lemma u16_skip: "length xs = i \<Longrightarrow> u16_at i (xs @ rest) = u16_at 0 rest"
  by (simp add: u16_at_def nth_append)

lemma length_le [simp]: "length (le16_bytes n) = 2" "length (le32_bytes n) = 4"
  by (simp_all add: le16_bytes_def le32_bytes_def)

lemma u32_le32: "n < 65536 * 65536 \<Longrightarrow> u32_at 0 (le32_bytes n @ rest) = n"
  using u16_skip [of "le16_bytes (n mod 65536)" 2 "le16_bytes (n div 65536) @ rest"] u16_le16 [of "n div 65536" rest]
    u16_le16 [of "n mod 65536" "le16_bytes (n div 65536) @ rest"]
  by (simp add: u32_at_def le32_bytes_def less_mult_imp_div_less numeral_2_eq_2)

lemma align4_le: "n \<le> align4 n"
  by (simp add: align4_def)

lemma align4_add4: "align4 (4 + n) = 4 + align4 n"
  unfolding align4_def by presburger

lemma length_attr [simp]: "length (attr_bytes a) = 4 + align4 (length (snd a))"
  using align4_le [of "length (snd a)"] by (simp add: attr_bytes_def)

text \<open>Reading the attributes collects, for each type, the data of the last one.\<close>

definition add_attr :: "nat \<times> u8 list \<Rightarrow> found_address \<Rightarrow> found_address" where
  "add_attr a found =
     (if fst a = IFA_LOCAL then found\<lparr>addr_bytes := Some (snd a)\<rparr>
      else if fst a = IFA_LABEL then found\<lparr>link_name := Some (takeWhile (\<lambda>b. b \<noteq> 0) (snd a))\<rparr>
      else if fst a = IFA_BROADCAST then found\<lparr>broadcast_bytes := Some (snd a)\<rparr> else found)"

lemma add_attrs_found:
  "fold add_attr as found = found\<lparr>
     link_name := (case last_attr IFA_LABEL as of None \<Rightarrow> link_name found | Some n \<Rightarrow> Some (takeWhile (\<lambda>b. b \<noteq> 0) n)),
     addr_bytes := (case last_attr IFA_LOCAL as of None \<Rightarrow> addr_bytes found | Some n \<Rightarrow> Some n),
     broadcast_bytes := (case last_attr IFA_BROADCAST as of None \<Rightarrow> broadcast_bytes found | Some n \<Rightarrow> Some n)\<rparr>"
  by (induction as rule: rev_induct) (auto simp: last_attr_def add_attr_def)

lemma read_attr_ok: "attr_ok a \<Longrightarrow> read_attr (fst a) (length (snd a)) (snd a @ rest) found = Some (add_attr a found)"
  by (auto simp: read_attr_def add_attr_def attr_ok_def takeWhile_append1)

lemma read_attrs_ok:
  "list_all attr_ok as \<Longrightarrow> read_attrs (concat (map attr_bytes as) @ rest) (int (length (concat (map attr_bytes as)))) found = Some (fold add_attr as found)"
proof (induction as arbitrary: found)
  case Nil
  then show ?case by (simp add: read_attrs.simps)
next
  case (Cons a as)
  let ?more = "concat (map attr_bytes as) @ rest" and ?n = "length (snd a)"
  let ?rth = "attr_bytes a @ ?more"
  have ok: "attr_ok a" "list_all attr_ok as" using Cons.prems by simp_all
  have rth: "?rth = le16_bytes (4 + ?n) @ le16_bytes (fst a) @ snd a @ replicate (align4 ?n - ?n) 0 @ ?more" by (simp add: attr_bytes_def)
  have "u16_at 0 ?rth = 4 + ?n" unfolding rth using ok(1) by (intro u16_le16) (simp add: attr_ok_def)
  moreover have "u16_at 2 ?rth = fst a" unfolding rth using ok(1)
    by (subst u16_skip) (simp_all add: attr_ok_def u16_le16)
  moreover have "drop 4 ?rth = snd a @ replicate (align4 ?n - ?n) 0 @ ?more" unfolding rth by simp
  moreover have "drop (align4 (4 + ?n)) ?rth = ?more" by (simp add: align4_add4)
  ultimately show ?case
    using Cons.IH [OF ok(2)] read_attr_ok [OF ok(1)] align4_le [of ?n]
    by (subst read_attrs.simps) (simp add: align4_add4 Let_def)
qed

section \<open>The property\<close>

lemma netlink_length: "length (netlink_bytes m) = 24 + length (concat (map attr_bytes (msg_attrs m)))"
  by (simp add: netlink_bytes_def Let_def)

lemma netlink_aligned: "align4 (length (netlink_bytes m)) = length (netlink_bytes m)"
proof -
  have "4 dvd length (concat (map attr_bytes as))" for as by (induction as) (auto simp: align4_def)
  then have "4 dvd length (netlink_bytes m)" unfolding netlink_length by (rule dvd_add [rotated]) simp
  then show ?thesis by (auto simp: align4_def)
qed

lemma netlink_header:
  assumes "message_ok m" "length (netlink_bytes m) \<le> 4096"
  shows "u32_at 0 (netlink_bytes m @ rest) = length (netlink_bytes m)" "u16_at 4 (netlink_bytes m @ rest) = msg_type m"
    "(netlink_bytes m @ rest) ! 16 = msg_family m" "(netlink_bytes m @ rest) ! 17 = msg_prefix m" "(netlink_bytes m @ rest) ! 19 = msg_scope m"
    "drop 24 (netlink_bytes m @ rest) = concat (map attr_bytes (msg_attrs m)) @ rest"
proof -
  let ?as = "concat (map attr_bytes (msg_attrs m))"
  let ?tail = "replicate 10 0 @ [msg_family m, msg_prefix m, 0, msg_scope m, 0, 0, 0, 0] @ ?as @ rest"
  have eq: "netlink_bytes m @ rest = le32_bytes (24 + length ?as) @ le16_bytes (msg_type m) @ ?tail" by (simp add: netlink_bytes_def Let_def)
  have "24 + length ?as < 65536 * 65536" using assms(2) unfolding netlink_length by simp
  then show "u32_at 0 (netlink_bytes m @ rest) = length (netlink_bytes m)" unfolding eq netlink_length by (rule u32_le32)
  show "u16_at 4 (netlink_bytes m @ rest) = msg_type m"
    unfolding eq using assms(1) by (subst u16_skip) (simp_all add: message_ok_def u16_le16)
  show "(netlink_bytes m @ rest) ! 16 = msg_family m" "(netlink_bytes m @ rest) ! 17 = msg_prefix m" "(netlink_bytes m @ rest) ! 19 = msg_scope m"
    unfolding eq by (simp_all add: nth_append nth_Cons' numeral_eq_Suc)
  show "drop 24 (netlink_bytes m @ rest) = ?as @ rest" unfolding eq by simp
qed

lemma read_address_ok:
  assumes "message_ok m" "length (netlink_bytes m) \<le> 4096" "msg_type m = RTM_NEWADDR \<or> msg_type m = RTM_DELADDR"
  shows "read_address (netlink_bytes m @ rest) = Some (reported m)"
proof -
  have "read_attrs (concat (map attr_bytes (msg_attrs m)) @ rest) (int (length (netlink_bytes m)) - 24) nothing_found =
      Some (fold add_attr (msg_attrs m) nothing_found)"
    using read_attrs_ok [of "msg_attrs m" rest nothing_found] assms(1) by (simp add: message_ok_def netlink_length)
  moreover have "\<not> length (netlink_bytes m @ rest) < 20" by (simp add: netlink_length)
  ultimately show ?thesis
    using assms(3) unfolding read_address_def netlink_header [OF assms(1,2)] reported_def
    by (auto simp: add_attrs_found nothing_found_def split: option.splits)
qed

lemma read_messages_ok:
  assumes "list_all message_ok ms" "length (concat (map netlink_bytes ms)) \<le> 4096"
  shows "read_messages (concat (map netlink_bytes ms)) (int (length (concat (map netlink_bytes ms)))) = Some (concat (map reported ms))"
  using assms
proof (induction ms)
  case Nil
  then show ?case by (simp add: read_messages.simps)
next
  case (Cons m ms)
  let ?rest = "concat (map netlink_bytes ms)"
  have ok: "message_ok m" "length (netlink_bytes m) \<le> 4096" using Cons.prems by simp_all
  have "24 \<le> length (netlink_bytes m)" by (simp add: netlink_length)
  moreover have "msg_type m \<noteq> NLMSG_DONE" using ok(1) by (simp add: message_ok_def)
  moreover have "msg_type m \<noteq> RTM_NEWADDR \<Longrightarrow> msg_type m \<noteq> RTM_DELADDR \<Longrightarrow> reported m = []" by (simp add: reported_def)
  ultimately show ?case
    using Cons netlink_header(1,2) [OF ok, of ?rest] read_address_ok [OF ok, of ?rest]
    by (subst read_messages.simps) (auto simp: Let_def netlink_aligned)
qed

text \<open>(C37) The addresses of the interfaces: from the messages the kernel sends in one datagram the application is told of exactly the
  addresses that appeared and disappeared, in this order, each with the name, the local and the broadcast address given last and the
  length of the prefix; messages of other types, of other families, about the host itself or without a name are passed over.\<close>

theorem addresses_reported:
  assumes "list_all message_ok ms" "length (concat (map netlink_bytes ms)) \<le> 4096"
  shows "read_addresses (concat (map netlink_bytes ms)) = Some (concat (map reported ms))"
proof (cases "concat (map netlink_bytes ms) = []")
  case True
  then have "ms = []" by (cases ms) (auto simp: netlink_bytes_def Let_def le32_bytes_def le16_bytes_def)
  then show ?thesis by (simp add: read_addresses_def)
next
  case False
  then show ?thesis using read_messages_ok [OF assms] by (simp only: read_addresses_def if_False)
qed

definition sample_messages :: "address_message list" where
  "sample_messages =
    [\<lparr>msg_type = 20, msg_family = 2, msg_prefix = 24, msg_scope = 0, msg_attrs = [(2, [10, 0, 0, 1]), (4, [10, 0, 0, 255]), (3, [119, 108, 0])]\<rparr>,
     \<lparr>msg_type = 20, msg_family = 2, msg_prefix = 8, msg_scope = 254, msg_attrs = [(2, [127, 0, 0, 1]), (3, [108, 111, 0])]\<rparr>,
     \<lparr>msg_type = 21, msg_family = 2, msg_prefix = 24, msg_scope = 0, msg_attrs = [(3, [112, 0])]\<rparr>]"

theorem addresses_reported_witness:
  "read_addresses (concat (map netlink_bytes sample_messages)) =
     Some [On_add [119, 108] (Some [10, 0, 0, 1]) (Some [10, 0, 0, 255]) 24, On_remove [112] None None 24]"
proof -
  have "list_all message_ok sample_messages" by (simp add: sample_messages_def message_ok_def attr_ok_def)
  moreover have "length (concat (map netlink_bytes sample_messages)) \<le> 4096"
    by (simp add: sample_messages_def netlink_length align4_def)
  moreover have "concat (map reported sample_messages) =
      [On_add [119, 108] (Some [10, 0, 0, 1]) (Some [10, 0, 0, 255]) 24, On_remove [112] None None 24]"
    by (simp add: sample_messages_def reported_def last_attr_def)
  ultimately show ?thesis using addresses_reported [of sample_messages] by simp
qed

end
