(* ===== verification/Stun.thy ===== *)
theory Stun
  imports Prelude
begin

text \<open>
  \<^verbatim>\<open>stun/stun.c\<close>: a server that answers each broadcast packet with the addresses of the other senders it has heard on
  the same port. The table of senders is a list of 255 slots; one pass of the main loop after \<^verbatim>\<open>recvfrom\<close> is a function
  from the time, the sender, the first byte of the packet and the table to the new table and the reply. \<open>None\<close> is a write behind the
  packet buffer of 1024 bytes. Opening the socket and the log are not modelled.
\<close>

section \<open>The table of senders\<close>

record socket_address =
  sa_family :: nat
  sin_port :: u16
  sin_addr :: "u8 list"

record heard =
  heard_time :: int
  heard_addr :: socket_address

abbreviation (input) STUN_MSG :: u8 where "STUN_MSG \<equiv> 8"
abbreviation (input) STUN_ADDRS :: nat where "STUN_ADDRS \<equiv> 255"
abbreviation (input) AF_INET :: nat where "AF_INET \<equiv> 2"

definition heard_start :: "heard list" where
  "heard_start = replicate STUN_ADDRS \<lparr>heard_time = 0, heard_addr = \<lparr>sa_family = 0, sin_port = 0, sin_addr = replicate 4 0\<rparr>\<rparr>"

definition same_sender :: "socket_address \<Rightarrow> heard \<Rightarrow> bool" where
  "same_sender addr h \<longleftrightarrow> sa_family addr = sa_family (heard_addr h) \<and> sa_family addr = AF_INET \<and>
     sin_port addr = sin_port (heard_addr h) \<and> sin_addr addr = sin_addr (heard_addr h)"

definition recent_on_port :: "int \<Rightarrow> socket_address \<Rightarrow> heard \<Rightarrow> bool" where
  "recent_on_port now addr h \<longleftrightarrow> sin_port addr = sin_port (heard_addr h) \<and> now - heard_time h \<le> 10"

text \<open>The loop over the slots: the slot to write, and the bytes of the packet behind its header of three bytes.\<close>

fun scan_heard :: "int \<Rightarrow> socket_address \<Rightarrow> nat \<Rightarrow> heard list \<Rightarrow> nat option \<Rightarrow> u8 list \<Rightarrow> (nat option \<times> u8 list) option" where
  "scan_heard now addr i [] found out = Some (found, out)"
| "scan_heard now addr i (h # hs) found out =
     (if same_sender addr h then scan_heard now addr (i + 1) hs (Some i) out
      else if recent_on_port now addr h
      then if 3 + length out + 5 > 1024 then None
           else scan_heard now addr (i + 1) hs found (out @ 4 # sin_addr (heard_addr h))
      else scan_heard now addr (i + 1) hs (if found = None then Some i else found) out)"

definition stun_receive :: "int \<Rightarrow> socket_address \<Rightarrow> u8 \<Rightarrow> heard list \<Rightarrow> (heard list \<times> u8 list option) option" where
  "stun_receive now addr first hs =
     (if first = STUN_MSG then Some (hs, None)
      else case scan_heard now addr 0 hs None [] of
             None \<Rightarrow> None
           | Some (found, out) \<Rightarrow>
               (let hs' = (case found of None \<Rightarrow> hs | Some i \<Rightarrow> hs[i := \<lparr>heard_time = now, heard_addr = addr\<rparr>]);
                    len = word_of_nat (length out) :: u32
                in Some (hs', if length out > 0
                     then Some ([STUN_MSG, ucast (push_bit 8 len AND 0xff), ucast (len AND 0xff)] @ out) else None)))"

section \<open>What the reply holds\<close>

definition peers_of :: "int \<Rightarrow> socket_address \<Rightarrow> heard list \<Rightarrow> heard list" where
  "peers_of now addr hs = filter (\<lambda>h. recent_on_port now addr h \<and> \<not> same_sender addr h) hs"

definition peer_bytes :: "heard list \<Rightarrow> u8 list" where
  "peer_bytes hs = concat (map (\<lambda>h. 4 # sin_addr (heard_addr h)) hs)"

definition addresses_ok :: "heard list \<Rightarrow> bool" where
  "addresses_ok hs \<longleftrightarrow> list_all (\<lambda>h. length (sin_addr (heard_addr h)) = 4) hs"

lemma length_peer_bytes: "addresses_ok hs \<Longrightarrow> length (peer_bytes hs) = 5 * length hs"
  by (induction hs) (auto simp: addresses_ok_def peer_bytes_def)

lemma peers_ok: "addresses_ok hs \<Longrightarrow> addresses_ok (peers_of now addr hs)"
  by (auto simp: addresses_ok_def peers_of_def list_all_iff)

lemma peers_of_Cons:
  "peers_of now addr (h # hs) = (if recent_on_port now addr h \<and> \<not> same_sender addr h then h # peers_of now addr hs else peers_of now addr hs)"
  by (simp add: peers_of_def)

lemma scan_heard_out:
  assumes "addresses_ok hs" "length out + 5 * length (peers_of now addr hs) \<le> 1021"
  shows "\<exists>found'. scan_heard now addr i hs found out = Some (found', out @ peer_bytes (peers_of now addr hs))"
  using assms
proof (induction hs arbitrary: i found out)
  case (Cons h hs)
  note peer = Cons.IH [of "out @ 4 # sin_addr (heard_addr h)"]
  from Cons peer show ?case
    by (cases "same_sender addr h"; cases "recent_on_port now addr h") (auto simp: peers_of_Cons peer_bytes_def addresses_ok_def)
qed (simp add: peers_of_def peer_bytes_def)

lemma scan_heard_overflow:
  assumes "addresses_ok hs" "length out + 5 * length (peers_of now addr hs) > 1021" "length out \<le> 1021"
  shows "scan_heard now addr i hs found out = None"
  using assms
proof (induction hs arbitrary: i found out)
  case (Cons h hs)
  then show ?case
    by (cases "same_sender addr h"; cases "recent_on_port now addr h") (auto simp: peers_of_Cons addresses_ok_def)
qed (simp add: peers_of_def)

text \<open>The slot that is written: one of the sender's own, or else one that is not a recent one of the same port.\<close>

definition slot_ok :: "int \<Rightarrow> socket_address \<Rightarrow> heard list \<Rightarrow> nat option \<Rightarrow> bool" where
  "slot_ok now addr hs found = (case found of
     None \<Rightarrow> \<forall>h \<in> set hs. recent_on_port now addr h \<and> \<not> same_sender addr h
   | Some j \<Rightarrow> j < length hs \<and> (same_sender addr (hs ! j) \<or>
       \<not> recent_on_port now addr (hs ! j) \<and> (\<forall>h \<in> set hs. \<not> same_sender addr h)))"

lemma slot_ok_append: "slot_ok now addr pre (Some j) \<Longrightarrow> \<not> same_sender addr h \<Longrightarrow> slot_ok now addr (pre @ [h]) (Some j)"
  by (auto simp: slot_ok_def nth_append)

lemma scan_heard_slot:
  assumes "scan_heard now addr (length pre) hs found out = Some (found', out')" "slot_ok now addr pre found"
  shows "slot_ok now addr (pre @ hs) found'"
  using assms
proof (induction hs arbitrary: pre found out)
  case (Cons h hs)
  note IH = Cons.IH [of "pre @ [h]", simplified]
  consider "same_sender addr h" | "\<not> same_sender addr h" "recent_on_port now addr h" | "\<not> same_sender addr h" "\<not> recent_on_port now addr h"
    by blast
  then show ?case
  proof cases
    case 1
    with Cons.prems(1) have "scan_heard now addr (Suc (length pre)) hs (Some (length pre)) out = Some (found', out')" by simp
    then show ?thesis by (rule IH) (use 1 in \<open>simp add: slot_ok_def\<close>)
  next
    case 2
    with Cons.prems(1) have "scan_heard now addr (Suc (length pre)) hs found (out @ 4 # sin_addr (heard_addr h)) = Some (found', out')"
      by (simp split: if_splits)
    moreover have "slot_ok now addr (pre @ [h]) found"
      using Cons.prems(2) 2 slot_ok_append by (cases found) (auto simp: slot_ok_def [of _ _ _ None])
    ultimately show ?thesis by (rule IH)
  next
    case 3
    with Cons.prems(1) have "scan_heard now addr (Suc (length pre)) hs (if found = None then Some (length pre) else found) out = Some (found', out')"
      by simp
    moreover have "slot_ok now addr (pre @ [h]) (if found = None then Some (length pre) else found)"
      using Cons.prems(2) 3 slot_ok_append by (cases found) (auto simp: slot_ok_def [of _ _ _ None] slot_ok_def [of _ _ _ "Some (length pre)"])
    ultimately show ?thesis by (rule IH)
  qed
qed simp



text \<open>With more than 204 such senders the addresses are written behind the end of the packet buffer.\<close>

theorem stun_overflow:
  assumes "addresses_ok hs" "first \<noteq> STUN_MSG" "length (peers_of now addr hs) > 204"
  shows "stun_receive now addr first hs = None"
  using scan_heard_overflow [OF assms(1), of "[]" now addr 0 None] assms(2,3) by (simp add: stun_receive_def)

theorem stun_overflow_witness:
  "stun_receive 5 \<lparr>sa_family = 2, sin_port = 9, sin_addr = [10, 0, 0, 2]\<rparr> 0
     (replicate 255 \<lparr>heard_time = 1, heard_addr = \<lparr>sa_family = 2, sin_port = 9, sin_addr = [10, 0, 0, 1]\<rparr>\<rparr>) = None"
  by (rule stun_overflow) (simp_all add: addresses_ok_def peers_of_def filter_replicate recent_on_port_def same_sender_def list_all_iff)

end
